(* ===== verification/Prelude.thy ===== *)
theory Prelude
  imports Main "HOL-Library.Word" "HOL-Library.Monad_Syntax"
begin

text \<open>
  Shared vocabulary of the development: the machine types of the C sources, byte buffers
  with checked accesses, and the generic facts the component theories use.

  Conventions.
  \<^item> \<open>unsigned char\<close>, \<open>uint32_t\<close> and \<open>unsigned\<close> values that are computed with are
    words. Offsets and sizes are \<open>nat\<close>; an assignment to an \<open>unsigned short\<close> is
    written \<open>u16\<close>, a \<open>size_t\<close> subtraction \<open>sz_sub\<close>, so that the wrap-around of
    the source stays visible.
  \<^item> A byte array of \<open>n\<close> bytes is a list of length \<open>n\<close>. An unguarded access
    (\<open>rd\<close>, \<open>wr\<close>) outside of it is \<open>None\<close>. Every function that makes
    such an access, or whose loop may not end, has an \<open>option\<close> result: \<open>None\<close> means
    that the C function has no defined result (it leaves its buffer, or never returns), so
    a theorem that the result is \<open>Some\<close> is both a memory-safety and a termination
    theorem.
\<close>

unbundle bit_operations_syntax

type_synonym u8 = "8 word"
type_synonym u32 = "32 word"
type_synonym bytes = "u8 list"

named_theorems buf_simps \<open>lengths and contents of byte buffers\<close>
named_theorems u16_simps \<open>unsigned short and size_t arithmetic in range\<close>

section \<open>Unsigned short and size\_t\<close>

definition u16 :: "nat \<Rightarrow> nat" where
  "u16 n = n mod 65536"

definition sz_sub :: "nat \<Rightarrow> nat \<Rightarrow> nat" where
  "sz_sub a b = (if b \<le> a then a - b else 2 ^ 64 + a - b)"

lemma u16_id [simp, u16_simps]: "n < 65536 \<Longrightarrow> u16 n = n"
  by (simp add: u16_def)

lemma u16_less [simp]: "u16 n < 65536"
  by (simp add: u16_def)

lemma u16_le: "u16 n \<le> n"
  by (simp add: u16_def)

lemma sz_sub_le [simp, u16_simps]: "b \<le> a \<Longrightarrow> sz_sub a b = a - b"
  by (simp add: sz_sub_def)

section \<open>Bytes\<close>

definition byte :: "nat \<Rightarrow> u8" where
  "byte n = word_of_nat n"

definition be16 :: "u8 \<Rightarrow> u8 \<Rightarrow> nat" where
  "be16 a b = (push_bit 8 (unat a)) OR (unat b)"

definition be32 :: "u8 \<Rightarrow> u8 \<Rightarrow> u8 \<Rightarrow> u8 \<Rightarrow> nat" where
  "be32 a b c d = push_bit 24 (unat a) OR push_bit 16 (unat b) OR push_bit 8 (unat c) OR unat d"

lemma unat_u8_less [simp]: "unat (b :: u8) < 256"
  using unsigned_less [of b] by simp

lemma unat_u32_less [simp]: "unat (w :: u32) < 4294967296"
  using unsigned_less [of w] by simp

lemma unat_of_nat_u32: "n < 4294967296 \<Longrightarrow> unat (word_of_nat n :: u32) = n"
  by (simp add: unat_of_nat)

lemma unat_pow2_u32:
  assumes "j < 32"
  shows "unat ((2 :: u32) ^ j) = 2 ^ j"
proof -
  have "(2 :: nat) ^ j < 2 ^ 32"
    using assms by (rule power_strict_increasing) simp
  then have "unat (word_of_nat (2 ^ j) :: u32) = 2 ^ j"
    by (intro unat_of_nat_u32) simp
  then show ?thesis by simp
qed

lemma unat_byte [simp]: "unat (byte n) = n mod 256"
  by (simp add: byte_def unat_of_nat)

lemma byte_unat [simp]: "byte (unat b) = b"
  by (simp add: byte_def)

lemma push_bit_or_add:
  assumes "b < 2 ^ k"
  shows "push_bit k a OR b = a * 2 ^ k + (b :: nat)"
proof -
  have "push_bit k a AND b = 0"
    using assms by (metis (no_types) and_zero_eq bit_eqI bit_and_iff bit_push_bit_iff_nat
        bit_take_bit_iff linorder_not_le take_bit_nat_eq_self bit_0_eq bot_apply bot_bool_def)
  then have "push_bit k a OR b = push_bit k a + b"
    by (simp add: disjunctive_add_eq_or)
  then show ?thesis
    by (simp add: push_bit_eq_mult)
qed

lemma be16_eq: "be16 a b = unat a * 256 + unat b"
  using push_bit_or_add [of "unat b" 8 "unat a"] by (simp add: be16_def)

lemma be16_less: "be16 a b < 65536"
  using unat_u8_less [of a] unat_u8_less [of b] unfolding be16_eq by linarith

lemma be16_split [simp]: "n < 65536 \<Longrightarrow> be16 (byte (n div 256)) (byte n) = n"
  by (simp add: be16_eq)

lemma be32_eq:
  "be32 a b c d = ((unat a * 256 + unat b) * 256 + unat c) * 256 + unat d"
proof -
  note less = unat_u8_less [of b] unat_u8_less [of c] unat_u8_less [of d]
  have cd: "push_bit 8 (unat c) OR unat d = unat c * 256 + unat d"
    using push_bit_or_add [of "unat d" 8 "unat c"] by simp
  have "unat c * 256 + unat d < 65536"
    using less by linarith
  then have bcd: "push_bit 16 (unat b) OR (unat c * 256 + unat d)
      = unat b * 65536 + (unat c * 256 + unat d)"
    using push_bit_or_add [of "unat c * 256 + unat d" 16 "unat b"] by simp
  have "unat b * 65536 + (unat c * 256 + unat d) < 16777216"
    using less by linarith
  then have "push_bit 24 (unat a) OR (unat b * 65536 + (unat c * 256 + unat d))
      = unat a * 16777216 + (unat b * 65536 + (unat c * 256 + unat d))"
    using push_bit_or_add [of "unat b * 65536 + (unat c * 256 + unat d)" 24 "unat a"] by simp
  then show ?thesis
    by (simp add: be32_def or.assoc cd bcd)
qed

lemma be32_split [simp]:
  assumes "n < 4294967296"
  shows "be32 (byte (n div 16777216)) (byte (n div 65536)) (byte (n div 256)) (byte n) = n"
proof -
  have "n div 16777216 < 256"
    using assms by (simp add: less_mult_imp_div_less)
  moreover have "n div 16777216 = n div 65536 div 256" "n div 65536 = n div 256 div 256"
    by (simp_all add: div_mult2_eq [symmetric])
  ultimately show ?thesis
    by (simp add: be32_eq)
qed

section \<open>Byte buffers\<close>

definition rd :: "bytes \<Rightarrow> nat \<Rightarrow> u8 option" where
  "rd buf i = (if i < length buf then Some (buf ! i) else None)"

definition wr :: "bytes \<Rightarrow> nat \<Rightarrow> u8 \<Rightarrow> bytes option" where
  "wr buf i b = (if i < length buf then Some (buf[i := b]) else None)"

text \<open>
  \<open>put buf i b\<close> is the guarded store \<open>if (i < lim) buf[i] = b\<close> into a buffer of
  \<open>lim\<close> bytes, \<open>blit\<close> the guarded copy
  \<open>if (i < lim) memcpy(&buf[i], src, MIN(len, lim - i))\<close>, and \<open>nul\<close> the closing
  \<open>if (lim > 0) buf[MIN(i, lim - 1)] = 0\<close>.
\<close>

definition put :: "bytes \<Rightarrow> nat \<Rightarrow> u8 \<Rightarrow> bytes" where
  "put buf i b = (if i < length buf then buf[i := b] else buf)"

definition blit :: "bytes \<Rightarrow> nat \<Rightarrow> bytes \<Rightarrow> bytes" where
  "blit buf i src = (if i < length buf
     then take i buf @ take (length buf - i) src @ drop (i + length src) buf
     else buf)"

definition nul :: "bytes \<Rightarrow> nat \<Rightarrow> bytes" where
  "nul buf i = (if 0 < length buf then buf[min i (length buf - 1) := 0] else buf)"

lemma length_put [simp, buf_simps]: "length (put buf i b) = length buf"
  by (simp add: put_def)

lemma length_blit [simp, buf_simps]: "length (blit buf i src) = length buf"
  by (auto simp: blit_def min_def)

lemma length_nul [simp, buf_simps]: "length (nul buf i) = length buf"
  by (simp add: nul_def)

lemma wr_length: "wr buf i b = Some buf' \<Longrightarrow> length buf' = length buf"
  by (auto simp: wr_def split: if_splits)

lemma rd_in [simp, buf_simps]: "i < length buf \<Longrightarrow> rd buf i = Some (buf ! i)"
  by (simp add: rd_def)

lemma rd_out [simp]: "length buf \<le> i \<Longrightarrow> rd buf i = None"
  by (simp add: rd_def)

lemma put_nth: "put buf i b ! j = (if i = j \<and> i < length buf then b else buf ! j)"
  by (simp add: put_def nth_list_update)

lemma blit_nth:
  "j < length buf \<Longrightarrow>
    blit buf i src ! j = (if i \<le> j \<and> j < i + length src then src ! (j - i) else buf ! j)"
  by (auto simp: blit_def nth_append)

text \<open>
  The reading of a buffer that counts: what a sequence of guarded stores that starts at
  offset 0 leaves in the first \<open>n\<close> bytes, cut at the size of the buffer.
\<close>

definition holds :: "bytes \<Rightarrow> bytes \<Rightarrow> bool" where
  "holds buf out \<longleftrightarrow> take (length out) buf = take (length buf) out"

lemma holds_Nil [simp]: "holds buf []"
  by (simp add: holds_def)

lemma holds_put:
  assumes "holds buf out"
  shows "holds (put buf (length out) b) (out @ [b])"
proof (cases "length out < length buf")
  case True
  with assms have "take (length out) buf = out"
    by (simp add: holds_def)
  with True show ?thesis
    by (simp add: holds_def put_def take_Suc_conv_app_nth)
next
  case False
  with assms show ?thesis by (simp add: holds_def put_def)
qed

lemma holds_blit:
  assumes "holds buf out"
  shows "holds (blit buf (length out) src) (out @ src)"
proof (cases "length out < length buf")
  case True
  with assms have "take (length out) buf = out"
    by (simp add: holds_def)
  with True show ?thesis
    by (auto simp: holds_def blit_def take_append min_def)
next
  case False
  with assms show ?thesis by (simp add: holds_def blit_def)
qed

text \<open>The C string of a buffer: what precedes its first NUL.\<close>

definition cstr :: "bytes \<Rightarrow> bytes" where
  "cstr buf = takeWhile (\<lambda>b. b \<noteq> 0) buf"

lemma cstr_append [simp]: "0 \<notin> set xs \<Longrightarrow> cstr (xs @ 0 # ys) = xs"
  unfolding cstr_def by (induction xs) auto

lemma cstr_no_nul: "0 \<notin> set (cstr xs)"
  unfolding cstr_def by (induction xs) auto

lemma holds_nul_cstr:
  assumes "holds buf out" and "0 < length buf" and "0 \<notin> set out"
  shows "cstr (nul buf (length out)) = take (length buf - 1) out"
proof -
  let ?k = "min (length out) (length buf - 1)"
  have "take ?k (nul buf (length out)) = take ?k buf"
    using assms(2) by (simp add: nul_def)
  also have "\<dots> = take ?k (take (length out) buf)"
    by simp
  also have "\<dots> = take (min ?k (length buf)) out"
    using assms(1) by (simp add: holds_def)
  also have "\<dots> = take (length buf - 1) out"
    by (cases "length out \<le> length buf - 1") (auto simp: min_def)
  finally have pre: "take ?k (nul buf (length out)) = take (length buf - 1) out" .
  have k: "?k < length buf"
    using assms(2) by linarith
  have "nul buf (length out) = take ?k (nul buf (length out)) @ 0 # drop (Suc ?k) (nul buf (length out))"
    using k assms(2) id_take_nth_drop [of ?k "nul buf (length out)"] by (simp add: nul_def)
  then have "nul buf (length out) = take (length buf - 1) out @ 0 # drop (Suc ?k) (nul buf (length out))"
    by (simp only: pre)
  moreover have "0 \<notin> set (take (length buf - 1) out)"
    using assms(3) by (meson in_set_takeD)
  ultimately show ?thesis
    by (metis cstr_append)
qed

section \<open>Loops\<close>

text \<open>
  \<open>loop f s\<close> runs a loop body from the state \<open>s\<close>: the body either goes on with a new
  state (\<open>Inl\<close>) or leaves the loop with a result (\<open>Inr\<close>), and is \<open>None\<close> where the
  source reads or writes out of bounds. A loop that never ends is \<open>None\<close> as well.
\<close>

partial_function (option) loop :: "('s \<Rightarrow> ('s + 'r) option) \<Rightarrow> 's \<Rightarrow> 'r option" where
  "loop f s = do {
     r \<leftarrow> f s;
     case r of Inl s' \<Rightarrow> loop f s' | Inr x \<Rightarrow> Some x
   }"

lemma loop_next: "f s = Some (Inl s') \<Longrightarrow> loop f s = loop f s'"
  by (simp add: loop.simps [of f s])

lemma loop_done: "f s = Some (Inr r) \<Longrightarrow> loop f s = Some r"
  by (simp add: loop.simps [of f s])

lemma loop_total:
  fixes m :: "'s \<Rightarrow> nat"
  assumes "I s"
    and "\<And>s. I s \<Longrightarrow> (\<exists>s'. f s = Some (Inl s') \<and> I s' \<and> m s' < m s) \<or> (\<exists>r. f s = Some (Inr r) \<and> Q r)"
  shows "\<exists>r. loop f s = Some r \<and> Q r"
  using assms(1)
proof (induction "m s" arbitrary: s rule: less_induct)
  case less
  from assms(2) [OF less.prems] show ?case
    using less.hyps by (metis loop_done loop_next)
qed

text \<open>The runs of a loop that end, as an inductive relation; it gives the rule induction for
  what a returning loop has done.\<close>

inductive runs :: "('s \<Rightarrow> ('s + 'r) option) \<Rightarrow> 's \<Rightarrow> 'r \<Rightarrow> bool" for f where
  runs_next: "f s = Some (Inl s') \<Longrightarrow> runs f s' r \<Longrightarrow> runs f s r"
| runs_done: "f s = Some (Inr r) \<Longrightarrow> runs f s r"

lemma loop_runs: "loop f s = Some r \<longleftrightarrow> runs f s r"
proof
  assume "loop f s = Some r"
  then show "runs f s r"
  proof (rule loop.raw_induct [where P = runs, rotated])
    fix l g s r
    assume IH: "\<And>g s r. l g s = Some r \<Longrightarrow> runs g s r"
      and step: "g s \<bind> (\<lambda>x. case x of Inl s' \<Rightarrow> l g s' | Inr x \<Rightarrow> Some x) = Some r"
    then obtain x where "g s = Some x" "(case x of Inl s' \<Rightarrow> l g s' | Inr x \<Rightarrow> Some x) = Some r"
      by (cases "g s") auto
    then show "runs g s r"
      by (cases x) (auto intro: runs_next runs_done IH)
  qed
next
  show "runs f s r \<Longrightarrow> loop f s = Some r"
    by (induction rule: runs.induct) (auto simp: loop_next loop_done)
qed

lemma loop_invariant:
  assumes "loop f s = Some r" "I s"
    and "\<And>s s'. I s \<Longrightarrow> f s = Some (Inl s') \<Longrightarrow> I s'"
    and "\<And>s r. I s \<Longrightarrow> f s = Some (Inr r) \<Longrightarrow> Q r"
  shows "Q r"
proof -
  have "runs f s r"
    using assms(1) by (simp add: loop_runs)
  then show ?thesis
    using assms(2)
  proof (induction rule: runs.induct)
    case (runs_next s s' r)
    then show ?case using assms(3) by blast
  next
    case (runs_done s r)
    then show ?case using assms(4) by blast
  qed
qed

lemma loop_diverges:
  assumes "I s" and "\<And>s. I s \<Longrightarrow> \<exists>s'. f s = Some (Inl s') \<and> I s'"
  shows "loop f s = None"
proof (cases "loop f s")
  case (Some r)
  then have "runs f s r" by (simp add: loop_runs)
  then have "\<not> I s"
  proof (induction rule: runs.induct)
    case (runs_next s s' r)
    then show ?case using assms(2) [of s] by auto
  next
    case (runs_done s r)
    then show ?case using assms(2) [of s] by auto
  qed
  with assms(1) show ?thesis by simp
qed

section \<open>Writing a text piece by piece\<close>

lemma put_blit: "put buf i b = blit buf i [b]"
  by (simp add: put_def blit_def upd_conv_take_nth_drop)

lemma blit_Nil [simp]: "blit buf i [] = buf"
  by (simp add: blit_def)

lemma blit_blit: "blit (blit buf 0 out) (length out) s = blit buf 0 (out @ s)"
proof (cases "length out < length buf")
  case True
  then show ?thesis by (simp add: blit_def add.commute)
next
  case False
  then show ?thesis by (simp add: blit_def)
qed

lemma holds_blit0: "holds (blit buf 0 out) out"
  using holds_blit [of buf "[]" out] by simp

section \<open>Literals and unguarded blocks\<close>

definition str :: "string \<Rightarrow> bytes" where
  "str s = map of_char s"

text \<open>Copying a block out of a buffer and into a buffer with no guard of its own, as a bare
  \<open>memcpy\<close>.\<close>

definition rdn :: "bytes \<Rightarrow> nat \<Rightarrow> nat \<Rightarrow> bytes option" where
  "rdn buf i n = (if i + n \<le> length buf then Some (take n (drop i buf)) else None)"

definition wrn :: "bytes \<Rightarrow> nat \<Rightarrow> bytes \<Rightarrow> bytes option" where
  "wrn buf i bs = (if i + length bs \<le> length buf then Some (blit buf i bs) else None)"

lemma rdn_in: "i + n \<le> length buf \<Longrightarrow> rdn buf i n = Some (take n (drop i buf))"
  by (simp add: rdn_def)

lemma wrn_in: "i + length bs \<le> length buf \<Longrightarrow> wrn buf i bs = Some (take i buf @ bs @ drop (i + length bs) buf)"
  by (cases bs) (auto simp: wrn_def blit_def)

lemma length_wrn: "wrn buf i bs = Some buf' \<Longrightarrow> length buf' = length buf"
  by (auto simp: wrn_def split: if_splits)

end
