(* ===== verification/Dns_Crypto.thy ===== *)
theory Dns_Crypto
  imports Prelude
begin

text \<open>
  The permutation generators of \<^verbatim>\<open>src/src/c/dns/libdns/dns.c\<close>: the TEA block cipher,
  the Feistel permutor that draws query identifiers, and the S-box shuffle that orders
  resource records. \<open>unsigned\<close> is a 32-bit word here; \<open>dns_random\<close> is a function
  pointer of the library, so the four random key words are an argument of
  \<open>dns_k_permutor_init\<close>.
\<close>

section \<open>TEA\<close>

record dns_k_tea =
  key :: "u32 list"
  cycles :: u32

definition dns_k_tea_init :: "u32 list \<Rightarrow> u32 \<Rightarrow> dns_k_tea" where
  "dns_k_tea_init k n = \<lparr>key = k, cycles = (if n \<noteq> 0 then n else 32)\<rparr>"

fun tea_loop :: "u32 list \<Rightarrow> nat \<Rightarrow> u32 \<Rightarrow> u32 \<Rightarrow> u32 \<Rightarrow> u32 \<times> u32" where
  "tea_loop k 0 sm y z = (y, z)"
| "tea_loop k (Suc n) sm y z =
     (let sm = sm + 0x9E3779B9;
          y = y + ((push_bit 4 z + k ! 0) XOR (z + sm) XOR (drop_bit 5 z + k ! 1));
          z = z + ((push_bit 4 y + k ! 2) XOR (y + sm) XOR (drop_bit 5 y + k ! 3))
      in tea_loop k n sm y z)"

definition dns_k_tea_encrypt :: "dns_k_tea \<Rightarrow> u32 \<Rightarrow> u32 \<Rightarrow> u32 \<times> u32" where
  "dns_k_tea_encrypt tea v0 v1 = tea_loop (key tea) (unat (cycles tea)) 0 v0 v1"

section \<open>The permutor\<close>

record dns_k_permutor =
  stepi :: u32
  plength :: u32
  limit :: u32
  shift :: u32
  pmask :: u32
  rounds :: u32
  tea :: dns_k_tea

partial_function (option) powof_loop :: "u32 \<Rightarrow> u32 \<Rightarrow> u32 \<Rightarrow> u32 option" where
  "powof_loop n m i = (if m < n then powof_loop n (push_bit 1 m) (i + 1) else Some i)"

definition dns_k_permutor_powof :: "u32 \<Rightarrow> u32 option" where
  "dns_k_permutor_powof n = powof_loop n 1 0"

definition dns_k_permutor_init :: "u32 list \<Rightarrow> u32 \<Rightarrow> u32 \<Rightarrow> dns_k_permutor option" where
  "dns_k_permutor_init rnd low high = do {
     let len = (high - low) + 1;
     width \<leftarrow> dns_k_permutor_powof len;
     let width = width + width mod 2;
     let sh = width div 2;
     Some \<lparr>stepi = 0, plength = len, limit = high, shift = sh,
           pmask = push_bit (unat sh) 1 - 1, rounds = 8, tea = dns_k_tea_init rnd 0\<rparr>
   }"

definition dns_k_permutor_F :: "dns_k_permutor \<Rightarrow> u32 \<Rightarrow> u32 \<Rightarrow> u32" where
  "dns_k_permutor_F p k x = pmask p AND fst (dns_k_tea_encrypt (tea p) k x)"

text \<open>
  The rounds of \<open>dns_k_permutor_E\<close>. The source keeps the halves in two-element arrays
  indexed by the parity of \<open>i\<close>, so that a round reads the current pair and writes the
  other one; the pair is passed on here.
\<close>

function E_loop :: "dns_k_permutor \<Rightarrow> nat \<Rightarrow> u32 \<times> u32 \<Rightarrow> u32 \<times> u32" where
  "E_loop p i (l, r) =
     (let lr = (r, l XOR dns_k_permutor_F p (word_of_nat i) r)
      in if i + 1 < unat (rounds p - 1) then E_loop p (i + 1) lr else lr)"
  by pat_completeness auto
termination
  by (relation "measure (\<lambda>(p, i, _). unat (rounds p - 1) - i)") auto

declare E_loop.simps [simp del]

definition join :: "dns_k_permutor \<Rightarrow> u32 \<times> u32 \<Rightarrow> u32" where
  "join p lr = push_bit (unat (shift p)) (fst lr AND pmask p) OR (snd lr AND pmask p)"

definition split_halves :: "dns_k_permutor \<Rightarrow> u32 \<Rightarrow> u32 \<times> u32" where
  "split_halves p n = (pmask p AND drop_bit (unat (shift p)) n, pmask p AND n)"

definition dns_k_permutor_E :: "dns_k_permutor \<Rightarrow> u32 \<Rightarrow> u32" where
  "dns_k_permutor_E p n = join p (E_loop p 0 (split_halves p n))"

text \<open>
  \<open>D_loop p i\<close> is the loop of \<open>dns_k_permutor_D\<close> with \<open>i\<close> the value of the counter
  after its decrement; it ends after the pass with counter 0.
\<close>

fun D_loop :: "dns_k_permutor \<Rightarrow> nat \<Rightarrow> u32 \<times> u32 \<Rightarrow> u32 \<times> u32" where
  "D_loop p 0 (l, r) = (r XOR dns_k_permutor_F p 0 l, l)"
| "D_loop p (Suc i) (l, r) = D_loop p i (r XOR dns_k_permutor_F p (word_of_nat (Suc i)) l, l)"

definition dns_k_permutor_D :: "dns_k_permutor \<Rightarrow> u32 \<Rightarrow> u32" where
  "dns_k_permutor_D p n = join p (D_loop p (unat (rounds p - 1 - 1)) (split_halves p n))"

partial_function (option) step_loop :: "dns_k_permutor \<Rightarrow> (u32 \<times> dns_k_permutor) option" where
  "step_loop p =
     (let n = dns_k_permutor_E p (stepi p); p' = p\<lparr>stepi := stepi p + 1\<rparr>
      in if plength p \<le> n then step_loop p' else Some (n, p'))"

definition dns_k_permutor_step :: "dns_k_permutor \<Rightarrow> (u32 \<times> dns_k_permutor) option" where
  "dns_k_permutor_step p = do {
     (n, p') \<leftarrow> step_loop p;
     Some (n + (limit p + 1 - plength p), p')
   }"

section \<open>The shuffle\<close>

definition sbox :: "u8 list" where
  "sbox =
   [0x63, 0x7c, 0x77, 0x7b, 0xf2, 0x6b, 0x6f, 0xc5,
    0x30, 0x01, 0x67, 0x2b, 0xfe, 0xd7, 0xab, 0x76,
    0xca, 0x82, 0xc9, 0x7d, 0xfa, 0x59, 0x47, 0xf0,
    0xad, 0xd4, 0xa2, 0xaf, 0x9c, 0xa4, 0x72, 0xc0,
    0xb7, 0xfd, 0x93, 0x26, 0x36, 0x3f, 0xf7, 0xcc,
    0x34, 0xa5, 0xe5, 0xf1, 0x71, 0xd8, 0x31, 0x15,
    0x04, 0xc7, 0x23, 0xc3, 0x18, 0x96, 0x05, 0x9a,
    0x07, 0x12, 0x80, 0xe2, 0xeb, 0x27, 0xb2, 0x75,
    0x09, 0x83, 0x2c, 0x1a, 0x1b, 0x6e, 0x5a, 0xa0,
    0x52, 0x3b, 0xd6, 0xb3, 0x29, 0xe3, 0x2f, 0x84,
    0x53, 0xd1, 0x00, 0xed, 0x20, 0xfc, 0xb1, 0x5b,
    0x6a, 0xcb, 0xbe, 0x39, 0x4a, 0x4c, 0x58, 0xcf,
    0xd0, 0xef, 0xaa, 0xfb, 0x43, 0x4d, 0x33, 0x85,
    0x45, 0xf9, 0x02, 0x7f, 0x50, 0x3c, 0x9f, 0xa8,
    0x51, 0xa3, 0x40, 0x8f, 0x92, 0x9d, 0x38, 0xf5,
    0xbc, 0xb6, 0xda, 0x21, 0x10, 0xff, 0xf3, 0xd2,
    0xcd, 0x0c, 0x13, 0xec, 0x5f, 0x97, 0x44, 0x17,
    0xc4, 0xa7, 0x7e, 0x3d, 0x64, 0x5d, 0x19, 0x73,
    0x60, 0x81, 0x4f, 0xdc, 0x22, 0x2a, 0x90, 0x88,
    0x46, 0xee, 0xb8, 0x14, 0xde, 0x5e, 0x0b, 0xdb,
    0xe0, 0x32, 0x3a, 0x0a, 0x49, 0x06, 0x24, 0x5c,
    0xc2, 0xd3, 0xac, 0x62, 0x91, 0x95, 0xe4, 0x79,
    0xe7, 0xc8, 0x37, 0x6d, 0x8d, 0xd5, 0x4e, 0xa9,
    0x6c, 0x56, 0xf4, 0xea, 0x65, 0x7a, 0xae, 0x08,
    0xba, 0x78, 0x25, 0x2e, 0x1c, 0xa6, 0xb4, 0xc6,
    0xe8, 0xdd, 0x74, 0x1f, 0x4b, 0xbd, 0x8b, 0x8a,
    0x70, 0x3e, 0xb5, 0x66, 0x48, 0x03, 0xf6, 0x0e,
    0x61, 0x35, 0x57, 0xb9, 0x86, 0xc1, 0x1d, 0x9e,
    0xe1, 0xf8, 0x98, 0x11, 0x69, 0xd9, 0x8e, 0x94,
    0x9b, 0x1e, 0x87, 0xe9, 0xce, 0x55, 0x28, 0xdf,
    0x8c, 0xa1, 0x89, 0x0d, 0xbf, 0xe6, 0x42, 0x68,
    0x41, 0x99, 0x2d, 0x0f, 0xb0, 0x54, 0xbb, 0x16]"

definition sub_byte :: "u8 \<Rightarrow> u8" where
  "sub_byte a = sbox ! unat a"

fun shuffle_loop :: "nat \<Rightarrow> u32 \<Rightarrow> u8 \<times> u8 \<Rightarrow> u8 \<times> u8" where
  "shuffle_loop 0 s (a, b) = (a, b)"
| "shuffle_loop (Suc n) s (a, b) =
     (let a = a XOR ucast (0xff AND s);
          a = sub_byte a XOR b;
          b = sub_byte b XOR a
      in shuffle_loop n (drop_bit 8 s) (a, b))"

definition dns_k_shuffle16 :: "16 word \<Rightarrow> u32 \<Rightarrow> 16 word" where
  "dns_k_shuffle16 n s =
     (let (a, b) = shuffle_loop 4 s (ucast (0xff AND n), ucast (0xff AND drop_bit 8 n))
      in (0xff00 AND push_bit 8 (ucast a)) OR (0x00ff AND ucast b))"

section \<open>The S-box shuffle is a permutation of the 16-bit values\<close>

lemma length_sbox [simp]: "length sbox = 256"
  by (simp add: sbox_def)

lemma distinct_sbox: "distinct sbox"
proof -
  have "distinct (map unat sbox)"
    unfolding sbox_def list.map unsigned_numeral unsigned_0 unsigned_1 by simp
  then show ?thesis by (simp add: distinct_map)
qed

lemma sub_byte_inj [simp]: "sub_byte a = sub_byte b \<longleftrightarrow> a = b"
  by (simp add: sub_byte_def nth_eq_iff_index_eq distinct_sbox word_unat_eq_iff [symmetric])

lemma xor_cancel [simp]: "(x XOR z = y XOR z) \<longleftrightarrow> (x :: 'a :: len word) = y"
  by (metis xor.assoc xor_self_eq xor.right_neutral)

lemma xor_twice [simp]: "(x XOR z) XOR z = (x :: 'a :: len word)"
  by (simp add: xor.assoc)

lemma shuffle_loop_inj: "shuffle_loop n s x = shuffle_loop n s y \<longleftrightarrow> x = y"
proof (induction n arbitrary: s x y)
  case 0
  show ?case by (cases x; cases y) simp
next
  case (Suc n)
  show ?case by (cases x; cases y) (auto simp: Let_def Suc.IH)
qed

lemma bit_ff00: "bit (0xff00 :: 16 word) k \<longleftrightarrow> 8 \<le> k \<and> k < 16"
proof -
  have eq: "(0xff00 :: 16 word) = push_bit 8 (mask 8)"
    by (simp add: mask_eq_exp_minus_1)
  show ?thesis unfolding eq by (auto simp: bit_simps)
qed

lemma bit_ff: "bit (0xff :: 'a :: len word) k \<longleftrightarrow> k < 8 \<and> k < LENGTH('a)"
proof -
  have eq: "(0xff :: 'a word) = mask 8"
    by (simp add: mask_eq_exp_minus_1)
  show ?thesis unfolding eq by (auto simp: bit_simps)
qed

lemma bit_and_ff: "bit (0xff AND x :: 'a :: len word) k \<longleftrightarrow> k < 8 \<and> bit x k"
  by (auto simp only: bit_and_iff bit_ff dest: bit_imp_le_length)

lemma bit_and_ff00: "bit (0xff00 AND x :: 16 word) k \<longleftrightarrow> 8 \<le> k \<and> bit x k"
  unfolding bit_and_iff bit_ff00 using bit_imp_le_length [of x k] by auto

lemmas pack_bits = bit_and_ff bit_and_ff00 bit_or_iff bit_push_bit_iff bit_unsigned_iff bit_drop_bit_eq

lemma pack_inj:
  fixes a b a' b' :: u8
  assumes "(0xff00 AND push_bit 8 (ucast a)) OR (0x00ff AND ucast b)
    = (0xff00 AND push_bit 8 (ucast a')) OR (0x00ff AND ucast b' :: 16 word)"
  shows "a = a' \<and> b = b'"
proof -
  have bits: "bit ((0xff00 AND push_bit 8 (ucast a)) OR (0x00ff AND ucast b) :: 16 word) k
      = bit ((0xff00 AND push_bit 8 (ucast a')) OR (0x00ff AND ucast b') :: 16 word) k" for k
    by (simp only: assms)
  have "bit a k = bit a' k" if "k < 8" for k
    using bits [of "k + 8"] that unfolding pack_bits by simp
  moreover have "bit b k = bit b' k" if "k < 8" for k
    using bits [of k] that unfolding pack_bits by simp
  ultimately show ?thesis
    by (auto intro: bit_word_eqI)
qed

lemma unpack_inj:
  fixes n m :: "16 word"
  assumes "(ucast (0xff AND n) :: u8) = ucast (0xff AND m)"
    and "(ucast (0xff AND drop_bit 8 n) :: u8) = ucast (0xff AND drop_bit 8 m)"
  shows "n = m"
proof (rule bit_word_eqI)
  fix k assume k: "k < LENGTH(16)"
  have lo: "bit (ucast (0xff AND n) :: u8) j = bit (ucast (0xff AND m) :: u8) j" for j
    by (simp only: assms)
  have hi: "bit (ucast (0xff AND drop_bit 8 n) :: u8) j = bit (ucast (0xff AND drop_bit 8 m) :: u8) j"
    for j
    by (simp only: assms)
  show "bit n k = bit m k"
  proof (cases "k < 8")
    case True
    then show ?thesis using lo [of k] unfolding pack_bits by simp
  next
    case False
    with k have "k - 8 < 8" by simp
    with False show ?thesis using hi [of "k - 8"] unfolding pack_bits by simp
  qed
qed

lemma dns_k_shuffle16_inj: "inj (\<lambda>n. dns_k_shuffle16 n s)"
proof (rule injI)
  fix n m assume eq: "dns_k_shuffle16 n s = dns_k_shuffle16 m s"
  let ?h = "\<lambda>n :: 16 word. (ucast (0xff AND n) :: u8, ucast (0xff AND drop_bit 8 n) :: u8)"
  have "shuffle_loop 4 s (?h n) = shuffle_loop 4 s (?h m)"
    using eq unfolding dns_k_shuffle16_def by (auto simp: Let_def split: prod.splits dest: pack_inj)
  then have "?h n = ?h m"
    by (simp only: shuffle_loop_inj)
  then show "n = m"
    by (auto intro: unpack_inj)
qed

text \<open>C25: \<open>dns_k_shuffle16\<close> permutes the 16-bit values for every seed, so the shuffled
  order of the records of a packet (their offsets are 16-bit) is a total order that neither
  merges nor loses a record.\<close>

theorem dns_k_shuffle16_bij: "bij (\<lambda>n. dns_k_shuffle16 n s)"
  using dns_k_shuffle16_inj by (simp add: bij_def finite_UNIV_inj_surj)

section \<open>The Feistel rounds are invertible\<close>

text \<open>What \<open>dns_k_permutor_init\<close> establishes of the fields the rounds read.\<close>

definition permutor_ok :: "dns_k_permutor \<Rightarrow> bool" where
  "permutor_ok p \<longleftrightarrow> unat (shift p) \<le> 16 \<and> pmask p = push_bit (unat (shift p)) 1 - 1 \<and> 1 < rounds p"

abbreviation half :: "dns_k_permutor \<Rightarrow> nat" where
  "half p \<equiv> unat (shift p)"

lemma permutor_ok_stepi [simp]: "permutor_ok (p\<lparr>stepi := s\<rparr>) = permutor_ok p"
  by (simp add: permutor_ok_def)

lemma pmask_and:
  assumes "permutor_ok p"
  shows "x AND pmask p = take_bit (half p) x" and "pmask p AND x = take_bit (half p) x"
proof -
  have "pmask p = mask (half p)"
    using assms by (simp add: permutor_ok_def mask_eq_decr_exp push_bit_eq_mult)
  then show "x AND pmask p = take_bit (half p) x" and "pmask p AND x = take_bit (half p) x"
    by (simp_all add: take_bit_eq_mask and.commute)
qed

lemma F_take_bit: "permutor_ok p \<Longrightarrow> take_bit (half p) (dns_k_permutor_F p k x) = dns_k_permutor_F p k x"
  by (simp add: dns_k_permutor_F_def pmask_and)

definition in_half :: "dns_k_permutor \<Rightarrow> u32 \<times> u32 \<Rightarrow> bool" where
  "in_half p lr \<longleftrightarrow> take_bit (half p) (fst lr) = fst lr \<and> take_bit (half p) (snd lr) = snd lr"

lemma in_half_split: "permutor_ok p \<Longrightarrow> in_half p (split_halves p n)"
  by (simp add: in_half_def split_halves_def pmask_and)

lemma E_loop_in_half: "permutor_ok p \<Longrightarrow> in_half p lr \<Longrightarrow> in_half p (E_loop p i lr)"
proof (induction p i lr rule: E_loop.induct)
  case (1 p i l r)
  then have step: "in_half p (r, l XOR dns_k_permutor_F p (word_of_nat i) r)"
    by (simp add: in_half_def take_bit_xor F_take_bit)
  with 1 show ?case
    by (simp add: E_loop.simps [of p i l r] Let_def)
qed

fun D_from :: "dns_k_permutor \<Rightarrow> nat \<Rightarrow> u32 \<times> u32 \<Rightarrow> u32 \<times> u32" where
  "D_from p 0 lr = lr"
| "D_from p (Suc i) lr = D_loop p i lr"

lemma D_loop_E_step:
  "D_loop p i (r, l XOR dns_k_permutor_F p (word_of_nat i) r) = D_from p i (l, r)"
  by (cases i) simp_all

lemma D_loop_E_loop:
  "i < unat (rounds p - 1) \<Longrightarrow> D_loop p (unat (rounds p - 1) - 1) (E_loop p i lr) = D_from p i lr"
proof (induction p i lr rule: E_loop.induct)
  case (1 p i l r)
  show ?case
  proof (cases "i + 1 < unat (rounds p - 1)")
    case True
    with 1 show ?thesis
      by (simp add: E_loop.simps [of p i l r] Let_def D_loop_E_step)
  next
    case False
    with 1 have "unat (rounds p - 1) - 1 = i" by linarith
    with False show ?thesis
      by (simp add: E_loop.simps [of p i l r] Let_def D_loop_E_step)
  qed
qed

lemma bit_join:
  "permutor_ok p \<Longrightarrow> in_half p (l, r) \<Longrightarrow>
    bit (join p (l, r)) k \<longleftrightarrow> (half p \<le> k \<and> k < 32 \<and> bit l (k - half p)) \<or> bit r k"
  by (auto simp: join_def pmask_and in_half_def bit_simps)

lemma split_join:
  assumes "permutor_ok p" and "in_half p lr"
  shows "split_halves p (join p lr) = lr"
proof -
  obtain l r where lr: "lr = (l, r)" by fastforce
  have w: "half p \<le> 16" using assms(1) by (simp add: permutor_ok_def)
  have l: "bit l k \<Longrightarrow> k < half p" and r: "bit r k \<Longrightarrow> k < half p" for k
    using assms(2) by (auto simp: lr in_half_def) (metis bit_take_bit_iff)+
  have "take_bit (half p) (drop_bit (half p) (join p (l, r))) = l"
    by (rule bit_word_eqI)
      (use assms lr w l r in \<open>auto simp: bit_take_bit_iff bit_drop_bit_eq bit_join dest: l r\<close>)
  moreover have "take_bit (half p) (join p (l, r)) = r"
    by (rule bit_word_eqI)
      (use assms lr w l r in \<open>auto simp: bit_take_bit_iff bit_join dest: l r\<close>)
  ultimately show ?thesis
    using assms(1) by (simp add: lr split_halves_def pmask_and)
qed

lemma join_split:
  assumes "permutor_ok p"
  shows "join p (split_halves p n) = take_bit (2 * half p) n"
proof (rule bit_word_eqI)
  fix k assume "k < LENGTH(32)"
  moreover have "half p \<le> 16" using assms by (simp add: permutor_ok_def)
  ultimately show "bit (join p (split_halves p n)) k = bit (take_bit (2 * half p) n) k"
    using assms by (auto simp: split_halves_def join_def pmask_and bit_simps)
qed

lemma rounds_pred:
  assumes "1 < rounds p"
  shows "0 < unat (rounds p - 1)" and "unat (rounds p - 1 - 1) = unat (rounds p - 1) - 1"
proof -
  have nz: "rounds p - 1 \<noteq> 0"
    using assms by auto
  then show "0 < unat (rounds p - 1)" by (simp add: unat_gt_0)
  from nz show "unat (rounds p - 1 - 1) = unat (rounds p - 1) - 1"
    by (rule unat_minus_one)
qed

lemma D_E:
  assumes "permutor_ok p"
  shows "dns_k_permutor_D p (dns_k_permutor_E p n) = take_bit (2 * half p) n"
proof -
  have half: "in_half p (E_loop p 0 (split_halves p n))"
    using assms by (simp add: E_loop_in_half in_half_split)
  have R: "0 < unat (rounds p - 1)" "unat (rounds p - 1 - 1) = unat (rounds p - 1) - 1"
    using assms unfolding permutor_ok_def by (blast intro: rounds_pred)+
  have "dns_k_permutor_D p (dns_k_permutor_E p n)
      = join p (D_loop p (unat (rounds p - 1) - 1) (E_loop p 0 (split_halves p n)))"
    by (simp only: dns_k_permutor_D_def dns_k_permutor_E_def split_join [OF assms half] R(2))
  then show ?thesis
    by (simp add: D_loop_E_loop R(1) join_split assms del: One_nat_def)
qed

text \<open>C26: \<open>dns_k_permutor_D\<close> inverts \<open>dns_k_permutor_E\<close> on the block of the
  permutor: for every well-formed permutor and every number below \<open>2 ^ (2 * shift)\<close>,
  decrypting the encrypted number gives it back.\<close>

theorem permutor_D_E:
  assumes "permutor_ok p" and "unat n < 2 ^ (2 * half p)"
  shows "dns_k_permutor_D p (dns_k_permutor_E p n) = n"
proof -
  have "take_bit (2 * half p) n = n"
    using assms(2) by (simp add: word_unat_eq_iff unsigned_take_bit_eq take_bit_nat_eq_self)
  then show ?thesis by (simp add: D_E assms(1))
qed

theorem permutor_D_E_witness:
  "let p = \<lparr>stepi = 0, plength = 10, limit = 9, shift = 2, pmask = 3, rounds = 8,
            tea = dns_k_tea_init [1, 2, 3, 4] 0\<rparr>
   in permutor_ok p \<and> dns_k_permutor_D p (dns_k_permutor_E p 9) = 9"
  by (simp add: Let_def permutor_D_E permutor_ok_def push_bit_eq_mult)

lemma E_take_bit:
  assumes "permutor_ok p"
  shows "take_bit (2 * half p) (dns_k_permutor_E p n) = dns_k_permutor_E p n"
proof -
  have "in_half p (E_loop p 0 (split_halves p n))"
    using assms by (simp add: E_loop_in_half in_half_split)
  then show ?thesis
    unfolding dns_k_permutor_E_def using assms by (metis join_split split_join)
qed

lemma E_loop_stepi [simp]: "E_loop (p\<lparr>stepi := s\<rparr>) i lr = E_loop p i lr"
proof (induction p i lr rule: E_loop.induct)
  case (1 p i l r)
  then show ?case
    by (simp add: E_loop.simps [of _ i l r] dns_k_permutor_F_def Let_def)
qed

lemma E_stepi [simp]: "dns_k_permutor_E (p\<lparr>stepi := s\<rparr>) n = dns_k_permutor_E p n"
  by (simp add: dns_k_permutor_E_def join_def split_halves_def)

section \<open>A full cycle of the permutor\<close>

definition block :: "dns_k_permutor \<Rightarrow> nat" where
  "block p = 2 ^ (2 * half p)"

lemma block_stepi [simp]: "block (p\<lparr>stepi := s\<rparr>) = block p"
  by (simp add: block_def)

definition draw :: "dns_k_permutor \<Rightarrow> nat \<Rightarrow> u32" where
  "draw p k = dns_k_permutor_E p (word_of_nat k)"

lemma draw_stepi [simp]: "draw (p\<lparr>stepi := s\<rparr>) = draw p"
  by (simp add: draw_def fun_eq_iff)

lemma draw_less: "permutor_ok p \<Longrightarrow> unat (draw p k) < block p"
  unfolding block_def by (metis E_take_bit draw_def take_bit_nat_less_exp unsigned_take_bit_eq)

lemma draw_inj: "permutor_ok p \<Longrightarrow> inj_on (draw p) {..<block p}"
proof (rule inj_onI)
  fix a b assume ok: "permutor_ok p" and a: "a \<in> {..<block p}" and b: "b \<in> {..<block p}"
    and eq: "draw p a = draw p b"
  have "2 * half p \<le> 32"
    using ok by (simp add: permutor_ok_def)
  then have w: "block p \<le> 2 ^ 32"
    unfolding block_def by (rule power_increasing) simp
  have inv: "unat (dns_k_permutor_D p (draw p k)) = k" if k: "k < block p" for k
  proof -
    from k w have "k < 2 ^ 32" by (rule less_le_trans)
    then have "unat (word_of_nat k :: u32) = k" by (simp add: unat_of_nat)
    moreover have "take_bit (2 * half p) k = k"
      using k by (simp add: block_def take_bit_nat_eq_self)
    ultimately show ?thesis
      by (simp only: draw_def D_E [OF ok] unsigned_take_bit_eq)
  qed
  show "a = b"
    using inv a b eq by (metis lessThan_iff)
qed

lemma draw_image: "permutor_ok p \<Longrightarrow> (\<lambda>k. unat (draw p k)) ` {..<block p} = {..<block p}"
proof (rule card_subset_eq)
  assume ok: "permutor_ok p"
  show "(\<lambda>k. unat (draw p k)) ` {..<block p} \<subseteq> {..<block p}"
    using ok by (auto intro: draw_less)
  have "inj_on (\<lambda>k. unat (draw p k)) {..<block p}"
    using draw_inj [OF ok] by (simp add: inj_on_def word_unat_eq_iff)
  then show "card ((\<lambda>k. unat (draw p k)) ` {..<block p}) = card {..<block p}"
    by (rule card_image)
qed simp

definition hits :: "dns_k_permutor \<Rightarrow> nat \<Rightarrow> nat list" where
  "hits p s = filter (\<lambda>k. draw p k < plength p) [s..<block p]"

lemma hits_stepi [simp]: "hits (p\<lparr>stepi := s\<rparr>) = hits p"
  by (simp add: hits_def fun_eq_iff)

lemma hits_block [simp]: "hits p (block p) = []"
  by (simp add: hits_def)

lemma hits_step:
  "s < block p \<Longrightarrow> hits p s = (if draw p s < plength p then s # hits p (Suc s) else hits p (Suc s))"
  by (simp add: hits_def upt_conv_Cons)

text \<open>\<open>permutor_run n p\<close> is the list of the results of \<open>n\<close> calls of
  \<open>dns_k_permutor_step\<close>.\<close>

fun permutor_run :: "nat \<Rightarrow> dns_k_permutor \<Rightarrow> u32 list option" where
  "permutor_run 0 p = Some []"
| "permutor_run (Suc n) p = do {
     (v, p') \<leftarrow> dns_k_permutor_step p;
     vs \<leftarrow> permutor_run n p';
     Some (v # vs)
   }"

lemma step_hit:
  "stepi p = word_of_nat s \<Longrightarrow> draw p s < plength p \<Longrightarrow>
    dns_k_permutor_step p
      = Some (draw p s + (limit p + 1 - plength p), p\<lparr>stepi := word_of_nat (Suc s)\<rparr>)"
  by (simp add: dns_k_permutor_step_def step_loop.simps [of p] draw_def Let_def add.commute
      linorder_not_less [symmetric])

lemma step_miss:
  "stepi p = word_of_nat s \<Longrightarrow> \<not> draw p s < plength p \<Longrightarrow>
    dns_k_permutor_step p = dns_k_permutor_step (p\<lparr>stepi := word_of_nat (Suc s)\<rparr>)"
  by (simp add: dns_k_permutor_step_def step_loop.simps [of p] draw_def Let_def add.commute
      linorder_not_less)

lemma permutor_run_hits:
  assumes "stepi p = word_of_nat s" and "s \<le> N" and "N = block p"
  shows "permutor_run (length (hits p s)) p
    = Some (map (\<lambda>k. draw p k + (limit p + 1 - plength p)) (hits p s))"
  using assms(2,1,3)
proof (induction s arbitrary: p rule: inc_induct)
  case base
  then show ?case by simp
next
  case (step s)
  let ?p' = "p\<lparr>stepi := word_of_nat (Suc s)\<rparr>"
  have IH: "permutor_run (length (hits p (Suc s))) ?p'
      = Some (map (\<lambda>k. draw p k + (limit p + 1 - plength p)) (hits p (Suc s)))"
    using step.IH [of ?p'] step.prems(2) by simp
  show ?case
  proof (cases "draw p s < plength p")
    case True
    with IH show ?thesis
      using step_hit [OF step.prems(1) True] step.hyps step.prems(2) by (simp add: hits_step)
  next
    case False
    have "permutor_run n p = permutor_run n ?p'" for n
      using step_miss [OF step.prems(1) False] by (cases n) (simp_all del: of_nat_Suc)
    with False IH show ?thesis
      using step.hyps step.prems(2) by (simp add: hits_step)
  qed
qed

lemma hits_values:
  assumes ok: "permutor_ok p" and len: "unat (plength p) \<le> block p"
  shows "distinct (map (draw p) (hits p 0))" and "set (map (draw p) (hits p 0)) = {..<plength p}"
    and "length (hits p 0) = unat (plength p)"
proof -
  show dist: "distinct (map (draw p) (hits p 0))"
    using draw_inj [OF ok]
    by (auto simp: hits_def distinct_map intro: inj_on_subset)
  have "v \<in> draw p ` {..<block p}" if "v < plength p" for v
  proof -
    have "unat v < unat (plength p)" using that by (simp add: word_less_nat_alt)
    with len have "unat v \<in> (\<lambda>k. unat (draw p k)) ` {..<block p}"
      by (simp add: draw_image [OF ok])
    then show ?thesis by (auto simp: word_unat_eq_iff)
  qed
  then show vals: "set (map (draw p) (hits p 0)) = {..<plength p}"
    by (auto simp: hits_def atLeast0LessThan)
  have "length (hits p 0) = card (set (map (draw p) (hits p 0)))"
    using distinct_card [OF dist] by simp
  also have "\<dots> = card {..<plength p}"
    by (simp only: vals)
  also have "\<dots> = card (unat ` {..<plength p})"
    by (rule card_image [symmetric]) (simp add: inj_on_def word_unat_eq_iff)
  also have "unat ` {..<plength p} = {..<unat (plength p)}"
  proof (safe)
    fix x assume x: "x < unat (plength p)"
    then have "unat (word_of_nat x :: u32) = x"
      using unat_u32_less [of "plength p"] by (intro unat_of_nat_u32) linarith
    with x show "x \<in> unat ` {..<plength p}"
      by (metis image_eqI lessThan_iff word_less_nat_alt)
  qed (simp add: word_less_nat_alt)
  finally show "length (hits p 0) = unat (plength p)" by simp
qed

lemma powof_loop_Some:
  assumes "j \<le> 31" and "n \<le> 2 ^ 31"
  shows "\<exists>i\<ge>j. i \<le> 31 \<and> powof_loop n (2 ^ j) (word_of_nat j) = Some (word_of_nat i) \<and> n \<le> 2 ^ i"
  using assms(1)
proof (induction j rule: inc_induct)
  case base
  then show ?case
    using assms(2) by (subst powof_loop.simps) (auto simp: linorder_not_less)
next
  case (step j)
  then obtain i where i: "Suc j \<le> i" "i \<le> 31" "n \<le> 2 ^ i"
    "powof_loop n (2 ^ Suc j) (word_of_nat (Suc j)) = Some (word_of_nat i)"
    by blast
  show ?case
  proof (cases "(2 :: u32) ^ j < n")
    case True
    then have "powof_loop n (2 ^ j) (word_of_nat j) = Some (word_of_nat i)"
      using i(4) by (subst powof_loop.simps) (simp add: push_bit_eq_mult add.commute mult.commute)
    with i show ?thesis by (intro exI [of _ i]) simp
  next
    case False
    then have "powof_loop n (2 ^ j) (word_of_nat j) = Some (word_of_nat j)"
      by (subst powof_loop.simps) simp
    with False step.hyps show ?thesis by (intro exI [of _ j]) (simp add: linorder_not_less)
  qed
qed

lemma powof_covers:
  assumes "n \<le> 2 ^ 31"
  shows "\<exists>i. dns_k_permutor_powof n = Some i \<and> unat i \<le> 31 \<and> n \<le> 2 ^ unat i"
proof -
  obtain i where "i \<le> 31" "powof_loop n 1 0 = Some (word_of_nat i)" "n \<le> 2 ^ i"
    using powof_loop_Some [of 0 n] assms by auto
  moreover from \<open>i \<le> 31\<close> have "unat (word_of_nat i :: u32) = i"
    by (simp add: unat_of_nat)
  ultimately show ?thesis
    by (auto simp: dns_k_permutor_powof_def)
qed

lemma powof_loop_None:
  assumes "2 ^ 31 < n" and "m = 0 \<or> (\<exists>j\<le>31. m = 2 ^ j)"
  shows "powof_loop n m i = None"
proof (rule ccontr)
  assume "powof_loop n m i \<noteq> None"
  then obtain r where ret: "powof_loop n m i = Some r" by auto
  have "(m = 0 \<or> (\<exists>j\<le>31. m = 2 ^ j)) \<longrightarrow> n \<le> 2 ^ 31"
  proof (rule powof_loop.raw_induct [OF _ ret])
    fix f :: "u32 \<Rightarrow> u32 \<Rightarrow> u32 \<Rightarrow> u32 option" and n m i r :: u32
    assume IH: "\<And>n m i r. f n m i = Some r \<Longrightarrow> (m = 0 \<or> (\<exists>j\<le>31. m = 2 ^ j)) \<longrightarrow> n \<le> 2 ^ 31"
      and eq: "(if m < n then f n (push_bit 1 m) (i + 1) else Some i) = Some r"
    show "(m = 0 \<or> (\<exists>j\<le>31. m = 2 ^ j)) \<longrightarrow> n \<le> 2 ^ 31"
    proof (intro impI)
      assume m: "m = 0 \<or> (\<exists>j\<le>31. m = 2 ^ j)"
      show "n \<le> 2 ^ 31"
      proof (cases "m < n")
        case True
        have "push_bit 1 m = 0 \<or> (\<exists>j\<le>31. push_bit 1 m = 2 ^ j)"
        proof (cases "m = 0 \<or> m = 2 ^ 31")
          case False
          with m obtain j where "j < 31" "m = 2 ^ j"
            by (metis le_neq_implies_less)
          then show ?thesis
            by (intro disjI2 exI [of _ "Suc j"]) (simp add: push_bit_eq_mult mult.commute)
        qed (auto simp: push_bit_eq_mult)
        with IH [of n "push_bit 1 m" "i + 1" r] eq True show ?thesis by auto
      next
        case False
        then have "n \<le> m" by simp
        moreover have "m \<le> 2 ^ 31"
        proof -
          have "(2 :: nat) ^ j \<le> 2 ^ 31" if "j \<le> 31" for j
            using that by (rule power_increasing) simp
          with m show ?thesis
            by (auto simp: word_le_nat_alt unat_pow2_u32)
        qed
        ultimately show ?thesis by (rule order_trans)
      qed
    qed
  qed
  with assms show False by (simp add: linorder_not_less [symmetric])
qed

text \<open>C38: the loop of \<open>dns_k_permutor_powof\<close> ends exactly for the arguments up to
  \<open>2 ^ 31\<close>; above that the doubled \<open>m\<close> wraps to 0 and the loop never ends.\<close>

theorem powof_returns_iff: "(\<exists>i. dns_k_permutor_powof n = Some i) \<longleftrightarrow> n \<le> 2 ^ 31"
proof
  assume "\<exists>i. dns_k_permutor_powof n = Some i"
  then show "n \<le> 2 ^ 31"
    using powof_loop_None [of n 1 0] unfolding dns_k_permutor_powof_def
    by (metis linorder_not_le option.distinct(1) power_0 zero_le)
next
  assume "n \<le> 2 ^ 31"
  then show "\<exists>i. dns_k_permutor_powof n = Some i"
    using powof_covers by blast
qed

lemma image_add_range:
  fixes low high :: u32
  assumes "low \<le> high" and "high - low < 2 ^ 31"
  shows "(\<lambda>v. v + low) ` {..<high - low + 1} = {low..high}"
proof -
  have "high - low \<noteq> - 1"
    using assms(2) by (metis word_not_simps(3))
  then have "high - low + 1 \<noteq> 0"
    by (simp only: eq_neg_iff_add_eq_0 not_False_eq_True)
  then have len: "unat (high - low + 1) = unat high - unat low + 1"
    using assms(1) unatSuc [of "high - low"]
    by (simp add: unat_sub word_le_nat_alt add.commute [of _ 1])
  show ?thesis
  proof (intro equalityI subsetI)
    fix x assume "x \<in> (\<lambda>v. v + low) ` {..<high - low + 1}"
    then obtain v where x: "x = v + low" and v: "v < high - low + 1" by auto
    then have "unat v + unat low \<le> unat high"
      using len assms by (simp add: word_less_nat_alt word_le_nat_alt)
    moreover from this have "unat v + unat low < 4294967296"
      using unat_u32_less [of high] by linarith
    then have "unat x = unat v + unat low"
      by (simp add: x unat_word_ariths)
    ultimately show "x \<in> {low..high}" by (simp add: word_le_nat_alt)
  next
    fix x assume x: "x \<in> {low..high}"
    then have "unat (x - low) = unat x - unat low"
      by (simp add: unat_sub word_le_nat_alt)
    then have "x - low < high - low + 1"
      using x len by (simp add: word_less_nat_alt word_le_nat_alt diff_le_mono le_imp_less_Suc)
    then show "x \<in> (\<lambda>v. v + low) ` {..<high - low + 1}"
      by (intro image_eqI [of _ _ "x - low"]) simp_all
  qed
qed

lemma permutor_init_ok:
  assumes "high - low < 2 ^ 31"
  shows "\<exists>p. dns_k_permutor_init rnd low high = Some p \<and> permutor_ok p
    \<and> plength p = high - low + 1 \<and> unat (plength p) \<le> block p \<and> limit p = high \<and> stepi p = 0"
proof -
  have "high - low + 1 \<le> 2 ^ 31"
    using assms by (rule inc_le)
  then obtain i where i: "dns_k_permutor_powof (high - low + 1) = Some i" "unat i \<le> 31"
    "high - low + 1 \<le> 2 ^ unat i"
    using powof_covers by blast
  let ?w = "i + i mod 2"
  have w: "unat ?w = unat i + unat i mod 2"
    using i(2) by (subst unat_plus_simple [THEN iffD1]) (auto simp: unat_mod no_olen_add_nat)
  have sh: "unat (?w div 2) = (unat i + unat i mod 2) div 2"
    using w by (simp add: unat_div)
  have even: "2 * ((unat i + unat i mod 2) div 2) = unat i + unat i mod 2"
    by presburger
  have "unat (high - low + 1) \<le> unat ((2 :: u32) ^ unat i)"
    using i(3) by (simp add: word_le_nat_alt)
  also have "unat ((2 :: u32) ^ unat i) = 2 ^ unat i"
    using i(2) by (simp add: unat_pow2_u32)
  also have "\<dots> \<le> 2 ^ (unat i + unat i mod 2)"
    by (simp add: power_increasing)
  finally have "unat (high - low + 1) \<le> 2 ^ (unat i + unat i mod 2)" .
  moreover have "(unat i + unat i mod 2) div 2 \<le> 16"
    using i(2) by linarith
  ultimately show ?thesis
    using i(1) sh even
    by (auto simp: dns_k_permutor_init_def permutor_ok_def block_def Let_def)
qed

text \<open>C7: drawing query identifiers. For any key, a permutor over \<open>low..high\<close> (less than
  \<open>2 ^ 31\<close> numbers) is initialised, every call of \<open>dns_k_permutor_step\<close> returns, and
  the first \<open>high - low + 1\<close> calls return every number of the range exactly once.\<close>

theorem permutor_cycle:
  assumes "low \<le> high" and "high - low < 2 ^ 31"
  shows "\<exists>p xs. dns_k_permutor_init rnd low high = Some p
    \<and> permutor_run (unat (high - low + 1)) p = Some xs \<and> distinct xs \<and> set xs = {low..high}"
proof -
  obtain p where p: "dns_k_permutor_init rnd low high = Some p" "permutor_ok p"
    "plength p = high - low + 1" "unat (plength p) \<le> block p" "limit p = high" "stepi p = 0"
    using permutor_init_ok [OF assms(2)] by blast
  note hv = hits_values [OF p(2,4)]
  let ?xs = "map (\<lambda>v. v + low) (map (draw p) (hits p 0))"
  have off: "limit p + 1 - plength p = low"
    using p by simp
  have "permutor_run (length (hits p 0)) p = Some ?xs"
    using permutor_run_hits [of p 0 "block p"] p(6) by (simp add: off comp_def)
  then have "permutor_run (unat (high - low + 1)) p = Some ?xs"
    using hv(3) p(3) by simp
  moreover have "distinct ?xs"
    by (rule distinct_map [THEN iffD2]) (use hv(1) in \<open>simp add: inj_on_def\<close>)
  moreover have "set ?xs = {low..high}"
  proof -
    have "set ?xs = (\<lambda>v. v + low) ` {..<high - low + 1}"
      by (simp only: set_map [of "\<lambda>v. v + low"] hv(2) p(3))
    also have "\<dots> = {low..high}"
      by (rule image_add_range [OF assms])
    finally show ?thesis .
  qed
  ultimately show ?thesis using p(1) by blast
qed

theorem permutor_cycle_witness:
  "\<exists>p xs. dns_k_permutor_init [7, 11, 13, 17] 1 65535 = Some p
    \<and> permutor_run 65535 p = Some xs \<and> distinct xs \<and> set xs = {1..65535}"
  using permutor_cycle [of 1 65535 "[7, 11, 13, 17]"] by simp

end
