(* ===== verification/Dns_Packet.thy ===== *)
theory Dns_Packet
  imports Prelude
begin

unbundle bit_operations_syntax

text \<open>
  The packet structure of \<^verbatim>\<open>src/src/c/dns/libdns/dns.h\<close> and the routines of
  \<^verbatim>\<open>src/src/c/dns/libdns/dns.c\<close> that create, count, copy and grow packets, together
  with the two label routines \<open>dns_l_expand\<close> and \<open>dns_l_skip\<close> and the compression
  dictionary. The header is the first twelve bytes of \<open>data\<close>, as in the union of the
  source, and the field \<open>size\<close> is the length of \<open>data\<close>. \<open>unsigned short\<close> values are
  natural numbers reduced by \<open>u16\<close> wherever the source stores one.
\<close>

section \<open>Constants and the packet structure\<close>

abbreviation (input) DNS_S_QD :: nat where "DNS_S_QD \<equiv> 1"
abbreviation (input) DNS_S_AN :: nat where "DNS_S_AN \<equiv> 2"
abbreviation (input) DNS_S_NS :: nat where "DNS_S_NS \<equiv> 4"
abbreviation (input) DNS_S_AR :: nat where "DNS_S_AR \<equiv> 8"
abbreviation (input) DNS_S_ALL :: nat where "DNS_S_ALL \<equiv> 15"

text \<open>Library errors, and the system errors that the routines return through the same
  \<open>int\<close>.\<close>

datatype dns_error =
  DNS_ENOBUFS | DNS_EILLEGAL | DNS_EORDER | DNS_ESECTION | DNS_EUNKNOWN | DNS_EADDRESS | SYS nat

record dns_s_memo =
  base :: nat
  mend :: nat

record dns_packet =
  dict :: "nat list"
  qd :: dns_s_memo
  an :: dns_s_memo
  ns :: dns_s_memo
  ar :: dns_s_memo
  pend :: nat
  data :: bytes

definition psize :: "dns_packet \<Rightarrow> nat" where
  "psize P = length (data P)"

text \<open>\<open>packet_ok\<close> is the well-formedness every routine of the library relies on. Offsets
  into a packet are kept in \<open>unsigned short\<close> variables, so a packet holds at most 65535
  bytes.\<close>

definition packet_ok :: "dns_packet \<Rightarrow> bool" where
  "packet_ok P \<longleftrightarrow> length (dict P) = 16 \<and> 12 \<le> pend P \<and> pend P \<le> psize P \<and> psize P \<le> 65535"

section \<open>Counting, creating, growing and copying\<close>

text \<open>The 16-bit counters of the header; \<open>k\<close> is 4, 6, 8 or 10.\<close>

definition hdr16 :: "dns_packet \<Rightarrow> nat \<Rightarrow> nat" where
  "hdr16 P k = be16 (data P ! k) (data P ! (k + 1))"

definition set_hdr16 :: "nat \<Rightarrow> nat \<Rightarrow> dns_packet \<Rightarrow> dns_packet" where
  "set_hdr16 k n P = P\<lparr>data := (data P)[k := byte (n div 256), k + 1 := byte n]\<rparr>"

definition dns_p_count :: "dns_packet \<Rightarrow> nat \<Rightarrow> nat" where
  "dns_p_count P section =
     (if section = DNS_S_QD then hdr16 P 4
      else if section = DNS_S_AN then hdr16 P 6
      else if section = DNS_S_NS then hdr16 P 8
      else if section = DNS_S_AR then hdr16 P 10
      else (if section AND DNS_S_QD \<noteq> 0 then hdr16 P 4 else 0)
         + (if section AND DNS_S_AN \<noteq> 0 then hdr16 P 6 else 0)
         + (if section AND DNS_S_NS \<noteq> 0 then hdr16 P 8 else 0)
         + (if section AND DNS_S_AR \<noteq> 0 then hdr16 P 10 else 0))"

definition no_memo :: dns_s_memo where
  "no_memo = \<lparr>base = 0, mend = 0\<rparr>"

text \<open>\<open>dns_p_init\<close> on the memory \<open>mem\<close> that follows the fixed fields: its first twelve
  bytes are cleared and the rest keeps what the allocation holds. The assertion of the source
  asks for at least those twelve bytes.\<close>

definition dns_p_init :: "bytes \<Rightarrow> dns_packet option" where
  "dns_p_init mem =
     (if 12 \<le> length mem
      then Some \<lparr>dict = replicate 16 0, qd = no_memo, an = no_memo, ns = no_memo, ar = no_memo,
                 pend = 12, data = replicate 12 0 @ drop 12 mem\<rparr>
      else None)"

text \<open>\<open>malloc\<close> gives the memory for a payload of the requested size, or fails with the
  value of \<open>errno\<close>. A failed assertion of \<open>dns_p_init\<close> is \<open>None\<close>.\<close>

definition dns_p_make :: "(nat \<Rightarrow> nat + bytes) \<Rightarrow> nat \<Rightarrow> (dns_error + dns_packet) option" where
  "dns_p_make malloc len =
     (case malloc (max 12 len) of
        Inl errno \<Rightarrow> Some (Inl (SYS errno))
      | Inr mem \<Rightarrow> map_option Inr (dns_p_init mem))"

definition smear :: "nat \<Rightarrow> nat" where
  "smear n =
     (let n = n OR drop_bit 1 n;
          n = n OR drop_bit 2 n;
          n = n OR drop_bit 4 n;
          n = n OR drop_bit 8 n
      in n + 1)"

text \<open>\<open>hdrlen\<close> is the offset of \<open>data\<close> in the structure, which depends on the platform;
  \<open>realloc\<close> takes the old payload and the new payload size.\<close>

definition dns_p_grow :: "nat \<Rightarrow> (nat \<Rightarrow> nat + bytes) \<Rightarrow> (bytes \<Rightarrow> nat \<Rightarrow> nat + bytes)
    \<Rightarrow> dns_packet option \<Rightarrow> (dns_error + dns_packet) option" where
  "dns_p_grow hdrlen malloc realloc P =
     (case P of
        None \<Rightarrow> dns_p_make malloc (hdrlen + max 12 (256 + 4))
      | Some P \<Rightarrow>
          (let n = smear (hdrlen + max 12 (pend P))
           in if 65536 < n then Some (Inl DNS_ENOBUFS)
              else case realloc (data P) (max 12 n) of
                     Inl errno \<Rightarrow> Some (Inl (SYS errno))
                   | Inr mem \<Rightarrow> Some (Inr (P\<lparr>data := take n mem\<rparr>))))"

definition dns_p_copy :: "dns_packet \<Rightarrow> dns_packet \<Rightarrow> dns_packet" where
  "dns_p_copy P P0 =
     (let e = min (psize P) (pend P0)
      in P\<lparr>pend := e, data := blit (data P) 0 (take e (data P0))\<rparr>)"

section \<open>Labels\<close>

definition label_type :: "u8 \<Rightarrow> nat" where
  "label_type b = unat (0x03 AND drop_bit 6 b)"

definition label_len :: "u8 \<Rightarrow> nat" where
  "label_len b = unat (0x3f AND b)"

definition label_ptr :: "u8 \<Rightarrow> u8 \<Rightarrow> nat" where
  "label_ptr b0 b1 = (push_bit 8 (unat (0x3f AND b0))) OR unat (0xff AND b1)"

abbreviation (input) DNS_D_MAXPTRS :: nat where "DNS_D_MAXPTRS \<equiv> 127"
abbreviation (input) DNS_D_MAXNAME :: nat where "DNS_D_MAXNAME \<equiv> 255"
abbreviation (input) DNS_D_MAXLABEL :: nat where "DNS_D_MAXLABEL \<equiv> 63"

text \<open>\<open>l_expand\<close> is \<open>dns_l_expand\<close> from its label \<open>retry\<close> on. The result is the length,
  the destination buffer and \<open>*nxt\<close>.\<close>

function l_expand :: "nat \<Rightarrow> bytes \<Rightarrow> nat \<Rightarrow> bytes \<Rightarrow> nat \<Rightarrow> (nat \<times> bytes \<times> nat) option" where
  "l_expand nptrs dst src buf e =
     (if e \<le> src then Some (0, dst, u16 e)
      else do {
        b \<leftarrow> rd buf src;
        if label_type b = 0 then do {
          let len = label_len b;
          let src = u16 (src + 1);
          if e - src < len then Some (0, dst, u16 e)
          else do {
            s \<leftarrow> rdn buf src (min (length dst) len);
            Some (len, nul (blit dst 0 s) len, u16 (src + len))
          }
        }
        else if label_type b = 3 then
          if DNS_D_MAXPTRS < nptrs + 1 then Some (0, dst, u16 e)
          else if e - src < 2 then Some (0, dst, u16 e)
          else do {
            b1 \<leftarrow> rd buf (src + 1);
            l_expand (nptrs + 1) dst (label_ptr b b1) buf e
          }
        else Some (0, dst, u16 e)
      })"
  by pat_completeness auto
termination
  by (relation "measure (\<lambda>(nptrs, _). Suc DNS_D_MAXPTRS - nptrs)") auto

declare l_expand.simps [simp del]

definition dns_l_expand :: "bytes \<Rightarrow> nat \<Rightarrow> bytes \<Rightarrow> nat \<Rightarrow> (nat \<times> bytes \<times> nat) option" where
  "dns_l_expand dst src buf e = l_expand 0 dst src buf e"

definition dns_l_skip :: "nat \<Rightarrow> bytes \<Rightarrow> nat \<Rightarrow> nat option" where
  "dns_l_skip src buf e =
     (if e \<le> src then Some (u16 e)
      else do {
        b \<leftarrow> rd buf src;
        if label_type b = 0 then
          (let len = label_len b; src = u16 (src + 1)
           in if e - src < len then Some (u16 e)
              else Some (if len \<noteq> 0 then u16 (src + len) else u16 e))
        else Some (u16 e)
      })"

section \<open>The compression dictionary\<close>

text \<open>The search of \<open>dns_p_dictadd\<close> for an entry equal to \<open>lptr\<close>, up to the first empty
  slot, and for the first empty slot.\<close>

fun dict_find :: "nat list \<Rightarrow> nat \<Rightarrow> nat \<Rightarrow> nat option" where
  "dict_find [] lptr i = None"
| "dict_find (x # xs) lptr i =
     (if x = 0 then None else if x = lptr then Some i else dict_find xs lptr (i + 1))"

fun dict_free :: "nat list \<Rightarrow> nat \<Rightarrow> nat option" where
  "dict_free [] i = None"
| "dict_free (x # xs) i = (if x = 0 then Some i else dict_free xs (i + 1))"

definition dict_set :: "dns_packet \<Rightarrow> nat option \<Rightarrow> nat \<Rightarrow> dns_packet" where
  "dict_set P i dn = (case i of None \<Rightarrow> P | Some i \<Rightarrow> P\<lparr>dict := (dict P)[i := dn]\<rparr>)"

partial_function (option) dictadd_loop :: "dns_packet \<Rightarrow> nat \<Rightarrow> nat \<Rightarrow> dns_packet option" where
  "dictadd_loop P dn lp =
     (if pend P \<le> lp then Some (dict_set P (dict_free (dict P) 0) dn)
      else do {
        b \<leftarrow> rd (data P) lp;
        hit \<leftarrow> (if label_type b = 3 \<and> 2 \<le> pend P - lp \<and> lp \<noteq> dn
                then do {
                  b1 \<leftarrow> rd (data P) (lp + 1);
                  Some (dict_find (dict P) (label_ptr b b1) 0)
                }
                else Some None);
        if hit \<noteq> None then Some (dict_set P hit dn)
        else do {
          lp \<leftarrow> dns_l_skip lp (data P) (pend P);
          dictadd_loop P dn lp
        }
      })"

definition dns_p_dictadd :: "dns_packet \<Rightarrow> nat \<Rightarrow> dns_packet option" where
  "dns_p_dictadd P dn = dictadd_loop P (u16 dn) (u16 dn)"

section \<open>Arithmetic of labels\<close>

lemma unat_and_mask: "unat (mask n AND (b::u8)) = unat b mod 2 ^ n"
  by (metis and.commute take_bit_eq_mask take_bit_eq_mod unsigned_take_bit_eq)

lemma masks [simp]: "(mask 2 :: u8) = 3" "(mask 6 :: u8) = 63" "(mask 8 :: u8) = 255"
  by (simp_all add: mask_eq_exp_minus_1)

lemma label_type_eq: "label_type b = unat b div 64"
proof -
  have "unat b div 64 < 4"
    using unat_u8_less [of b] by linarith
  moreover have "label_type b = unat (drop_bit 6 b) mod 2 ^ 2"
    unfolding label_type_def using unat_and_mask [of 2 "drop_bit 6 b"] by (simp only: masks)
  moreover have "unat (drop_bit 6 b) = unat b div 64"
    by (simp only: unsigned_drop_bit_eq) (simp add: drop_bit_eq_div take_bit_nat_eq_self)
  ultimately show ?thesis by simp
qed

lemma label_len_eq: "label_len b = unat b mod 64"
  using unat_and_mask [of 6 b] by (simp add: label_len_def)

lemma label_len_le [simp]: "label_len b \<le> 63"
  using mod_less_divisor [of 64 "unat b"] by (simp add: label_len_eq)

lemma label_ptr_eq: "label_ptr b0 b1 = (unat b0 mod 64) * 256 + unat b1"
proof -
  have "label_ptr b0 b1 = push_bit 8 (unat b0 mod 64) OR unat b1"
    using unat_and_mask [of 6 b0] unat_and_mask [of 8 b1] by (simp add: label_ptr_def)
  then show ?thesis
    using push_bit_or_add [of "unat b1" 8 "unat b0 mod 64"] unat_u8_less [of b1] by simp
qed

lemma label_ptr_less: "label_ptr b0 b1 < 16384"
  using mod_less_divisor [of 64 "unat b0"] unat_u8_less [of b1]
  unfolding label_ptr_eq by linarith

section \<open>Label routines stay in bounds\<close>

lemma l_expand_bounds:
  "e \<le> length buf \<Longrightarrow> e \<le> 65535 \<Longrightarrow>
    \<exists>len dst' nxt. l_expand nptrs dst src buf e = Some (len, dst', nxt)
      \<and> length dst' = length dst \<and> len \<le> 63 \<and> nxt \<le> e"
proof (induction nptrs dst src buf e rule: l_expand.induct)
  case (1 nptrs dst src buf e)
  show ?case
  proof (cases "e \<le> src")
    case True
    then show ?thesis using 1(3) by (simp add: l_expand.simps)
  next
    case False
    then have in_buf: "src < length buf" using 1(2) by simp
    consider (label) "label_type (buf ! src) = 0" | (ptr) "label_type (buf ! src) = 3"
      | (other) "label_type (buf ! src) \<noteq> 0" "label_type (buf ! src) \<noteq> 3" by blast
    then show ?thesis
    proof cases
      case label
      then show ?thesis
        using False 1(2,3) in_buf label_len_le [of "buf ! src"]
        by (auto simp: l_expand.simps [of nptrs] rd_in rdn_in Let_def)
    next
      case ptr
      then show ?thesis
        using False in_buf 1 by (auto simp: l_expand.simps [of nptrs] rd_in)
    next
      case other
      then show ?thesis
        using False 1(2,3) in_buf by (simp add: l_expand.simps [of nptrs] rd_in)
    qed
  qed
qed

lemma dns_l_skip_bounds:
  assumes "e \<le> length buf" and "e \<le> 65535"
  shows "\<exists>n. dns_l_skip src buf e = Some n \<and> n \<le> e \<and> (src < e \<longrightarrow> src < n)"
  using assms label_len_le [of "buf ! src"]
  by (cases "src < e") (auto simp: dns_l_skip_def rd_in Let_def)

section \<open>The dictionary\<close>

lemma dict_set_eq: "dict_set P i dn = P\<lparr>dict := dict (dict_set P i dn)\<rparr>"
  by (simp add: dict_set_def split: option.split)

lemma length_dict_set [simp]: "length (dict (dict_set P i dn)) = length (dict P)"
  by (simp add: dict_set_def split: option.split)

lemma dict_find_Some: "dict_find xs l i = Some j \<Longrightarrow> i \<le> j \<and> j < i + length xs \<and> xs ! (j - i) = l"
  by (induction xs l i rule: dict_find.induct) (auto split: if_splits simp: nth_Cons')

lemma dict_free_Some: "dict_free xs i = Some j \<Longrightarrow> i \<le> j \<and> j < i + length xs \<and> xs ! (j - i) = 0"
  by (induction xs i rule: dict_free.induct) (auto split: if_splits simp: nth_Cons')

lemma dictadd_loop_total:
  assumes "pend P \<le> length (data P)" and "pend P \<le> 65535"
  shows "\<exists>i. dictadd_loop P dn lp = Some (dict_set P i dn)"
proof (induction "pend P - lp" arbitrary: lp rule: less_induct)
  case less
  show ?case
  proof (cases "pend P \<le> lp")
    case True
    then show ?thesis by (auto simp: dictadd_loop.simps)
  next
    case False
    then obtain n where n: "dns_l_skip lp (data P) (pend P) = Some n" "lp < n"
      using dns_l_skip_bounds [OF assms, of lp] False by auto
    moreover from n(2) False have "pend P - n < pend P - lp" by linarith
    ultimately obtain i where "dictadd_loop P dn n = Some (dict_set P i dn)"
      using less [of n] by blast
    then show ?thesis
      using False assms n by (subst dictadd_loop.simps) (auto simp: rd_in)
  qed
qed

lemma dns_p_dictadd_total:
  assumes "pend P \<le> length (data P)" and "pend P \<le> 65535"
  shows "\<exists>i. dns_p_dictadd P dn = Some (dict_set P i (u16 dn))"
  unfolding dns_p_dictadd_def by (rule dictadd_loop_total [OF assms])

section \<open>Growing and copying\<close>

lemma le_or_nat: "(m::nat) \<le> m OR n"
  using or_greater_eq [of "int n" "int m"] by (simp flip: of_nat_or_eq)

lemma or_less_exp: "m < 2 ^ k \<Longrightarrow> n < 2 ^ k \<Longrightarrow> m OR n < 2 ^ k" for m n :: nat
  by (simp add: take_bit_or flip: take_bit_nat_eq_self_iff)

lemma smear_bounds:
  shows "n < smear n" and "n < 65536 \<Longrightarrow> smear n \<le> 65536" and "65536 \<le> n \<Longrightarrow> 65536 < smear n"
proof -
  show gt: "n < smear n"
    unfolding smear_def Let_def less_eq_Suc_le Suc_eq_plus1 by (intro add_mono order_refl order_trans [OF _ le_or_nat])
  then show "65536 \<le> n \<Longrightarrow> 65536 < smear n" by linarith
  have step: "m < 65536 \<Longrightarrow> m OR drop_bit k m < 65536" for m k :: nat
  proof -
    assume m: "m < 65536"
    have "drop_bit k m \<le> m" by (simp add: drop_bit_eq_div)
    with m show ?thesis using or_less_exp [of m 16 "drop_bit k m"] by simp
  qed
  show "n < 65536 \<Longrightarrow> smear n \<le> 65536"
    unfolding smear_def Let_def Suc_eq_plus1 [symmetric] Suc_le_eq by (intro step)
qed

text \<open>a successful \<open>dns_p_grow\<close>, with a \<open>realloc\<close> that returns a block of the size asked
  for and keeps the old bytes, makes room past the end of the packet and keeps the packet: the
  bytes up to \<open>end\<close>, the counters, the dictionary and the section offsets are the same. It
  fails for lack of room exactly when the structure with its data exceeds 65535 bytes.\<close>

theorem dns_p_grow_spec:
  assumes "\<And>mem n. \<exists>mem'. realloc mem n = Inr mem' \<and> length mem' = n
      \<and> take (min n (length mem)) mem' = take (min n (length mem)) mem"
    and "12 \<le> pend P" and "pend P \<le> psize P"
  shows "if hdrlen + pend P < 65536
    then \<exists>P'. dns_p_grow hdrlen malloc realloc (Some P) = Some (Inr P')
      \<and> pend P' = pend P \<and> hdrlen + pend P' < psize P' \<and> take (pend P) (data P') = take (pend P) (data P)
      \<and> dict P' = dict P \<and> qd P' = qd P \<and> an P' = an P \<and> ns P' = ns P \<and> ar P' = ar P
    else dns_p_grow hdrlen malloc realloc (Some P) = Some (Inl DNS_ENOBUFS)"
proof (cases "hdrlen + pend P < 65536")
  case False
  then show ?thesis
    using smear_bounds(3) [of "hdrlen + pend P"] assms(2) by (simp add: dns_p_grow_def Let_def max_def)
next
  case True
  define n where "n = smear (hdrlen + pend P)"
  have n: "hdrlen + pend P < n" "n \<le> 65536" "max 12 n = n"
    using smear_bounds(1,2) [of "hdrlen + pend P"] True assms(2) by (auto simp: n_def)
  obtain mem where mem: "realloc (data P) n = Inr mem" "length mem = n"
    "take (min n (length (data P))) mem = take (min n (length (data P))) (data P)"
    using assms(1) by blast
  have "take (pend P) mem = take (pend P) (data P)"
    using arg_cong [OF mem(3), of "take (pend P)"] n(1) assms(3) by (simp add: min_def psize_def split: if_splits)
  moreover have "dns_p_grow hdrlen malloc realloc (Some P) = Some (Inr (P\<lparr>data := mem\<rparr>))"
    using n mem assms(2) by (simp add: dns_p_grow_def n_def max_def)
  ultimately show ?thesis using True n mem by (simp add: psize_def)
qed

theorem dns_p_grow_spec_witness:
  "let P = \<lparr>dict = replicate 16 0, qd = no_memo, an = no_memo, ns = no_memo, ar = no_memo,
            pend = 12, data = replicate 12 0\<rparr>;
       realloc = (\<lambda>mem n. Inr (take n (mem @ replicate n 0)))
   in \<exists>P'. dns_p_grow 88 Inl realloc (Some P) = Some (Inr P') \<and> 100 < psize P'"
proof -
  define P where "P = \<lparr>dict = replicate 16 0, qd = no_memo, an = no_memo, ns = no_memo, ar = no_memo,
    pend = 12, data = replicate 12 (0::u8)\<rparr>"
  have "12 \<le> pend P" and "pend P \<le> psize P" by (simp_all add: P_def psize_def)
  moreover have "min (length mem) n + (n - length mem) = n" for mem :: bytes and n by simp
  ultimately show ?thesis
    using dns_p_grow_spec [of "\<lambda>mem n. Inr (take n (mem @ replicate n 0))" P 88 Inl]
    by (fastforce simp: P_def)
qed

text \<open>\<open>dns_p_copy\<close> copies as much of the source packet as fits: the destination keeps its
  size, its end is the smaller of the two, and its bytes up to there are those of the source.\<close>

theorem dns_p_copy_spec:
  assumes "pend P0 \<le> psize P0"
  shows "psize (dns_p_copy P P0) = psize P \<and> pend (dns_p_copy P P0) = min (psize P) (pend P0)
    \<and> take (pend (dns_p_copy P P0)) (data (dns_p_copy P P0)) = take (pend (dns_p_copy P P0)) (data P0)"
  using assms
  by (auto simp: dns_p_copy_def Let_def psize_def blit_def)

theorem dns_p_copy_spec_witness:
  "let P0 = \<lparr>dict = replicate 16 0, qd = no_memo, an = no_memo, ns = no_memo, ar = no_memo,
             pend = 14, data = replicate 20 7\<rparr>;
       P = \<lparr>dict = replicate 16 0, qd = no_memo, an = no_memo, ns = no_memo, ar = no_memo,
             pend = 12, data = replicate 13 0\<rparr>
   in pend P0 \<le> psize P0 \<and> pend (dns_p_copy P P0) = 13"
proof -
  define P0 where "P0 = \<lparr>dict = replicate 16 0, qd = no_memo, an = no_memo, ns = no_memo, ar = no_memo,
    pend = 14, data = replicate 20 (7::u8)\<rparr>"
  have "pend P0 \<le> psize P0" by (simp add: P0_def psize_def)
  then show ?thesis
    using dns_p_copy_spec [of P0] by (simp add: P0_def psize_def)
qed

end
