(* ===== verification/Dns_Name.thy ===== *)
theory Dns_Name
  imports Dns_Packet
begin

unbundle bit_operations_syntax

text \<open>
  The domain name routines of \<^verbatim>\<open>src/src/c/dns/libdns/dns.c\<close>: the text helpers
  \<open>dns_d_trim\<close>, \<open>dns_d_anchor\<close>, \<open>dns_d_cleave\<close> and \<open>dns_d_init\<close>, the encoder
  \<open>dns_d_comp\<close> with its search for a suffix to point to, the decoder \<open>dns_d_expand\<close>,
  \<open>dns_d_skip\<close> and \<open>dns_d_push\<close>. The loops that follow packet data are written with
  \<open>loop\<close>, one definition per loop body, since the data decides whether they end.

  The abstract view of an encoded name is \<open>name_at\<close>, the list of labels found from an
  offset, and \<open>name_text\<close>, the dotted text of a list of labels.
\<close>

section \<open>Text helpers\<close>

function skip_dots :: "bytes \<Rightarrow> nat \<Rightarrow> nat \<Rightarrow> nat" where
  "skip_dots src len sp =
     (if sp < len \<and> rd src sp = Some 46 then skip_dots src len (sp + 1) else sp)"
  by pat_completeness auto
termination
  by (relation "measure (\<lambda>(_, len, sp). len - sp)") auto

declare skip_dots.simps [simp del]

text \<open>The body of the \<open>for\<close> loop of \<open>dns_d_trim\<close>, with its update of \<open>lc\<close>; \<open>src\<close> is the
  memory at \<open>src\<close>, of which \<open>len\<close> bytes are the name.\<close>

definition trim_body :: "bytes \<Rightarrow> nat \<Rightarrow> bytes \<times> nat \<times> nat \<times> u8
    \<Rightarrow> ((bytes \<times> nat \<times> nat \<times> u8) + (bytes \<times> nat \<times> u8)) option" where
  "trim_body src len = (\<lambda>(dst, dp, sp, lc).
     if sp < len then do {
       c \<leftarrow> rd src sp;
       let dst = put dst dp c;
       let sp = skip_dots src len (sp + 1);
       lc \<leftarrow> rd src sp;
       Some (Inl (dst, dp + 1, sp, lc))
     }
     else Some (Inr (dst, dp, lc)))"

definition dns_d_trim :: "bytes \<Rightarrow> bytes \<Rightarrow> nat \<Rightarrow> nat \<Rightarrow> (nat \<times> bytes) option" where
  "dns_d_trim dst src len flags = do {
     (dst, dp, lc) \<leftarrow> loop (trim_body src len) (dst, 0, skip_dots src len 0, 0);
     let (dst, dp) = (if flags AND 1 \<noteq> 0 \<and> lc \<noteq> 46 then (put dst dp 46, dp + 1) else (dst, dp));
     Some (dp, nul dst dp)
   }"

definition dns_d_anchor :: "bytes \<Rightarrow> bytes \<Rightarrow> nat \<times> bytes" where
  "dns_d_anchor dst src =
     (if length src = 0 then (0, dst)
      else let dst = blit dst 0 src;
               len = length src;
               (dst, len) = (if src ! (len - 1) \<noteq> 46 then (put dst len 46, len + 1) else (dst, len))
           in (len, nul dst len))"

definition dns_d_cleave :: "bytes \<Rightarrow> bytes \<Rightarrow> nat \<times> bytes" where
  "dns_d_cleave dst src =
     (let dot = dropWhile (\<lambda>c. c \<noteq> 46) (drop 1 src)
      in if length src = 0 \<or> dot = [] then (0, dst)
         else let s = (if 1 < length dot then drop 1 dot else dot)
              in (length s, nul (blit dst 0 s) (length s)))"

definition dns_d_init :: "bytes \<Rightarrow> bytes \<Rightarrow> nat \<Rightarrow> nat \<Rightarrow> bytes option" where
  "dns_d_init dst src len flags = do {
     dst \<leftarrow> (if flags AND 4 \<noteq> 0 then map_option snd (dns_d_trim dst src len flags) else Some dst);
     Some (if flags AND 1 \<noteq> 0 then snd (dns_d_anchor dst (take len src))
           else nul (blit dst 0 (take len src)) len)
   }"

section \<open>Skipping a name\<close>

definition d_skip_body :: "dns_packet \<Rightarrow> nat \<Rightarrow> (nat + nat) option" where
  "d_skip_body P src =
     (if src < pend P then do {
        b \<leftarrow> rd (data P) src;
        if label_type b = 0 then
          (let len = label_len b; src = u16 (src + 1)
           in if len = 0 then Some (Inr src)
              else if len < pend P - src then Some (Inl (u16 (src + len)))
              else Some (Inr (u16 (pend P))))
        else if label_type b = 3 then
          if pend P - src < 2 then Some (Inr (u16 (pend P))) else Some (Inr (u16 (src + 2)))
        else Some (Inr (u16 (pend P)))
      }
      else Some (Inr (u16 (pend P))))"

definition dns_d_skip :: "nat \<Rightarrow> dns_packet \<Rightarrow> nat option" where
  "dns_d_skip src P = loop (d_skip_body P) src"

section \<open>Expanding a name\<close>

text \<open>The state of the loop is the buffer, \<open>dstp\<close>, \<open>nptrs\<close> and \<open>src\<close>. The result is the
  error, the return value and the buffer.\<close>

definition d_expand_body :: "dns_packet \<Rightarrow> bytes \<times> nat \<times> nat \<times> nat
    \<Rightarrow> ((bytes \<times> nat \<times> nat \<times> nat) + (dns_error option \<times> nat \<times> bytes)) option" where
  "d_expand_body P = (\<lambda>(dst, dstp, nptrs, src).
     let illegal = Some (Inr (Some DNS_EILLEGAL, 0, nul dst dstp))
     in if src < pend P then do {
          b \<leftarrow> rd (data P) src;
          if label_type b = 0 then
            (let len = label_len b
             in if len = 0 then
                  (let (dst, dstp) = (if dstp = 0 then (put dst dstp 46, dstp + 1) else (dst, dstp))
                   in Some (Inr (None, dstp, nul dst dstp)))
                else let src = u16 (src + 1)
                     in if pend P - src < len then illegal
                        else do {
                          s \<leftarrow> rdn (data P) src (min len (length dst - dstp));
                          let dst = put (blit dst dstp s) (dstp + len) 46;
                          Some (Inl (dst, dstp + len + 1, 0, u16 (src + len)))
                        })
          else if label_type b = 3 then
            (if DNS_D_MAXPTRS < nptrs + 1 then illegal
             else if pend P - src < 2 then illegal
             else do {
               b1 \<leftarrow> rd (data P) (src + 1);
               Some (Inl (dst, dstp, nptrs + 1, label_ptr b b1))
             })
          else illegal
        }
        else illegal)"

definition dns_d_expand :: "bytes \<Rightarrow> nat \<Rightarrow> dns_packet \<Rightarrow> (dns_error option \<times> nat \<times> bytes) option" where
  "dns_d_expand dst src P = loop (d_expand_body P) (dst, 0, 0, src)"

section \<open>Encoding a name\<close>

text \<open>The first loop of \<open>dns_d_comp\<close> over the source text: \<open>p\<close> is \<open>dst.p\<close>, \<open>x\<close> is
  \<open>dst.x\<close> and \<open>n\<close> is \<open>src.x - src.p\<close>.\<close>

fun comp_scan :: "bytes \<Rightarrow> nat \<Rightarrow> nat \<Rightarrow> nat \<Rightarrow> bytes \<Rightarrow> bytes \<times> nat \<times> nat \<times> nat" where
  "comp_scan dst p x n [] = (dst, p, x, n)"
| "comp_scan dst p x n (ch # cs) =
     (if ch = 46 then comp_scan (put dst p (byte n AND 0x3f)) x (x + 1) 0 cs
      else comp_scan (put dst x ch) p (x + 1) (n + 1) cs)"

definition comp_encode :: "bytes \<Rightarrow> bytes \<Rightarrow> bytes \<times> nat" where
  "comp_encode dst src =
     (let (dst, p, x, n) = comp_scan dst 0 1 0 src;
          (dst, p) = (if 0 < n then (put dst p (byte n AND 0x3f), x) else (dst, p))
      in if 1 < p then (put dst p 0, p + 1) else (dst, p))"

definition tolower8 :: "u8 \<Rightarrow> u8" where
  "tolower8 c = (if 65 \<le> c \<and> c \<le> 90 then c + 32 else c)"

definition strcaseeq :: "bytes \<Rightarrow> bytes \<Rightarrow> bool" where
  "strcaseeq s t \<longleftrightarrow> map tolower8 (cstr s) = map tolower8 (cstr t)"

text \<open>
  The search for a suffix. A cursor is a label buffer with its length. \<open>match_body\<close> is the
  innermost loop; it advances both cursors while their labels agree. \<open>dict_body\<close> is the loop
  over the suffixes of one dictionary entry, leaving with the offset found (\<open>Some\<close>) or with
  the buffers as the search left them. \<open>dict_scan\<close> is the loop over the dictionary and
  \<open>suffix_body\<close> the loop over the suffixes of the name itself. As in the source, the cursor
  of the name keeps the label and length that a partial match ended with.
\<close>

definition match_body :: "bytes \<Rightarrow> dns_packet \<Rightarrow> (bytes \<times> nat \<times> nat) \<times> (bytes \<times> nat \<times> nat)
    \<Rightarrow> (((bytes \<times> nat \<times> nat) \<times> (bytes \<times> nat \<times> nat)) + ((bytes \<times> nat) \<times> (bytes \<times> nat))) option" where
  "match_body dst P = (\<lambda>((al, alen, ay), (bl, blen, by')).
     if alen \<noteq> 0 \<and> blen \<noteq> 0 \<and> strcaseeq al bl then do {
       (alen, al, ay) \<leftarrow> dns_l_expand al ay dst (length dst);
       (blen, bl, by') \<leftarrow> dns_l_expand bl by' (data P) (pend P);
       Some (Inl ((al, alen, ay), (bl, blen, by')))
     }
     else Some (Inr ((al, alen), (bl, blen))))"

definition dict_body :: "bytes \<Rightarrow> dns_packet \<Rightarrow> nat \<Rightarrow> (bytes \<times> nat) \<times> bytes \<times> nat
    \<Rightarrow> (((bytes \<times> nat) \<times> bytes \<times> nat) + (nat option \<times> (bytes \<times> nat) \<times> bytes)) option" where
  "dict_body dst P ax = (\<lambda>((al, alen), bl, bp). do {
     (blen, bl, bx) \<leftarrow> dns_l_expand bl bp (data P) (pend P);
     if blen = 0 then Some (Inr (None, (al, alen), bl))
     else do {
       ((al, alen), (bl, blen)) \<leftarrow> loop (match_body dst P) ((al, alen, ax), (bl, blen, bx));
       if alen = 0 \<and> blen = 0 \<and> bp \<le> 0x3fff then Some (Inr (Some bp, (al, alen), bl))
       else Some (Inl ((al, alen), bl, bx))
     }
   })"

fun dict_scan :: "bytes \<Rightarrow> dns_packet \<Rightarrow> nat \<Rightarrow> (bytes \<times> nat) \<times> bytes \<Rightarrow> nat list
    \<Rightarrow> (nat option \<times> (bytes \<times> nat) \<times> bytes) option" where
  "dict_scan dst P ax (a, bl) [] = Some (None, a, bl)"
| "dict_scan dst P ax (a, bl) (d # ds) =
     (if d = 0 then Some (None, a, bl)
      else do {
        (hit, a, bl) \<leftarrow> loop (dict_body dst P ax) (a, bl, d);
        case hit of
          Some bp \<Rightarrow> Some (Some bp, a, bl)
        | None \<Rightarrow> dict_scan dst P ax (a, bl) ds
      })"

definition suffix_body :: "bytes \<Rightarrow> dns_packet \<Rightarrow> bytes \<times> bytes \<times> nat
    \<Rightarrow> ((bytes \<times> bytes \<times> nat) + (nat \<times> nat) option) option" where
  "suffix_body dst P = (\<lambda>(al, bl, ap). do {
     (alen, al, ax) \<leftarrow> dns_l_expand al ap dst (length dst);
     if alen = 0 then Some (Inr None)
     else do {
       (hit, (al, alen), bl) \<leftarrow> dict_scan dst P ax ((al, alen), bl) (dict P);
       case hit of
         Some bp \<Rightarrow> Some (Inr (Some (ap, bp)))
       | None \<Rightarrow> Some (Inl (al, bl, ax))
     }
   })"

text \<open>\<open>dns_d_comp\<close>: the return value and the destination. The label buffers of the source are
  uninitialised; no run reads them before \<open>dns_l_expand\<close> has filled them.\<close>

definition dns_d_comp :: "bytes \<Rightarrow> bytes \<Rightarrow> dns_packet \<Rightarrow> (nat \<times> bytes) option" where
  "dns_d_comp dst src P =
     (let (dst, p) = comp_encode dst src
      in if p < length dst then do {
           hit \<leftarrow> loop (suffix_body dst P) (replicate 64 0, replicate 64 0, 0);
           case hit of
             None \<Rightarrow> Some (p, dst)
           | Some (ap, bp) \<Rightarrow> do {
               dst \<leftarrow> wr dst ap (0xc0 OR (0x3f AND byte (bp div 256)));
               dst \<leftarrow> wr dst (ap + 1) (byte bp);
               Some (ap + 2, dst)
             }
         }
         else Some (p, dst))"

text \<open>\<open>dns_d_push\<close>. The source returns an uninitialised \<open>error\<close> when the encoding is empty;
  that is \<open>None\<close> here.\<close>

definition dns_d_push :: "dns_packet \<Rightarrow> bytes \<Rightarrow> (dns_error option \<times> dns_packet) option" where
  "dns_d_push P dn = do {
     let dp = pend P;
     let lim = sz_sub (psize P) dp;
     (len, dst) \<leftarrow> dns_d_comp (drop dp (data P)) dn P;
     let P = P\<lparr>data := take dp (data P) @ dst\<rparr>;
     if len = 0 then None
     else if lim < len then Some (Some DNS_ENOBUFS, P)
     else do {
       P \<leftarrow> dns_p_dictadd (P\<lparr>pend := dp + len\<rparr>) dp;
       Some (None, P)
     }
   }"

section \<open>Names in a packet\<close>

text \<open>\<open>name_text\<close> is the dotted text of a list of labels and \<open>wire\<close> its uncompressed
  encoding.\<close>

definition name_text :: "bytes list \<Rightarrow> bytes" where
  "name_text ls = (if ls = [] then [46] else concat (map (\<lambda>l. l @ [46]) ls))"

definition wire :: "bytes list \<Rightarrow> bytes" where
  "wire ls = concat (map (\<lambda>l. byte (length l) # l) ls) @ [0]"

text \<open>\<open>name_at buf e k i ls\<close>: the labels read from offset \<open>i\<close> of a packet of \<open>e\<close> bytes are
  \<open>ls\<close>, after \<open>k\<close> pointers in a row. \<open>bad_at\<close> says that reading runs into something that
  is not a name.\<close>

inductive name_at :: "bytes \<Rightarrow> nat \<Rightarrow> nat \<Rightarrow> nat \<Rightarrow> bytes list \<Rightarrow> bool" for buf e where
  root: "i < e \<Longrightarrow> buf ! i = 0 \<Longrightarrow> name_at buf e k i []"
| label: "i < e \<Longrightarrow> label_type (buf ! i) = 0 \<Longrightarrow> label_len (buf ! i) = n \<Longrightarrow> 0 < n \<Longrightarrow> i + 1 + n \<le> e
    \<Longrightarrow> name_at buf e 0 (i + 1 + n) ls \<Longrightarrow> name_at buf e k i (take n (drop (i + 1) buf) # ls)"
| pointer: "i + 1 < e \<Longrightarrow> label_type (buf ! i) = 3 \<Longrightarrow> k < DNS_D_MAXPTRS
    \<Longrightarrow> name_at buf e (k + 1) (label_ptr (buf ! i) (buf ! (i + 1))) ls \<Longrightarrow> name_at buf e k i ls"

inductive bad_at :: "bytes \<Rightarrow> nat \<Rightarrow> nat \<Rightarrow> nat \<Rightarrow> bool" for buf e where
  bad_end: "e \<le> i \<Longrightarrow> bad_at buf e k i"
| bad_reserved: "i < e \<Longrightarrow> label_type (buf ! i) \<notin> {0, 3} \<Longrightarrow> bad_at buf e k i"
| bad_label: "i < e \<Longrightarrow> label_type (buf ! i) = 0 \<Longrightarrow> e < i + 1 + label_len (buf ! i) \<Longrightarrow> bad_at buf e k i"
| bad_pointer: "i < e \<Longrightarrow> label_type (buf ! i) = 3 \<Longrightarrow> e \<le> i + 1 \<or> DNS_D_MAXPTRS \<le> k \<Longrightarrow> bad_at buf e k i"
| bad_next: "i < e \<Longrightarrow> label_type (buf ! i) = 0 \<Longrightarrow> label_len (buf ! i) = n \<Longrightarrow> 0 < n
    \<Longrightarrow> bad_at buf e 0 (i + 1 + n) \<Longrightarrow> bad_at buf e k i"
| bad_target: "i + 1 < e \<Longrightarrow> label_type (buf ! i) = 3 \<Longrightarrow> k < DNS_D_MAXPTRS
    \<Longrightarrow> bad_at buf e (k + 1) (label_ptr (buf ! i) (buf ! (i + 1))) \<Longrightarrow> bad_at buf e k i"

lemma label_zero: "label_type b = 0 \<and> label_len b = 0 \<longleftrightarrow> b = 0"
  by (auto simp: label_type_eq label_len_eq word_unat_eq_iff)

lemma label_zero_simps [simp]: "label_type 0 = 0" "label_len 0 = 0"
  using label_zero [of 0] by auto

text \<open>One step of the decoder in a packet whose end lies inside its data never leaves the
  bounds of the packet or of the buffer.\<close>

definition in_packet :: "dns_packet \<Rightarrow> bool" where
  "in_packet P \<longleftrightarrow> pend P \<le> length (data P) \<and> pend P \<le> 65535"

lemma packet_ok_in [intro]: "packet_ok P \<Longrightarrow> in_packet P"
  by (auto simp: packet_ok_def in_packet_def psize_def)

lemma expand_root:
  "in_packet P \<Longrightarrow> i < pend P \<Longrightarrow> data P ! i = 0 \<Longrightarrow>
    d_expand_body P (blit dst 0 out, length out, k, i) =
      (let t = if out = [] then [46] else out
       in Some (Inr (None, length t, nul (blit dst 0 t) (length t))))"
  by (auto simp: d_expand_body_def in_packet_def Let_def put_blit)

lemma blit_take_room:
  assumes "j + n \<le> length buf"
  shows "blit d i (take (min n (length d - i)) (drop j buf)) = blit d i (take n (drop j buf))"
  using assms by (auto simp: blit_def min_def)

lemma expand_label:
  assumes "in_packet P" "i < pend P" "label_type (data P ! i) = 0" "label_len (data P ! i) = n" "0 < n"
    "i + 1 + n \<le> pend P"
  shows "d_expand_body P (blit dst 0 out, length out, k, i) =
    (let t = out @ take n (drop (i + 1) (data P)) @ [46]
     in Some (Inl (blit dst 0 t, length t, 0, i + 1 + n)))"
proof -
  have *: "length (take n (drop (i + 1) (data P))) = n"
    using assms by (auto simp: in_packet_def min_def)
  have "rdn (data P) (i + 1) (min n (length dst - length out))
      = Some (take (min n (length dst - length out)) (drop (i + 1) (data P)))"
    using assms by (intro rdn_in) (auto simp: in_packet_def min_def)
  moreover have "blit (blit dst 0 out) (length out) (take (min n (length dst - length out)) (drop (i + 1) (data P)))
      = blit dst 0 (out @ take n (drop (i + 1) (data P)))"
    using blit_take_room [of "i + 1" n "data P" "blit dst 0 out" "length out"] assms
    by (simp add: in_packet_def blit_blit)
  moreover have "put (blit dst 0 (out @ take n (drop (i + 1) (data P)))) (length out + n) 46
      = blit dst 0 (out @ take n (drop (i + 1) (data P)) @ [46])"
    using blit_blit [of dst "out @ take n (drop (i + 1) (data P))" "[46]"] * by (simp add: put_blit)
  ultimately show ?thesis
    using assms * by (simp add: d_expand_body_def in_packet_def Let_def)
qed

lemma expand_pointer:
  assumes "in_packet P" "i + 1 < pend P" "label_type (data P ! i) = 3" "k < DNS_D_MAXPTRS"
  shows "d_expand_body P (dst, dp, k, i) =
    Some (Inl (dst, dp, k + 1, label_ptr (data P ! i) (data P ! (i + 1))))"
  using assms by (simp add: d_expand_body_def in_packet_def Let_def)

lemma expand_illegal:
  assumes "in_packet P"
    and "pend P \<le> i \<or> label_type (data P ! i) \<notin> {0, 3}
      \<or> label_type (data P ! i) = 0 \<and> pend P < i + 1 + label_len (data P ! i)
      \<or> label_type (data P ! i) = 3 \<and> (pend P \<le> i + 1 \<or> DNS_D_MAXPTRS \<le> k)"
  shows "d_expand_body P (dst, dp, k, i) = Some (Inr (Some DNS_EILLEGAL, 0, nul dst dp))"
  using assms by (auto simp: d_expand_body_def in_packet_def Let_def)

lemma expand_cases [case_names illegal root label pointer]:
  fixes P :: dns_packet and i k :: nat
  obtains "pend P \<le> i \<or> label_type (data P ! i) \<notin> {0, 3}
      \<or> label_type (data P ! i) = 0 \<and> pend P < i + 1 + label_len (data P ! i)
      \<or> label_type (data P ! i) = 3 \<and> (pend P \<le> i + 1 \<or> DNS_D_MAXPTRS \<le> k)"
    | "i < pend P" "data P ! i = 0"
    | n where "i < pend P" "label_type (data P ! i) = 0" "label_len (data P ! i) = n" "0 < n"
      "i + 1 + n \<le> pend P"
    | "i + 1 < pend P" "label_type (data P ! i) = 3" "k < DNS_D_MAXPTRS"
  using label_zero [of "data P ! i"] by (meson insert_iff not_gr_zero not_le singletonD)

lemmas expand_steps = expand_root expand_label expand_pointer expand_illegal

text \<open>The decoder refines the relation: what it prints after \<open>out\<close>.\<close>

definition expand_text :: "bytes \<Rightarrow> bytes list \<Rightarrow> bytes" where
  "expand_text out ls = (let c = out @ concat (map (\<lambda>l. l @ [46]) ls) in if c = [] then [46] else c)"

lemma expand_text_Nil [simp]: "expand_text [] ls = name_text ls"
  by (cases ls) (simp_all add: expand_text_def name_text_def)

lemma expand_text_Cons: "expand_text (out @ l @ [46]) ls = expand_text out (l # ls)"
  by (simp add: expand_text_def)

lemma name_at_expands:
  assumes "in_packet P" and "name_at (data P) (pend P) k i ls"
  shows "loop (d_expand_body P) (blit dst 0 out, length out, k, i) =
    Some (None, length (expand_text out ls), nul (blit dst 0 (expand_text out ls)) (length (expand_text out ls)))"
  using assms(2)
proof (induction arbitrary: out rule: name_at.induct)
  case (root i k)
  then show ?case
    using expand_root [OF assms(1), of i dst out k]
    by (simp add: loop_done Let_def expand_text_def)
next
  case (label i n ls k)
  then show ?case
    using expand_label [OF assms(1) label(1-5), of dst out k] label.IH [of "out @ take n (drop (i + 1) (data P)) @ [46]"]
    by (simp add: loop_next Let_def expand_text_Cons del: append_assoc)
next
  case (pointer i k ls)
  then show ?case
    using expand_pointer [OF assms(1) pointer(1-3), of "blit dst 0 out" "length out"]
    by (simp add: loop_next)
qed

lemma bad_at_fails:
  assumes "in_packet P" and "bad_at (data P) (pend P) k i"
  shows "\<exists>dst'. length dst' = length dst \<and>
    loop (d_expand_body P) (blit dst 0 out, length out, k, i) = Some (Some DNS_EILLEGAL, 0, dst')"
  using assms(2)
proof (induction arbitrary: out rule: bad_at.induct)
  case (bad_next i n k)
  show ?case
  proof (cases "i + 1 + n \<le> pend P")
    case True
    then show ?thesis
      using expand_label [OF assms(1) bad_next(1-4) True, of dst out k] bad_next.IH [of "out @ take n (drop (i + 1) (data P)) @ [46]"]
      by (simp add: loop_next Let_def)
  next
    case False
    then show ?thesis
      using expand_illegal [OF assms(1), of i k "blit dst 0 out" "length out"] bad_next(1-4)
      by (simp add: loop_done)
  qed
next
  case (bad_target i k)
  then show ?case
    using expand_pointer [OF assms(1) bad_target(1-3), of "blit dst 0 out" "length out"]
    by (simp add: loop_next)
qed (simp_all add: loop_done expand_illegal [OF assms(1)])

lemma expand_returns:
  assumes "in_packet P" and "runs (d_expand_body P) st r"
  shows "st = (blit dst 0 out, length out, k, i) \<Longrightarrow>
    (\<exists>ls. name_at (data P) (pend P) k i ls) \<or> bad_at (data P) (pend P) k i"
  using assms(2)
proof (induction arbitrary: out k i rule: runs.induct)
  case (runs_next st st' r)
  show ?case
  proof (cases rule: expand_cases [of P i k])
    case illegal
    then show ?thesis using runs_next expand_illegal [OF assms(1) illegal] by simp
  next
    case root
    then show ?thesis by (blast intro: name_at.root)
  next
    case (label n)
    then have "st' = (let t = out @ take n (drop (i + 1) (data P)) @ [46] in (blit dst 0 t, length t, 0, i + 1 + n))"
      using runs_next(1) expand_label [OF assms(1) label, of dst out k] runs_next.prems by (simp add: Let_def)
    with runs_next.IH show ?thesis
      using label unfolding Let_def by (blast intro: name_at.label bad_next)
  next
    case pointer
    then have "st' = (blit dst 0 out, length out, k + 1, label_ptr (data P ! i) (data P ! (i + 1)))"
      using runs_next(1) expand_pointer [OF assms(1) pointer, of "blit dst 0 out" "length out"] runs_next.prems by simp
    with runs_next.IH show ?thesis
      using pointer by (blast intro: name_at.pointer bad_target)
  qed
next
  case (runs_done st r)
  show ?case
  proof (cases rule: expand_cases [of P i k])
    case illegal
    then show ?thesis by (meson bad_at.intros insertCI not_le)
  next
    case root
    then show ?thesis by (blast intro: name_at.root)
  next
    case (label n)
    then show ?thesis using runs_done expand_label [OF assms(1) label, of dst out k] by (simp add: Let_def)
  next
    case pointer
    then show ?thesis
      using runs_done expand_pointer [OF assms(1) pointer, of "blit dst 0 out" "length out"] by simp
  qed
qed

lemma d_expand_body_total: "in_packet P \<Longrightarrow> d_expand_body P st \<noteq> None"
  by (cases st) (auto simp: d_expand_body_def in_packet_def Let_def rdn_def min_def)

lemma expand_start: "dns_d_expand dst i P = loop (d_expand_body P) (blit dst 0 [], length ([]::bytes), 0, i)"
  by (simp add: dns_d_expand_def)

lemma dns_d_expand_name:
  "in_packet P \<Longrightarrow> name_at (data P) (pend P) 0 i ls \<Longrightarrow>
    dns_d_expand dst i P = Some (None, length (name_text ls), nul (blit dst 0 (name_text ls)) (length (name_text ls)))"
  using name_at_expands [of P 0 i ls dst "[]"] by (simp add: dns_d_expand_def)

lemma dns_d_expand_bad:
  "in_packet P \<Longrightarrow> bad_at (data P) (pend P) 0 i \<Longrightarrow>
    \<exists>dst'. length dst' = length dst \<and> dns_d_expand dst i P = Some (Some DNS_EILLEGAL, 0, dst')"
  using bad_at_fails [of P 0 i dst "[]"] by (simp add: dns_d_expand_def)

lemma dns_d_expand_returns:
  "in_packet P \<Longrightarrow> dns_d_expand dst i P = Some r \<Longrightarrow>
    (\<exists>ls. name_at (data P) (pend P) 0 i ls) \<or> bad_at (data P) (pend P) 0 i"
  using expand_returns [of P _ r dst "[]" 0 i] unfolding expand_start loop_runs by blast

text \<open>C4: \<open>dns_d_expand\<close> decodes. In a well-formed packet it succeeds exactly at the offsets
  where a name is encoded, then returns the length of its dotted text and leaves that text, cut
  to the buffer and closed with a NUL; it fails with \<open>DNS_EILLEGAL\<close> exactly at the offsets
  from which reading runs into something that is not a name.\<close>

theorem dns_d_expand_spec:
  assumes "packet_ok P"
  shows "(dns_d_expand dst i P = Some (None, n, dst') \<longleftrightarrow>
      (\<exists>ls. name_at (data P) (pend P) 0 i ls \<and> n = length (name_text ls)
         \<and> dst' = nul (blit dst 0 (name_text ls)) (length (name_text ls))))
    \<and> ((\<exists>d. dns_d_expand dst i P = Some (Some DNS_EILLEGAL, 0, d)) \<longleftrightarrow> bad_at (data P) (pend P) 0 i)"
proof -
  have P: "in_packet P" using assms by blast
  consider (name) ls where "name_at (data P) (pend P) 0 i ls" | (bad) "bad_at (data P) (pend P) 0 i"
    | (none) "\<nexists>ls. name_at (data P) (pend P) 0 i ls" "\<not> bad_at (data P) (pend P) 0 i" by blast
  then show ?thesis
  proof cases
    case name
    have "dns_d_expand dst i P = Some (None, length (name_text l), nul (blit dst 0 (name_text l)) (length (name_text l)))"
      if "name_at (data P) (pend P) 0 i l" for l
      using that by (rule dns_d_expand_name [OF P])
    moreover from this [OF name] have "\<not> bad_at (data P) (pend P) 0 i"
      using dns_d_expand_bad [OF P, of i dst] by auto
    ultimately show ?thesis using name by (metis Pair_inject option.distinct(1) option.inject)
  next
    case bad
    then show ?thesis
      using dns_d_expand_bad [OF P, of i dst] dns_d_expand_name [OF P, of i _ dst] by auto
  next
    case none
    then have "dns_d_expand dst i P = None"
      using dns_d_expand_returns [OF P, of dst i] by (cases "dns_d_expand dst i P") auto
    with none show ?thesis by simp
  qed
qed

text \<open>A packet holding the header and the bytes \<open>bs\<close>.\<close>

definition packet_of :: "bytes \<Rightarrow> dns_packet" where
  "packet_of bs = \<lparr>dict = replicate 16 0, qd = no_memo, an = no_memo, ns = no_memo, ar = no_memo,
     pend = 12 + length bs, data = replicate 12 0 @ bs\<rparr>"

lemma packet_of_ok: "length bs < 65000 \<Longrightarrow> packet_ok (packet_of bs)"
  by (simp add: packet_ok_def packet_of_def psize_def)

lemma packet_of_simps [simp]: "pend (packet_of bs) = 12 + length bs"
  "data (packet_of bs) = replicate 12 0 @ bs" "dict (packet_of bs) = replicate 16 0"
  by (simp_all add: packet_of_def)

theorem dns_d_expand_spec_witness:
  "packet_ok (packet_of [1, 97, 0, 1, 98, 0xc0, 12]) \<and>
   dns_d_expand (replicate 8 0) 15 (packet_of [1, 97, 0, 1, 98, 0xc0, 12]) =
     Some (None, 4, [98, 46, 97, 46, 0, 0, 0, 0])"
proof -
  let ?P = "packet_of [1, 97, 0, 1, 98, 0xc0, 12]"
  have ok: "packet_ok ?P" by (rule packet_of_ok) simp
  have "name_at (data ?P) (pend ?P) 0 14 []"
    by (rule name_at.root) (simp_all add: nth_append)
  then have "name_at (data ?P) (pend ?P) 1 12 [[97]]"
    using name_at.label [of 12 "pend ?P" "data ?P" 1 "[]" 1]
    by (simp add: nth_append label_type_eq label_len_eq)
  then have "name_at (data ?P) (pend ?P) 0 17 [[97]]"
    by - (rule name_at.pointer, simp_all add: nth_append label_type_eq label_ptr_eq)
  then have "name_at (data ?P) (pend ?P) 0 15 [[98], [97]]"
    using name_at.label [of 15 "pend ?P" "data ?P" 1 "[[97]]" 0]
    by (simp add: nth_append label_type_eq label_len_eq)
  moreover have "nul (blit (replicate 8 0) 0 (name_text [[98], [97]])) 4 = [98, 46, 97, 46, 0, 0, 0, 0 :: u8]"
    by code_simp
  moreover have "length (name_text [[98], [97]]) = 4"
    by (simp add: name_text_def)
  ultimately show ?thesis
    using ok dns_d_expand_spec [OF ok, of "replicate 8 0" 15 4 "[98, 46, 97, 46, 0, 0, 0, 0]"] by metis
qed

text \<open>C35: a pointer that leads back to a label before it makes \<open>dns_d_expand\<close> run for ever,
  since the count of pointers restarts at each label. The step from every state the loop
  reaches stays in bounds, so the missing result is the missing end of the loop.\<close>

theorem dns_d_expand_cycle:
  assumes "packet_ok P" and "label_type (data P ! i) = 0" and "label_len (data P ! i) = n" and "0 < n"
    and "i + n + 2 < pend P" and "label_type (data P ! (i + 1 + n)) = 3"
    and "label_ptr (data P ! (i + 1 + n)) (data P ! (i + n + 2)) = i"
  shows "(\<forall>st. d_expand_body P st \<noteq> None) \<and> dns_d_expand dst i P = None"
proof
  have P: "in_packet P" using assms(1) by blast
  then show "\<forall>st. d_expand_body P st \<noteq> None" by (simp add: d_expand_body_total)
  define I where "I st \<longleftrightarrow> (\<exists>out k. st = (blit dst 0 out, length out, k, i)
    \<or> st = (blit dst 0 out, length out, 0, i + 1 + n))" for st :: "bytes \<times> nat \<times> nat \<times> nat"
  have "I (dst, 0, 0, i)"
    unfolding I_def by (intro exI [of _ "[]"] exI [of _ 0]) simp
  moreover have "\<exists>st'. d_expand_body P st = Some (Inl st') \<and> I st'" if "I st" for st
    using that unfolding I_def
  proof (elim exE disjE)
    fix out k assume "st = (blit dst 0 out, length out, k, i)"
    then show "\<exists>st'. d_expand_body P st = Some (Inl st') \<and> (\<exists>out k. st' = (blit dst 0 out, length out, k, i)
        \<or> st' = (blit dst 0 out, length out, 0, i + 1 + n))"
      using expand_label [OF P _ assms(2-4), of dst out k] assms(5) unfolding Let_def by force
  next
    fix out and k :: nat assume "st = (blit dst 0 out, length out, 0, i + 1 + n)"
    then show "\<exists>st'. d_expand_body P st = Some (Inl st') \<and> (\<exists>out k. st' = (blit dst 0 out, length out, k, i)
        \<or> st' = (blit dst 0 out, length out, 0, i + 1 + n))"
      using expand_pointer [OF P _ assms(6), of 0 "blit dst 0 out" "length out"] assms(5,7) by auto
  qed
  ultimately show "dns_d_expand dst i P = None"
    unfolding dns_d_expand_def by (rule loop_diverges)
qed

theorem dns_d_expand_cycle_witness:
  "packet_ok (packet_of [1, 97, 0xc0, 12]) \<and>
   dns_d_expand (replicate 256 0) 12 (packet_of [1, 97, 0xc0, 12]) = None"
proof -
  have ok: "packet_ok (packet_of [1, 97, 0xc0, 12])" by (rule packet_of_ok) simp
  then show ?thesis
    using dns_d_expand_cycle [OF ok, of 12 1 "replicate 256 0"]
    by (simp add: nth_append label_type_eq label_len_eq label_ptr_eq)
qed

section \<open>Skipping always ends\<close>

lemma dns_d_skip_bounds:
  assumes "in_packet P"
  shows "\<exists>j. dns_d_skip i P = Some j \<and> j \<le> pend P \<and> (i < pend P \<longrightarrow> i < j)"
proof -
  have "\<exists>j. loop (d_skip_body P) s = Some j \<and> j \<le> pend P \<and> (i < pend P \<longrightarrow> i < j)"
    if "i \<le> s" for s
    using that
  proof (rule loop_total [where m = "\<lambda>s. pend P - s" and I = "\<lambda>s. i \<le> s"])
    fix s assume "i \<le> s"
    then show "(\<exists>s'. d_skip_body P s = Some (Inl s') \<and> i \<le> s' \<and> pend P - s' < pend P - s) \<or>
      (\<exists>r. d_skip_body P s = Some (Inr r) \<and> r \<le> pend P \<and> (i < pend P \<longrightarrow> i < r))"
      using assms by (auto simp: d_skip_body_def in_packet_def Let_def)
  qed
  then show ?thesis by (simp add: dns_d_skip_def)
qed

section \<open>The encoder\<close>

definition valid_label :: "bytes \<Rightarrow> bool" where
  "valid_label l \<longleftrightarrow> l \<noteq> [] \<and> length l \<le> DNS_D_MAXLABEL \<and> 46 \<notin> set l"

definition enc :: "bytes list \<Rightarrow> bytes" where
  "enc ls = concat (map (\<lambda>l. byte (length l) # l) ls)"

lemma enc_simps [simp]: "enc [] = []" "enc (l # ls) = byte (length l) # l @ enc ls"
  "enc (ls @ ls') = enc ls @ enc ls'"
  by (simp_all add: enc_def)

lemma wire_enc: "wire ls = enc ls @ [0]"
  by (simp add: wire_def enc_def)

lemma byte_len_type [simp]: "n \<le> 63 \<Longrightarrow> label_type (byte n) = 0 \<and> label_len (byte n) = n"
  by (simp add: label_type_eq label_len_eq)

lemma byte_and_63 [simp]: "n \<le> 63 \<Longrightarrow> byte n AND 63 = byte n"
  using label_len_eq [of "byte n"]
  by (simp add: word_unat_eq_iff label_len_def and.commute)

lemma blit_snoc: "put (blit d i l) (i + length l) c = blit d i (l @ [c])"
  by (auto simp: put_def blit_def list_update_append nth_append upd_conv_take_nth_drop)

lemma put_under: "put (blit (blit d 0 out) (Suc (length out)) l) (length out) b = blit d 0 (out @ b # l)"
  by (intro nth_equalityI) (auto simp: put_nth blit_nth nth_append nth_Cons')

lemma comp_scan_run:
  "46 \<notin> set l' \<Longrightarrow>
    comp_scan (blit B p l) q (p + length l) (length l) (l' @ rest)
      = comp_scan (blit B p (l @ l')) q (p + length (l @ l')) (length (l @ l')) rest"
proof (induction l' arbitrary: l)
  case (Cons c l')
  then show ?case
    using Cons.IH [of "l @ [c]"] by (simp add: blit_snoc)
qed simp

lemma comp_scan_label:
  assumes "valid_label l"
  shows "comp_scan (blit d 0 out) (length out) (Suc (length out)) 0 (l @ 46 # rest) =
    (let out' = out @ byte (length l) # l
     in comp_scan (blit d 0 out') (length out') (Suc (length out')) 0 rest)"
proof -
  have "comp_scan (blit d 0 out) (length out) (Suc (length out)) 0 (l @ 46 # rest)
      = comp_scan (blit (blit d 0 out) (Suc (length out)) l) (length out) (Suc (length out) + length l) (length l) (46 # rest)"
    using comp_scan_run [of l "blit d 0 out" "Suc (length out)" "[]" "length out" "46 # rest"] assms
    by (simp add: valid_label_def)
  then show ?thesis
    using assms by (simp add: put_under valid_label_def)
qed

lemma comp_scan_labels:
  "list_all valid_label ls \<Longrightarrow>
    comp_scan (blit d 0 out) (length out) (Suc (length out)) 0 (concat (map (\<lambda>l. l @ [46]) ls)) =
    (blit d 0 (out @ enc ls), length (out @ enc ls), Suc (length (out @ enc ls)), 0)"
proof (induction ls arbitrary: out)
  case (Cons l ls)
  then show ?case
    using Cons.IH [of "out @ byte (length l) # l"] comp_scan_label [of l d out] by (simp add: Let_def)
qed simp

lemma comp_encode_wire:
  assumes "list_all valid_label ls"
  shows "comp_encode d (name_text ls) = (blit d 0 (wire ls), length (wire ls))"
proof (cases ls)
  case Nil
  then show ?thesis
    by (simp add: comp_encode_def name_text_def wire_def put_blit byte_def)
next
  case (Cons l ls')
  then have "l \<noteq> []" and "1 < length (enc ls)"
    using assms by (auto simp: valid_label_def Suc_less_eq2)
  moreover have "put (blit d 0 (enc ls)) (length (enc ls)) 0 = blit d 0 (enc ls @ [0])"
    using blit_snoc [of d 0 "enc ls"] by simp
  ultimately show ?thesis
    using comp_scan_labels [OF assms, of d "[]"] Cons
    by (simp add: comp_encode_def name_text_def wire_enc)
qed

section \<open>Labels seen by the suffix search\<close>

lemma l_expand_label:
  assumes "i < e" "label_type (buf ! i) = 0" "label_len (buf ! i) = n" "i + 1 + n \<le> e"
    "e \<le> length buf" "e \<le> 65535"
  shows "l_expand k dst i buf e = Some (n, nul (blit dst 0 (take n (drop (i + 1) buf))) n, i + 1 + n)"
proof -
  have "rdn buf (i + 1) (min (length dst) n) = Some (take (min (length dst) n) (drop (i + 1) buf))"
    using assms by (intro rdn_in) (auto simp: min_def)
  moreover have "blit dst 0 (take (min n (length dst)) (drop (i + 1) buf)) = blit dst 0 (take n (drop (i + 1) buf))"
    using blit_take_room [of "i + 1" n buf dst 0] assms by simp
  ultimately show ?thesis
    using assms by (simp add: l_expand.simps [of k] min.commute Let_def)
qed

lemma l_expand_name:
  assumes "name_at buf e k i ls" and "e \<le> length buf" and "e \<le> 65535"
  shows "case ls of
      [] \<Rightarrow> \<exists>dst' nxt. l_expand k dst i buf e = Some (0, dst', nxt)
    | l # ls' \<Rightarrow> \<exists>nxt. l_expand k dst i buf e = Some (length l, nul (blit dst 0 l) (length l), nxt)
        \<and> name_at buf e 0 nxt ls'"
  using assms(1)
proof (induction rule: name_at.induct)
  case (root i k)
  then show ?case using l_expand_label [of i e buf 0 k dst] assms by simp
next
  case (label i n ls k)
  then have "length (take n (drop (i + 1) buf)) = n" using assms by auto
  then show ?case using l_expand_label [of i e buf n k dst] assms label by simp
next
  case (pointer i k ls)
  then have "l_expand k dst i buf e = l_expand (k + 1) dst (label_ptr (buf ! i) (buf ! (i + 1))) buf e"
    using assms(2,3) pointer(1-3) by (subst l_expand.simps) auto
  with pointer.IH show ?case by (simp only:)
qed

text \<open>A name written out in full is a name of the buffer, at the offset of each of its
  labels.\<close>

lemma name_at_wire:
  "list_all valid_label ls \<Longrightarrow> i + length (wire ls) \<le> e \<Longrightarrow> e \<le> length buf \<Longrightarrow>
    take (length (wire ls)) (drop i buf) = wire ls \<Longrightarrow> name_at buf e k i ls"
proof (induction ls arbitrary: i k)
  case Nil
  then have "buf ! i = 0"
    by (simp add: wire_def take_Suc_conv_app_nth)
  then show ?case using Nil by (intro name_at.root) (simp_all add: wire_def)
next
  case (Cons l ls)
  define n where "n = length l"
  have n: "0 < n" "n \<le> 63" using Cons.prems(1) by (auto simp: valid_label_def n_def)
  have eq: "take (1 + n + length (wire ls)) (drop i buf) = byte n # l @ wire ls"
    using Cons.prems(4) by (simp add: wire_def n_def)
  have i: "buf ! i = byte n"
    using arg_cong [OF eq, of hd] Cons.prems(2,3) by (simp add: wire_def hd_drop_conv_nth)
  have l: "take n (drop (i + 1) buf) = l"
    using arg_cong [OF eq, of "\<lambda>x. take n (drop 1 x)"] by (simp add: n_def min_def drop_take)
  have "take (length (wire ls)) (drop (i + 1 + n) buf) = wire ls"
    using arg_cong [OF eq, of "drop (1 + n)"] by (simp add: n_def drop_take add.commute)
  then have "name_at buf e 0 (i + 1 + n) ls"
    using Cons.IH [of "i + 1 + n" 0] Cons.prems by (simp add: wire_def n_def)
  then have "name_at buf e k i (take n (drop (i + 1) buf) # ls)"
    using n i Cons.prems(2) by (intro name_at.label) (auto simp: wire_def n_def)
  then show ?case by (simp only: l)
qed

lemma dict_scan_empty: "dict P ! 0 = 0 \<Longrightarrow> dict P \<noteq> [] \<Longrightarrow> dict_scan dst P ax (a, bl) (dict P) = Some (None, a, bl)"
  by (cases "dict P") auto

text \<open>With an empty dictionary the search runs through the labels of the name and finds
  nothing.\<close>

lemma suffix_search_empty:
  assumes "dict P ! 0 = 0" and "dict P \<noteq> []" and "length W \<le> 65535"
  shows "name_at W (length W) 0 i ls \<Longrightarrow> loop (suffix_body W P) (al, bl, i) = Some None"
proof (induction ls arbitrary: i al)
  case Nil
  then obtain d n where "l_expand 0 al i W (length W) = Some (0, d, n)"
    using l_expand_name [OF Nil, of al] assms(3) by auto
  then show ?case by (intro loop_done) (simp add: suffix_body_def dns_l_expand_def)
next
  case (Cons l ls)
  then obtain n where n: "l_expand 0 al i W (length W) = Some (length l, nul (blit al 0 l) (length l), n)"
    "name_at W (length W) 0 n ls"
    using l_expand_name [OF Cons.prems, of al] assms(3) by auto
  show ?case
  proof (cases "length l = 0")
    case True
    then show ?thesis using n by (intro loop_done) (simp add: suffix_body_def dns_l_expand_def)
  next
    case False
    then have "suffix_body W P (al, bl, i) = Some (Inl (nul (blit al 0 l) (length l), bl, n))"
      using n assms by (simp add: suffix_body_def dns_l_expand_def dict_scan_empty)
    then show ?thesis using Cons.IH [OF n(2)] by (simp add: loop_next)
  qed
qed

lemma blit_whole: "length w \<le> length d \<Longrightarrow> blit d 0 w = w @ drop (length w) d"
  by (cases "d = []") (auto simp: blit_def)

lemma dns_d_comp_plain:
  assumes "dict P ! 0 = 0" "dict P \<noteq> []" "list_all valid_label ls" "length (wire ls) \<le> length d" "length d \<le> 65535"
  shows "dns_d_comp d (name_text ls) P = Some (length (wire ls), wire ls @ drop (length (wire ls)) d)"
proof (cases "length (wire ls) < length d")
  case False
  then show ?thesis using assms(4) by (simp add: dns_d_comp_def comp_encode_wire [OF assms(3)] blit_whole)
next
  case True
  define W where "W = wire ls @ drop (length (wire ls)) d"
  have "length W = length d" using True by (simp add: W_def)
  moreover have "name_at W (length W) 0 0 ls"
    using assms(3,4) by (intro name_at_wire) (auto simp: W_def)
  then have "loop (suffix_body W P) (replicate 64 0, replicate 64 0, 0) = Some None"
    using assms \<open>length W = length d\<close> by (intro suffix_search_empty) auto
  ultimately show ?thesis
    using True by (simp add: dns_d_comp_def comp_encode_wire [OF assms(3)] blit_whole W_def)
qed

lemma dns_d_push_plain:
  assumes "packet_ok P" "dict P ! 0 = 0" "list_all valid_label ls" "pend P + length (wire ls) \<le> psize P"
  shows "\<exists>i. dns_d_push P (name_text ls) = Some (None,
    dict_set (P\<lparr>data := take (pend P) (data P) @ wire ls @ drop (pend P + length (wire ls)) (data P),
       pend := pend P + length (wire ls)\<rparr>) i (pend P))"
proof -
  let ?d = "drop (pend P) (data P)"
  let ?Q = "P\<lparr>data := take (pend P) (data P) @ wire ls @ drop (pend P + length (wire ls)) (data P),
       pend := pend P + length (wire ls)\<rparr>"
  have comp: "dns_d_comp ?d (name_text ls) P = Some (length (wire ls), wire ls @ drop (length (wire ls)) ?d)"
    using assms by (intro dns_d_comp_plain) (auto simp: packet_ok_def psize_def)
  have "in_packet ?Q" and lim: "sz_sub (psize P) (pend P) = psize P - pend P"
    using assms by (auto simp: packet_ok_def in_packet_def psize_def)
  then obtain i where i: "dns_p_dictadd ?Q (pend P) = Some (dict_set ?Q i (u16 (pend P)))"
    using dns_p_dictadd_total [of ?Q "pend P"] unfolding in_packet_def by blast
  have "u16 (pend P) = pend P" and "wire ls \<noteq> []"
    using assms(1) by (auto simp: packet_ok_def wire_def)
  moreover have "length (wire ls) \<le> psize P - pend P"
    using assms(4) by simp
  ultimately show ?thesis
    using i lim by (auto simp: dns_d_push_def comp Let_def add.commute)
qed

text \<open>C21: what \<open>dns_d_push\<close> writes, \<open>dns_d_expand\<close> reads. For every list of labels (each
  non-empty, at most 63 bytes, without dots) pushed as a dotted name into a packet with room
  for it and an empty dictionary, the push succeeds, keeps the packet well formed and every
  byte before its end, adds exactly the uncompressed encoding, and expanding at the old end
  gives the dotted name back.\<close>

theorem dns_d_push_expand:
  assumes "packet_ok P" "dict P ! 0 = 0" "list_all valid_label ls" "pend P + length (wire ls) \<le> psize P"
  shows "\<exists>P'. dns_d_push P (name_text ls) = Some (None, P') \<and> packet_ok P'
    \<and> pend P' = pend P + length (wire ls) \<and> take (pend P) (data P') = take (pend P) (data P)
    \<and> dns_d_expand dst (pend P) P' = Some (None, length (name_text ls),
        nul (blit dst 0 (name_text ls)) (length (name_text ls)))"
proof -
  define w where "w = wire ls"
  define Q where "Q = P\<lparr>data := take (pend P) (data P) @ w @ drop (pend P + length w) (data P), pend := pend P + length w\<rparr>"
  obtain i where push: "dns_d_push P (name_text ls) = Some (None, dict_set Q i (pend P))"
    using dns_d_push_plain [OF assms] by (auto simp: Q_def w_def)
  define P' where "P' = dict_set Q i (pend P)"
  have P': "data P' = data Q" "pend P' = pend Q" "length (dict P') = 16"
    using assms(1) by (auto simp: P'_def dict_set_def Q_def packet_ok_def split: option.split)
  have ok: "packet_ok P'"
    using assms P' by (auto simp: packet_ok_def psize_def Q_def w_def)
  have "name_at (data P') (pend P') 0 (pend P) ls"
    using assms P' by (intro name_at_wire) (auto simp: Q_def packet_ok_def psize_def w_def)
  then have "dns_d_expand dst (pend P) P' = Some (None, length (name_text ls),
        nul (blit dst 0 (name_text ls)) (length (name_text ls)))"
    using ok by (intro dns_d_expand_name) auto
  moreover have "take (pend P) (data P') = take (pend P) (data P)" "pend P' = pend P + length (wire ls)"
    using assms(1) P' by (auto simp: Q_def packet_ok_def psize_def w_def)
  ultimately show ?thesis using push ok P'_def by blast
qed

theorem dns_d_push_expand_witness:
  "let P = \<lparr>dict = replicate 16 0, qd = no_memo, an = no_memo, ns = no_memo, ar = no_memo,
            pend = 12, data = replicate 64 0\<rparr>
   in \<exists>P'. dns_d_push P [119, 46, 120, 121, 46] = Some (None, P') \<and> pend P' = 18
        \<and> dns_d_expand (replicate 10 0) 12 P' = Some (None, 5, [119, 46, 120, 121, 46, 0, 0, 0, 0, 0])"
proof -
  define P where "P = \<lparr>dict = replicate 16 0, qd = no_memo, an = no_memo, ns = no_memo, ar = no_memo,
    pend = 12, data = replicate 64 (0::u8)\<rparr>"
  have "packet_ok P" "dict P ! 0 = 0" "list_all valid_label [[119], [120, 121]]"
    "pend P + length (wire [[119], [120, 121]]) \<le> psize P"
    by (simp_all add: P_def packet_ok_def psize_def valid_label_def wire_def)
  note T = dns_d_push_expand [OF this, of "replicate 10 0"]
  have tx: "name_text [[119], [120, 121]] = [119, 46, 120, 121, 46]"
    by (simp add: name_text_def)
  have "nul (blit (replicate 10 0) 0 [119, 46, 120, 121, 46]) (length [119, 46, 120, 121, 46 :: u8]) = [119, 46, 120, 121, 46, 0, 0, 0, 0, 0 :: u8]"
    by code_simp
  then show ?thesis
    using T unfolding tx by (auto simp: P_def wire_def)
qed

section \<open>Compression\<close>

text \<open>Names that agree up to the case of ASCII letters.\<close>

definition same_label :: "bytes \<Rightarrow> bytes \<Rightarrow> bool" where
  "same_label l m \<longleftrightarrow> length l \<le> 63 \<and> length m \<le> 63 \<and> l \<noteq> [] \<and> m \<noteq> [] \<and>
     strcaseeq (l @ [0]) (m @ [0])"

lemma cstr_label: "length l < length d \<Longrightarrow> cstr (nul (blit d 0 l) (length l)) = cstr (l @ [0])"
proof -
  assume "length l < length d"
  then have "nul (blit d 0 l) (length l) = l @ 0 # drop (Suc (length l)) d"
    by (auto simp: nul_def blit_whole list_update_append upd_conv_take_nth_drop)
  then show ?thesis by (auto simp: cstr_def takeWhile_append)
qed

lemma strcaseeq_labels:
  "same_label l m \<Longrightarrow> length d = 64 \<Longrightarrow> length d' = 64 \<Longrightarrow>
    strcaseeq (nul (blit d 0 l) (length l)) (nul (blit d' 0 m) (length m))"
  by (simp add: same_label_def strcaseeq_def cstr_label)

text \<open>The innermost loop follows two equal names to their ends.\<close>

lemma match_loop:
  assumes "in_packet P" and "length W \<le> 65535"
  shows "list_all2 same_label la lb \<Longrightarrow> same_label l m \<Longrightarrow> length d = 64 \<Longrightarrow> length d' = 64
    \<Longrightarrow> name_at W (length W) 0 ay la \<Longrightarrow> name_at (data P) (pend P) 0 by' lb \<Longrightarrow>
    \<exists>al bl. loop (match_body W P) ((nul (blit d 0 l) (length l), length l, ay),
      (nul (blit d' 0 m) (length m), length m, by')) = Some ((al, 0), (bl, 0))"
proof (induction arbitrary: l m d d' ay by' rule: list_all2_induct)
  case Nil
  obtain x y u v where "l_expand 0 (nul (blit d 0 l) (length l)) ay W (length W) = Some (0, x, u)"
    "l_expand 0 (nul (blit d' 0 m) (length m)) by' (data P) (pend P) = Some (0, y, v)"
    using l_expand_name [OF Nil(4), of "nul (blit d 0 l) (length l)"]
      l_expand_name [OF Nil(5), of "nul (blit d' 0 m) (length m)"] assms by (auto simp: in_packet_def)
  then have "match_body W P ((nul (blit d 0 l) (length l), length l, ay), (nul (blit d' 0 m) (length m), length m, by'))
      = Some (Inl ((x, 0, u), (y, 0, v)))"
    using strcaseeq_labels [OF Nil(1-3)] Nil(1) by (simp add: match_body_def dns_l_expand_def same_label_def)
  moreover have "match_body W P ((x, 0, u), (y, 0, v)) = Some (Inr ((x, 0), (y, 0)))"
    by (simp add: match_body_def)
  ultimately show ?case by (simp add: loop_next loop_done)
next
  case (Cons l' la m' lb)
  let ?d = "nul (blit d 0 l) (length l)" and ?d' = "nul (blit d' 0 m) (length m)"
  obtain u v where "l_expand 0 ?d ay W (length W) = Some (length l', nul (blit ?d 0 l') (length l'), u)"
    "l_expand 0 ?d' by' (data P) (pend P) = Some (length m', nul (blit ?d' 0 m') (length m'), v)"
    and next_names: "name_at W (length W) 0 u la" "name_at (data P) (pend P) 0 v lb"
    using l_expand_name [OF Cons.prems(4), of ?d] l_expand_name [OF Cons.prems(5), of ?d'] assms
    by (auto simp: in_packet_def)
  then have "match_body W P ((?d, length l, ay), (?d', length m, by'))
      = Some (Inl ((nul (blit ?d 0 l') (length l'), length l', u), (nul (blit ?d' 0 m') (length m'), length m', v)))"
    using strcaseeq_labels [OF Cons.prems(1-3)] Cons.prems(1)
    by (simp add: match_body_def dns_l_expand_def same_label_def)
  then show ?case
    using Cons.IH [OF Cons.hyps(1), of ?d ?d' u v] Cons.prems(2,3) next_names by (simp add: loop_next)
qed

lemma dns_d_comp_hit:
  assumes "in_packet P" and "length d \<le> 65535" and "dict P = i # ds" and "0 < i" and "i \<le> 0x3fff"
    and "name_at (data P) (pend P) 0 i ms" and "list_all2 same_label ls ms" and "ls \<noteq> []"
    and "list_all valid_label ls" and "length (wire ls) < length d"
  shows "\<exists>d'. length d' = length d \<and> dns_d_comp d (name_text ls) P = Some (2, d') \<and>
    take 2 d' = [0xc0 OR (0x3f AND byte (i div 256)), byte i]"
proof -
  define W where "W = wire ls @ drop (length (wire ls)) d"
  have lenW: "length W = length d" using assms(10) by (simp add: W_def)
  obtain l la m mb where ls: "ls = l # la" and ms: "ms = m # mb" and lm: "same_label l m" "list_all2 same_label la mb"
    using assms(7,8) by (auto simp: list_all2_Cons1 neq_Nil_conv)
  let ?Z = "replicate 64 (0::u8)"
  let ?l = "nul (blit ?Z 0 l) (length l)" and ?m = "nul (blit ?Z 0 m) (length m)"
  have "name_at W (length W) 0 0 ls"
    using assms(9,10) by (intro name_at_wire) (auto simp: W_def)
  then obtain u v where u: "l_expand 0 ?Z 0 W (length W) = Some (length l, ?l, u)" "name_at W (length W) 0 u la"
    and v: "l_expand 0 ?Z i (data P) (pend P) = Some (length m, ?m, v)" "name_at (data P) (pend P) 0 v mb"
    using l_expand_name [of W "length W" 0 0 ls ?Z] l_expand_name [OF assms(6), of ?Z] assms(1,2) lenW
    by (auto simp: in_packet_def ls ms)
  obtain al bl where "loop (match_body W P) ((?l, length l, u), (?m, length m, v)) = Some ((al, 0), (bl, 0))"
    using match_loop [OF assms(1) _ lm(2,1) _ _ u(2) v(2), of ?Z ?Z] assms(2) lenW by auto
  then have "dict_body W P u ((?l, length l), ?Z, i) = Some (Inr (Some i, (al, 0), bl))"
    using v lm(1) assms(5) by (simp add: dict_body_def dns_l_expand_def same_label_def)
  then have "dict_scan W P u ((?l, length l), ?Z) (dict P) = Some (Some i, (al, 0), bl)"
    using assms(3,4) by (simp add: loop_done)
  then have "suffix_body W P (?Z, ?Z, 0) = Some (Inr (Some (0, i)))"
    using u lm(1) by (simp add: suffix_body_def dns_l_expand_def same_label_def)
  then have hit: "loop (suffix_body W P) (?Z, ?Z, 0) = Some (Some (0, i))"
    by (rule loop_done)
  have "2 \<le> length (wire ls)" using ls by (simp add: wire_def)
  then have "1 < length W" using lenW assms(10) by linarith
  then obtain a b rest where W: "W = a # b # rest"
    by (cases W; cases "tl W") auto
  have "comp_encode d (name_text ls) = (W, length (wire ls))"
    using assms(10) by (simp add: comp_encode_wire [OF assms(9)] blit_whole W_def)
  then have "dns_d_comp d (name_text ls) P =
      Some (2, (0xc0 OR (0x3f AND byte (i div 256))) # byte i # rest)"
    using assms(10) hit lenW unfolding W by (auto simp: dns_d_comp_def wr_def)
  then show ?thesis using lenW W by (simp add: numeral_2_eq_2)
qed

lemma pointer_bytes:
  assumes "i \<le> 0x3fff"
  shows "label_type (0xc0 OR (0x3f AND byte (i div 256))) = 3"
    and "label_ptr (0xc0 OR (0x3f AND byte (i div 256))) (byte i) = i"
proof -
  have "i div 256 \<le> 63" using assms by linarith
  then have "0x3f AND byte (i div 256) = byte (i div 256)"
    by (subst and.commute) simp
  moreover have "unat ((0xc0 :: u8) OR byte (i div 256)) = 192 + i div 256"
    using push_bit_or_add [of "i div 256" 6 3] \<open>i div 256 \<le> 63\<close>
    by (simp add: unsigned_or_eq)
  moreover have "(192 + i div 256) mod 64 = i div 256"
    using mod_mult_self3 [of 3 64 "i div 256"] \<open>i div 256 \<le> 63\<close> by simp
  ultimately show "label_type (0xc0 OR (0x3f AND byte (i div 256))) = 3"
    and "label_ptr (0xc0 OR (0x3f AND byte (i div 256))) (byte i) = i"
    using \<open>i div 256 \<le> 63\<close> assms by (simp_all add: label_type_eq label_ptr_eq)
qed

lemma name_at_fewer: "name_at buf e k i ls \<Longrightarrow> k' \<le> k \<Longrightarrow> name_at buf e k' i ls"
proof (induction arbitrary: k' rule: name_at.induct)
  case (root i k)
  then show ?case by (intro name_at.root)
next
  case (label i n ls k)
  then show ?case by (intro name_at.label)
next
  case (pointer i k ls)
  then show ?case by - (rule name_at.pointer, auto)
qed

lemma name_at_extend:
  assumes "name_at buf e k i ls" and "take e buf' = take e buf" and "e \<le> e'" and "e \<le> length buf" and "e \<le> length buf'"
  shows "name_at buf' e' k i ls"
  using assms(1)
proof (induction rule: name_at.induct)
  case (root i k)
  then have "buf' ! i = 0" using assms(2) by (metis nth_take)
  then show ?case using root assms(3) by (intro name_at.root) auto
next
  case (label i n ls k)
  then have "buf' ! i = buf ! i" using assms(2) by (metis nth_take)
  moreover have "take n (drop (i + 1) xs) = take n (drop (i + 1) (take e xs))" for xs :: bytes
    using label(5) by (simp add: drop_take min_def)
  from this [of buf] this [of buf'] assms(2)
  have "take n (drop (i + 1) buf') = take n (drop (i + 1) buf)" by simp
  ultimately show ?case
    using label assms(3) name_at.label [of i e' buf' n ls k] by simp
next
  case (pointer i k ls)
  then have "buf' ! i = buf ! i" "buf' ! (i + 1) = buf ! (i + 1)"
    using assms(2) nth_take [of i e buf] nth_take [of i e buf']
      nth_take [of "i + 1" e buf] nth_take [of "i + 1" e buf'] by auto
  then show ?case using pointer assms(3) by - (rule name_at.pointer, auto)
qed

text \<open>C20: compression. When the first name of the dictionary equals the name pushed, up to the
  case of letters, \<open>dns_d_push\<close> adds a two-byte pointer in place of the encoding, keeps the
  bytes before it, and the pointer expands to the name the dictionary holds.\<close>

theorem dns_d_push_compresses:
  assumes "packet_ok P" and "dict P ! 0 = i" and "0 < i" and "i \<le> 0x3fff"
    and "name_at (data P) (pend P) 1 i ms" and "list_all2 same_label ls ms" and "ls \<noteq> []"
    and "list_all valid_label ls" and "pend P + length (wire ls) < psize P"
  shows "\<exists>P'. dns_d_push P (name_text ls) = Some (None, P') \<and> pend P' = pend P + 2
    \<and> take (pend P) (data P') = take (pend P) (data P)
    \<and> dns_d_expand dst (pend P) P' = Some (None, length (name_text ms),
        nul (blit dst 0 (name_text ms)) (length (name_text ms)))"
proof -
  let ?p = "pend P" and ?d = "drop (pend P) (data P)"
  have P: "in_packet P" "u16 ?p = ?p" "?p \<le> length (data P)" using assms(1) by (auto simp: packet_ok_def psize_def)
  have room: "length (wire ls) < length ?d" "length ?d \<le> 65535"
    using assms(1,9) by (auto simp: packet_ok_def psize_def)
  obtain ds where ds: "dict P = i # ds"
    using assms(1,2) by (cases "dict P") (auto simp: packet_ok_def)
  obtain d' where d': "length d' = length ?d" "dns_d_comp ?d (name_text ls) P = Some (2, d')"
    "take 2 d' = [0xc0 OR (0x3f AND byte (i div 256)), byte i]"
    using dns_d_comp_hit [OF P(1) room(2) ds assms(3,4) name_at_fewer [OF assms(5), of 0] assms(6-8) room(1)]
    by auto
  define Q where "Q = P\<lparr>data := take ?p (data P) @ d', pend := ?p + 2\<rparr>"
  have Q: "in_packet Q" "2 \<le> length d'"
    using assms(1,9) d' by (auto simp: Q_def in_packet_def packet_ok_def psize_def wire_def)
  then obtain j where "dns_p_dictadd Q ?p = Some (dict_set Q j ?p)"
    using dns_p_dictadd_total [of Q ?p] P(2) unfolding in_packet_def by auto
  then have push: "dns_d_push P (name_text ls) = Some (None, dict_set Q j ?p)"
    using Q(2) d' P(3) by (simp add: dns_d_push_def Let_def Q_def psize_def)
  define P' where "P' = dict_set Q j ?p"
  have P': "data P' = data Q" "pend P' = ?p + 2" "in_packet P'" "take ?p (data P') = take ?p (data P)"
    using Q(1) P(3) by (auto simp: P'_def dict_set_def in_packet_def Q_def split: option.split)
  obtain a b rest where "d' = a # b # rest"
    using Q(2) by (cases d'; cases "tl d'") auto
  then have "d' = (0xc0 OR (0x3f AND byte (i div 256))) # byte i # rest"
    using d'(3) by simp
  then have bytes: "data P' ! ?p = 0xc0 OR (0x3f AND byte (i div 256))" "data P' ! (?p + 1) = byte i"
    using P(3) P'(1) by (simp_all add: Q_def nth_append)
  have "name_at (data P') (pend P') 1 i ms"
    using P P' by (intro name_at_extend [OF assms(5)]) (auto simp: in_packet_def)
  then have "name_at (data P') (pend P') 0 ?p ms"
    using P' bytes pointer_bytes [OF assms(4)] by - (rule name_at.pointer, auto)
  then show ?thesis
    using push P' dns_d_expand_name [OF P'(3)] unfolding P'_def by blast
qed

theorem dns_d_push_compresses_witness:
  "let P = \<lparr>dict = 12 # replicate 15 0, qd = no_memo, an = no_memo, ns = no_memo, ar = no_memo,
            pend = 15, data = replicate 12 0 @ [1, 97, 0] @ replicate 30 0\<rparr>
   in \<exists>P'. dns_d_push P [65, 46] = Some (None, P') \<and> pend P' = 17
        \<and> dns_d_expand (replicate 4 0) 15 P' = Some (None, 2, [97, 46, 0, 0])"
proof -
  define P where "P = \<lparr>dict = 12 # replicate 15 0, qd = no_memo, an = no_memo, ns = no_memo, ar = no_memo,
    pend = 15, data = replicate 12 0 @ [1, 97, 0] @ replicate 30 (0::u8)\<rparr>"
  have "name_at (data P) (pend P) 1 12 [[97]]"
    by (intro name_at_wire) (simp_all add: P_def valid_label_def wire_def byte_def)
  moreover have "list_all2 same_label [[65]] [[97]]"
    by (simp add: same_label_def strcaseeq_def cstr_def tolower8_def)
  moreover have "packet_ok P" "dict P ! 0 = 12" "list_all valid_label [[65]]" "pend P + length (wire [[65]]) < psize P"
    by (simp_all add: P_def packet_ok_def psize_def valid_label_def wire_def)
  ultimately have "\<exists>P'. dns_d_push P (name_text [[65]]) = Some (None, P') \<and> pend P' = pend P + 2
    \<and> dns_d_expand (replicate 4 0) (pend P) P' = Some (None, length (name_text [[97]]),
        nul (blit (replicate 4 0) 0 (name_text [[97]])) (length (name_text [[97]])))"
    using dns_d_push_compresses [of P 12 "[[97]]" "[[65]]" "replicate 4 0"] by auto
  moreover have "nul (blit (replicate 4 0) 0 (name_text [[97]])) (length (name_text [[97]])) = [97, 46, 0, 0]"
    "length (name_text [[97]]) = 2" "name_text [[65]] = [65, 46]"
    by code_simp+
  ultimately show ?thesis by (simp add: P_def)
qed

section \<open>A name that is encoded as another one\<close>

text \<open>
  The cursor of the name keeps the label of a partial match (the comment before
  \<open>match_body\<close>). The packet below holds the name \<open>x.c.y.y.\<close>; the search for \<open>x.y.\<close>
  first matches \<open>x\<close>, then compares the label \<open>y\<close> left over from that match with each
  later suffix and accepts \<open>y.y.\<close>.
\<close>

definition lab :: "bytes \<Rightarrow> u8 \<Rightarrow> bytes" where
  "lab d c = nul (blit d 0 [c]) 1"

lemma lab_props: "length d = 64 \<Longrightarrow> length (lab d c) = 64"
  "length d = 64 \<Longrightarrow> length d' = 64 \<Longrightarrow> c \<noteq> 0 \<Longrightarrow> c' \<noteq> 0 \<Longrightarrow>
    strcaseeq (lab d c) (lab d' c') \<longleftrightarrow> tolower8 c = tolower8 c'"
  using cstr_label [of "[c]" d] cstr_label [of "[c']" d']
  by (simp_all add: lab_def strcaseeq_def cstr_def)

lemma l_expand_lab:
  assumes "buf ! i = 1" "i + 2 \<le> e" "e \<le> length buf" "e \<le> 65535"
  shows "dns_l_expand d i buf e = Some (1, lab d (buf ! (i + 1)), i + 2)"
proof -
  have "label_type (buf ! i) = 0" "label_len (buf ! i) = 1"
    using assms(1) by (simp_all add: label_type_eq label_len_eq)
  moreover have "take 1 (drop (i + 1) buf) = [buf ! (i + 1)]"
    using assms by (simp add: take_Suc_conv_app_nth)
  ultimately show ?thesis
    using l_expand_label [of i e buf 1 0 d] assms by (simp add: dns_l_expand_def lab_def)
qed

lemma l_expand_root:
  assumes "buf ! i = 0" "i < e" "e \<le> length buf" "e \<le> 65535"
  shows "dns_l_expand d i buf e = Some (0, nul d 0, i + 1)"
  using assms l_expand_label [of i e buf 0 0 d] by (simp add: dns_l_expand_def)

definition bug_packet :: dns_packet where
  "bug_packet = \<lparr>dict = 12 # replicate 15 0, qd = no_memo, an = no_memo, ns = no_memo, ar = no_memo,
     pend = 21, data = replicate 12 0 @ [1, 120, 1, 99, 1, 121, 1, 121, 0] @ replicate 8 0\<rparr>"

lemma bug_search:
  assumes W: "W = [1, 120, 1, 121, 0, 0, 0, 0]"
  shows "loop (suffix_body W bug_packet) (replicate 64 0, replicate 64 0, 0) = Some (Some (0, 16))"
proof -
  let ?P = bug_packet and ?Z = "replicate 64 (0::u8)"
  have a: "dns_l_expand d 0 W (length W) = Some (1, lab d 120, 2)"
    "dns_l_expand d 2 W (length W) = Some (1, lab d 121, 4)"
    "dns_l_expand d 4 W (length W) = Some (0, nul d 0, 5)" for d
    using l_expand_lab [of W 0 "length W" d] l_expand_lab [of W 2 "length W" d] l_expand_root [of W 4 "length W" d]
    by (simp_all add: W)
  have b: "dns_l_expand d 12 (data ?P) (pend ?P) = Some (1, lab d 120, 14)"
    "dns_l_expand d 14 (data ?P) (pend ?P) = Some (1, lab d 99, 16)"
    "dns_l_expand d 16 (data ?P) (pend ?P) = Some (1, lab d 121, 18)"
    "dns_l_expand d 18 (data ?P) (pend ?P) = Some (1, lab d 121, 20)"
    "dns_l_expand d 20 (data ?P) (pend ?P) = Some (0, nul d 0, 21)" for d
    using l_expand_lab [of "data ?P" 12 21 d] l_expand_lab [of "data ?P" 14 21 d] l_expand_lab [of "data ?P" 16 21 d]
      l_expand_lab [of "data ?P" 18 21 d] l_expand_root [of "data ?P" 20 21 d]
    by (simp_all add: bug_packet_def nth_append)
  note ab = a b lab_props tolower8_def match_body_def
  have m1: "\<exists>al bl. loop (match_body W ?P) ((lab d 120, 1, 2), (lab d' 120, 1, 14)) = Some ((lab al 121, 1), (bl, 1))
      \<and> length al = 64 \<and> length bl = 64" if "length d = 64" "length d' = 64" for d d'
  proof -
    have "match_body W ?P ((lab d 120, 1, 2), (lab d' 120, 1, 14))
        = Some (Inl ((lab (lab d 120) 121, 1, 4), (lab (lab d' 120) 99, 1, 16)))"
      "match_body W ?P ((lab (lab d 120) 121, 1, 4), (lab (lab d' 120) 99, 1, 16))
        = Some (Inr ((lab (lab d 120) 121, 1), (lab (lab d' 120) 99, 1)))"
      using that by (simp_all add: ab del: One_nat_def)
    then have "loop (match_body W ?P) ((lab d 120, 1, 2), (lab d' 120, 1, 14))
        = Some ((lab (lab d 120) 121, 1), (lab (lab d' 120) 99, 1))"
      by (simp only: loop_next loop_done)
    then show ?thesis using that by (metis lab_props(1))
  qed
  have m2: "loop (match_body W ?P) ((lab d 121, 1, 2), (lab d' 99, 1, 16)) = Some ((lab d 121, 1), (lab d' 99, 1))"
    if "length d = 64" "length d' = 64" for d d'
    using that by (intro loop_done) (simp add: ab del: One_nat_def)
  have m3: "\<exists>al bl. loop (match_body W ?P) ((lab d 121, 1, 2), (lab d' 121, 1, 18)) = Some ((al, 0), (bl, 0))"
    if "length d = 64" "length d' = 64" for d d'
  proof -
    have "match_body W ?P ((lab d 121, 1, 2), (lab d' 121, 1, 18))
        = Some (Inl ((lab (lab d 121) 121, 1, 4), (lab (lab d' 121) 121, 1, 20)))"
      "match_body W ?P ((lab (lab d 121) 121, 1, 4), (lab (lab d' 121) 121, 1, 20))
        = Some (Inl ((nul (lab (lab d 121) 121) 0, 0, 5), (nul (lab (lab d' 121) 121) 0, 0, 21)))"
      "match_body W ?P ((nul (lab (lab d 121) 121) 0, 0, 5), (nul (lab (lab d' 121) 121) 0, 0, 21))
        = Some (Inr ((nul (lab (lab d 121) 121) 0, 0), (nul (lab (lab d' 121) 121) 0, 0)))"
      using that by (simp_all add: ab del: One_nat_def)
    then show ?thesis by (simp only: loop_next loop_done) blast
  qed
  obtain al bl where 1: "dict_body W ?P 2 ((lab ?Z 120, 1), ?Z, 12) = Some (Inl ((lab al 121, 1), bl, 14))"
    "length al = 64" "length bl = 64"
    using m1 [of ?Z ?Z] by (auto simp: dict_body_def b simp del: One_nat_def)
  have 2: "dict_body W ?P 2 ((lab al 121, 1), bl, 14) = Some (Inl ((lab al 121, 1), lab bl 99, 16))"
    using m2 [of al bl] 1 by (simp add: dict_body_def b del: One_nat_def)
  obtain al' bl' where 3: "dict_body W ?P 2 ((lab al 121, 1), lab bl 99, 16) = Some (Inr (Some 16, (al', 0), bl'))"
    using m3 [of al "lab bl 99"] 1 by (auto simp: dict_body_def b lab_props simp del: One_nat_def)
  have "dict_scan W ?P 2 ((lab ?Z 120, 1), ?Z) (dict ?P) = Some (Some 16, (al', 0), bl')"
    using 1(1) 2 3 by (simp add: bug_packet_def loop_next loop_done del: One_nat_def)
  then show ?thesis
    by (intro loop_done) (simp add: suffix_body_def a del: One_nat_def)
qed
text \<open>C36: after \<open>x.c.y.y.\<close>, pushing \<open>x.y.\<close> succeeds and stores a pointer to \<open>y.y.\<close>: the name
  read back is not the name pushed.\<close>

theorem dns_d_push_wrong_suffix:
  "\<exists>P'. packet_ok bug_packet \<and> name_at (data bug_packet) (pend bug_packet) 0 12 [[120], [99], [121], [121]]
    \<and> dns_d_push bug_packet (name_text [[120], [121]]) = Some (None, P')
    \<and> dns_d_expand (replicate 8 0) (pend bug_packet) P' = Some (None, 4, [121, 46, 121, 46, 0, 0, 0, 0])"
proof -
  let ?W = "[1, 120, 1, 121, 0, 0, 0, 0] :: bytes"
  define Q where "Q = bug_packet\<lparr>data := take 21 (data bug_packet) @ [0xc0, 16, 1, 121, 0, 0, 0, 0], pend := 23\<rparr>"
  have ok: "packet_ok bug_packet" "in_packet Q"
    by (simp_all add: packet_ok_def psize_def in_packet_def Q_def bug_packet_def)
  have "comp_encode (replicate 8 0) (name_text [[120], [121]]) = (?W, 5)"
    by (subst comp_encode_wire) (simp_all add: valid_label_def wire_def blit_whole byte_def numeral_3_eq_3)
  then have "dns_d_comp (replicate 8 0) (name_text [[120], [121]]) bug_packet = Some (2, [0xc0, 16, 1, 121, 0, 0, 0, 0])"
    by (simp add: dns_d_comp_def bug_search wr_def byte_def)
  moreover obtain j where "dns_p_dictadd Q 21 = Some (dict_set Q j 21)"
    using dns_p_dictadd_total [of Q 21] ok(2) by (auto simp: in_packet_def)
  ultimately have "dns_d_push bug_packet (name_text [[120], [121]]) = Some (None, dict_set Q j 21)"
    by (simp add: dns_d_push_def Q_def bug_packet_def psize_def Let_def)
  moreover define P' where "P' = dict_set Q j 21"
  have P': "data P' = data Q" "pend P' = 23" "in_packet P'"
    using ok(2) by (auto simp: P'_def dict_set_def Q_def in_packet_def split: option.split)
  have "name_at (data P') (pend P') 1 16 [[121], [121]]"
    unfolding P' by (rule name_at_wire) (simp_all add: Q_def bug_packet_def valid_label_def wire_def byte_def)
  then have "name_at (data P') (pend P') 0 21 [[121], [121]]"
    using P' by - (rule name_at.pointer, simp_all add: Q_def bug_packet_def nth_append label_type_eq label_ptr_eq)
  moreover have "nul (blit (replicate 8 0) 0 (name_text [[121], [121]])) (length (name_text [[121], [121]]))
      = [121, 46, 121, 46, 0, 0, 0, 0]" "length (name_text [[121], [121]]) = 4"
    by code_simp+
  moreover have "name_at (data bug_packet) (pend bug_packet) 0 12 [[120], [99], [121], [121]]"
    by (intro name_at_wire) (simp_all add: bug_packet_def valid_label_def wire_def byte_def)
  ultimately show ?thesis
    using ok(1) dns_d_expand_name [OF P'(3), of 21] by (auto simp: bug_packet_def P'_def)
qed

section \<open>Anchoring, cleaving and trimming\<close>

lemma dns_d_anchor_eq:
  "src \<noteq> [] \<Longrightarrow> dns_d_anchor dst src =
    (let t = (if last src = 46 then src else src @ [46]) in (length t, nul (blit dst 0 t) (length t)))"
  using blit_snoc [of dst 0 src 46]
  by (simp add: dns_d_anchor_def last_conv_nth Let_def)

lemma last_name_text: "name_text ls \<noteq> []" "last (name_text ls) = 46"
proof -
  have "ls \<noteq> [] \<Longrightarrow> name_text ls \<noteq> [] \<and> last (name_text ls) = 46"
    by (induction ls rule: rev_induct) (auto simp: name_text_def)
  then show "name_text ls \<noteq> []" "last (name_text ls) = 46"
    by (cases ls; simp add: name_text_def)+
qed

lemma dns_d_cleave_label:
  assumes "valid_label l"
  shows "dns_d_cleave dst (name_text (l # ls)) =
    (length (name_text ls), nul (blit dst 0 (name_text ls)) (length (name_text ls)))"
proof -
  obtain c l' where l: "l = c # l'" "46 \<notin> set l'"
    using assms by (cases l) (auto simp: valid_label_def)
  then have "dropWhile (\<lambda>c. c \<noteq> 46) (drop 1 (name_text (l # ls))) = 46 # concat (map (\<lambda>l. l @ [46]) ls)"
    by (simp add: name_text_def dropWhile_append)
  moreover have "ls \<noteq> [] \<Longrightarrow> 0 < length (concat (map (\<lambda>l. l @ [46]) ls))"
    by (cases ls) auto
  ultimately show ?thesis
    by (cases "ls = []") (auto simp: dns_d_cleave_def Let_def name_text_def)
qed

text \<open>\<open>dns_d_cleave\<close> removes the first label: the name without it, closed with a NUL and
  cut to the buffer, or the root for the last label. Cleaving the root leaves nothing, which
  is how walking up a name ends.\<close>

theorem dns_d_cleave_spec:
  assumes "valid_label l"
  shows "dns_d_cleave dst (name_text (l # ls)) =
      (length (name_text ls), nul (blit dst 0 (name_text ls)) (length (name_text ls)))
    \<and> dns_d_cleave dst (name_text []) = (0, dst)"
  using dns_d_cleave_label [OF assms] by (simp add: dns_d_cleave_def name_text_def)

theorem dns_d_cleave_spec_witness:
  "dns_d_cleave (replicate 6 0) [119, 46, 120, 46] = (2, [120, 46, 0, 0, 0, 0])"
proof -
  have "name_text [[119], [120]] = [119, 46, 120, 46]" "length (name_text [[120]]) = 2"
    "nul (blit (replicate 6 0) 0 (name_text [[120]])) (length (name_text [[120]])) = [120, 46, 0, 0, 0, 0]"
    by code_simp+
  then show ?thesis
    using dns_d_cleave_spec [of "[119]" "replicate 6 0" "[[120]]"] by (simp add: valid_label_def)
qed

lemma skip_dots_spec:
  assumes "len < length src"
  shows "sp \<le> len \<Longrightarrow> sp \<le> skip_dots src len sp \<and> skip_dots src len sp \<le> len
    \<and> filter (\<lambda>c. c \<noteq> 46) (take (len - sp) (drop sp src))
        = filter (\<lambda>c. c \<noteq> 46) (take (len - skip_dots src len sp) (drop (skip_dots src len sp) src))
    \<and> (skip_dots src len sp < len \<longrightarrow> src ! skip_dots src len sp \<noteq> 46)"
  using assms
proof (induction src len sp rule: skip_dots.induct)
  case (1 src len sp)
  show ?case
  proof (cases "sp < len \<and> src ! sp = 46")
    case True
    then have "take (len - sp) (drop sp src) = 46 # take (len - Suc sp) (drop (Suc sp) src)"
      using 1(3) by (metis Cons_nth_drop_Suc Suc_diff_Suc dual_order.strict_trans take_Suc_Cons)
    moreover have "skip_dots src len sp = skip_dots src len (sp + 1)"
      using True 1(3) by (simp add: skip_dots.simps [of src len sp])
    ultimately show ?thesis using 1(1) True 1(3) by auto
  next
    case False
    then have "skip_dots src len sp = sp"
      using 1(3) by (auto simp: skip_dots.simps [of src len sp])
    with False 1(2) show ?thesis by auto
  qed
qed

lemma trim_loop:
  assumes "len < length src"
  shows "sp \<le> len \<Longrightarrow> (sp < len \<longrightarrow> src ! sp \<noteq> 46) \<Longrightarrow>
    \<exists>lc. loop (trim_body src len) (blit dst 0 out, length out, sp, lc0) =
      (let t = out @ filter (\<lambda>c. c \<noteq> 46) (take (len - sp) (drop sp src))
       in Some (blit dst 0 t, length t, lc)) \<and> (sp < len \<longrightarrow> lc = src ! len) \<and> (sp = len \<longrightarrow> lc = lc0)"
proof (induction "len - sp" arbitrary: sp out lc0 rule: less_induct)
  case less
  show ?case
  proof (cases "sp < len")
    case False
    with less.prems have "sp = len" by simp
    then show ?thesis by (intro exI [of _ lc0]) (simp add: loop_done trim_body_def)
  next
    case True
    define sq where "sq = skip_dots src len (sp + 1)"
    note sq = skip_dots_spec [OF assms, of "sp + 1", folded sq_def]
    have le: "sp < sq" "sq \<le> len" "sq < len \<longrightarrow> src ! sq \<noteq> 46"
      and rest: "filter (\<lambda>c. c \<noteq> 46) (take (len - (sp + 1)) (drop (sp + 1) src))
        = filter (\<lambda>c. c \<noteq> 46) (take (len - sq) (drop sq src))"
      using sq True by auto
    have step: "trim_body src len (blit dst 0 out, length out, sp, lc0) =
        Some (Inl (blit dst 0 (out @ [src ! sp]), length (out @ [src ! sp]), sq, src ! sq))"
      using True le(2) assms blit_snoc [of dst 0 out "src ! sp"]
      by (simp add: trim_body_def sq_def Let_def)
    have "take (len - sp) (drop sp src) = src ! sp # take (len - (sp + 1)) (drop (sp + 1) src)"
      using True assms by (metis Cons_nth_drop_Suc Suc_diff_Suc Suc_eq_plus1 dual_order.strict_trans take_Suc_Cons)
    then have tx: "out @ filter (\<lambda>c. c \<noteq> 46) (take (len - sp) (drop sp src))
        = (out @ [src ! sp]) @ filter (\<lambda>c. c \<noteq> 46) (take (len - sq) (drop sq src))"
      using True less.prems(2) rest by simp
    have "len - sq < len - sp" using le(1) True by linarith
    from less.hyps [OF this le(2,3), of "out @ [src ! sp]" "src ! sq"] obtain lc where
      "loop (trim_body src len) (blit dst 0 (out @ [src ! sp]), length (out @ [src ! sp]), sq, src ! sq) =
      (let t = (out @ [src ! sp]) @ filter (\<lambda>c. c \<noteq> 46) (take (len - sq) (drop sq src))
       in Some (blit dst 0 t, length t, lc))" "lc = src ! len"
      using le(2) by (cases "sq < len") auto
    then show ?thesis
      using True unfolding loop_next [of "trim_body src len", OF step] tx by auto
  qed
qed

text \<open>\<open>dns_d_trim\<close> is meant to remove superfluous dots. On a NUL-terminated string it removes
  every dot, so the labels run together; with \<open>DNS_D_ANCHOR\<close> it then adds one dot at the
  end.\<close>

theorem dns_d_trim_drops_dots:
  assumes "len < length src" and "src ! len = 0"
  shows "dns_d_trim dst src len flags =
    (let t = filter (\<lambda>c. c \<noteq> 46) (take len src) @ (if flags AND 1 \<noteq> 0 then [46] else [])
     in Some (length t, nul (blit dst 0 t) (length t)))"
proof -
  define sp where "sp = skip_dots src len 0"
  define u where "u = filter (\<lambda>c. c \<noteq> 46) (take len src)"
  have sp: "sp \<le> len" "sp < len \<longrightarrow> src ! sp \<noteq> 46" and "u = filter (\<lambda>c. c \<noteq> 46) (take (len - sp) (drop sp src))"
    using skip_dots_spec [OF assms(1), of 0] by (auto simp: sp_def u_def)
  with trim_loop [OF assms(1) sp, of dst "[]" 0] obtain lc where
    "loop (trim_body src len) (dst, 0, sp, 0) = Some (blit dst 0 u, length u, lc)" "lc \<noteq> 46"
    using assms(2) by (cases "sp < len") (auto simp: Let_def)
  then show ?thesis
    using blit_snoc [of dst 0 u 46] by (simp add: dns_d_trim_def sp_def [symmetric] u_def [symmetric])
qed

theorem dns_d_trim_drops_dots_witness:
  "dns_d_trim (replicate 6 0) [97, 46, 98, 46, 0] 4 1 = Some (3, [97, 98, 46, 0, 0, 0])"
proof -
  have "nul (blit (replicate 6 0) 0 [97, 98, 46]) 3 = [97, 98, 46, 0, 0, 0 :: u8]"
    by code_simp
  then show ?thesis
    using dns_d_trim_drops_dots [of 4 "[97, 46, 98, 46, 0]" "replicate 6 0" 1]
    by (simp add: numeral_3_eq_3)
qed

end
