(* ===== verification/Dns_RR.thy ===== *)
theory Dns_RR
  imports Dns_Name
begin

unbundle bit_operations_syntax

text \<open>
  Resource records of \<^verbatim>\<open>src/src/c/dns/libdns/dns.c\<close>: finding the end of the question
  section, parsing and skipping a record, the section a record lies in, and the section offsets
  that a packet remembers (\<open>dns_p_study\<close>). The main result is that stepping from record to
  record always moves forward and stays inside the packet, so every scan of a packet ends.
\<close>

section \<open>Records\<close>

record dns_rr =
  rsection :: nat
  dnp :: nat
  dnlen :: nat
  rtype :: nat
  rclass :: nat
  rttl :: nat
  rdp :: nat
  rdlen :: nat

definition be16_at :: "dns_packet \<Rightarrow> nat \<Rightarrow> nat option" where
  "be16_at P p = do { a \<leftarrow> rd (data P) p; b \<leftarrow> rd (data P) (p + 1); Some (be16 a b) }"

definition ttl_at :: "dns_packet \<Rightarrow> nat \<Rightarrow> nat option" where
  "ttl_at P p = do {
     a \<leftarrow> rd (data P) p; b \<leftarrow> rd (data P) (p + 1);
     c \<leftarrow> rd (data P) (p + 2); d \<leftarrow> rd (data P) (p + 3);
     Some (be32 (0x7f AND a) b c d)
   }"

text \<open>The loop of \<open>dns_p_qend\<close>; the first argument counts the questions left.\<close>

fun qend_loop :: "dns_packet \<Rightarrow> nat \<Rightarrow> nat \<Rightarrow> nat option" where
  "qend_loop P 0 qend = Some (min qend (u16 (pend P)))"
| "qend_loop P (Suc n) qend =
     (if qend < pend P then do {
        qend \<leftarrow> dns_d_skip qend P;
        if pend P = qend then Some (u16 (pend P))
        else if sz_sub (pend P) qend < 4 then Some (u16 (pend P))
        else qend_loop P n (u16 (qend + 4))
      }
      else Some (min qend (u16 (pend P))))"

definition dns_p_qend :: "dns_packet \<Rightarrow> nat option" where
  "dns_p_qend P = qend_loop P (dns_p_count P DNS_S_QD) 12"

text \<open>\<open>dns_rr_parse\<close>: \<open>None\<close> inside is a record that the source rejects with
  \<open>DNS_EILLEGAL\<close>. The fields the source leaves alone on failure are not used by callers.\<close>

definition dns_rr_parse :: "nat \<Rightarrow> dns_packet \<Rightarrow> (dns_error + dns_rr) option" where
  "dns_rr_parse src P =
     (if pend P \<le> src then Some (Inl DNS_EILLEGAL)
      else do {
        p \<leftarrow> dns_d_skip src P;
        let dl = u16 (sz_sub p src);
        if sz_sub (pend P) p < 4 then Some (Inl DNS_EILLEGAL)
        else do {
          ty \<leftarrow> be16_at P p;
          cl \<leftarrow> be16_at P (p + 2);
          let p = u16 (p + 4);
          q \<leftarrow> dns_p_qend P;
          if src < q then
            Some (Inr \<lparr>rsection = DNS_S_QD, dnp = src, dnlen = dl, rtype = ty, rclass = cl,
                       rttl = 0, rdp = 0, rdlen = 0\<rparr>)
          else if sz_sub (pend P) p < 4 then Some (Inl DNS_EILLEGAL)
          else do {
            ttl \<leftarrow> ttl_at P p;
            let p = u16 (p + 4);
            if sz_sub (pend P) p < 2 then Some (Inl DNS_EILLEGAL)
            else do {
              len \<leftarrow> be16_at P p;
              let p = u16 (p + 2);
              if sz_sub (pend P) p < len then Some (Inl DNS_EILLEGAL)
              else Some (Inr \<lparr>rsection = 0, dnp = src, dnlen = dl, rtype = ty, rclass = cl,
                              rttl = ttl, rdp = p, rdlen = len\<rparr>)
            }
          }
        }
      })"

definition dns_rr_len :: "nat \<Rightarrow> dns_packet \<Rightarrow> nat option" where
  "dns_rr_len src P = do {
     rp \<leftarrow> dns_d_skip src P;
     let rest = u16 (sz_sub (pend P) src);
     if sz_sub (pend P) rp < 4 then Some rest
     else do {
       let rp = u16 (rp + 4);
       q \<leftarrow> dns_p_qend P;
       if rp \<le> q then Some (u16 (sz_sub rp src))
       else if sz_sub (pend P) rp < 6 then Some rest
       else do {
         let rp = u16 (rp + 6);
         len \<leftarrow> be16_at P (rp - 2);
         if sz_sub (pend P) rp < len then Some rest
         else Some (u16 (sz_sub (u16 (rp + len)) src))
       }
     }
   }"

definition dns_rr_skip :: "nat \<Rightarrow> dns_packet \<Rightarrow> nat option" where
  "dns_rr_skip src P = do { n \<leftarrow> dns_rr_len src P; Some (u16 (src + n)) }"

section \<open>Sections\<close>

definition in_memo :: "nat \<Rightarrow> dns_s_memo \<Rightarrow> bool" where
  "in_memo src m \<longleftrightarrow> base m \<le> src \<and> src < mend m"

definition index_body :: "dns_packet \<Rightarrow> nat \<Rightarrow> nat \<times> nat \<Rightarrow> ((nat \<times> nat) + nat) option" where
  "index_body P src = (\<lambda>(rp, index).
     if rp < src \<and> rp < pend P then do { rp \<leftarrow> dns_rr_skip rp P; Some (Inl (rp, index + 1)) }
     else Some (Inr index))"

text \<open>The second loop of \<open>dns_rr_section\<close>; the section shifts left at most until it has passed
  \<open>DNS_S_AR\<close>.\<close>

function section_loop :: "dns_packet \<Rightarrow> nat \<Rightarrow> nat \<Rightarrow> nat \<Rightarrow> nat" where
  "section_loop P index sec count =
     (if count \<le> index \<and> sec \<le> DNS_S_AR \<and> 0 < sec
      then section_loop P index (2 * sec) (count + dns_p_count P (2 * sec))
      else sec)"
  by pat_completeness auto
termination
  by (relation "measure (\<lambda>(_, _, sec, _). 9 - sec)") auto

declare section_loop.simps [simp del]

definition dns_rr_section :: "nat \<Rightarrow> dns_packet \<Rightarrow> nat option" where
  "dns_rr_section src P =
     (if in_memo src (qd P) then Some DNS_S_QD
      else if in_memo src (an P) then Some DNS_S_AN
      else if in_memo src (ns P) then Some DNS_S_NS
      else if in_memo src (ar P) then Some DNS_S_AR
      else do {
        index \<leftarrow> loop (index_body P src) (12, 0);
        Some (DNS_S_ALL AND section_loop P index DNS_S_QD (dns_p_count P DNS_S_QD))
      })"

definition dns_rr_type :: "nat \<Rightarrow> dns_packet \<Rightarrow> nat option" where
  "dns_rr_type src P = do {
     r \<leftarrow> dns_rr_parse src P;
     Some (case r of Inl _ \<Rightarrow> 0 | Inr rr \<Rightarrow> rtype rr)
   }"

definition dns_rr_offset :: "dns_rr \<Rightarrow> nat" where
  "dns_rr_offset rr = dnp rr"

section \<open>Studying a packet\<close>

definition dns_s_unstudy :: dns_s_memo where
  "dns_s_unstudy = \<lparr>base = 0, mend = 0\<rparr>"

definition dns_p_unstudy :: "dns_packet \<Rightarrow> dns_packet" where
  "dns_p_unstudy P = P\<lparr>qd := dns_s_unstudy, an := dns_s_unstudy, ns := dns_s_unstudy, ar := dns_s_unstudy\<rparr>"

fun study_loop :: "dns_packet \<Rightarrow> nat \<Rightarrow> nat \<Rightarrow> nat option" where
  "study_loop P 0 rp = Some rp"
| "study_loop P (Suc n) rp =
     (if rp < pend P then do { rp \<leftarrow> dns_rr_skip rp P; study_loop P n rp } else Some rp)"

definition dns_s_study :: "nat \<Rightarrow> nat \<Rightarrow> dns_packet \<Rightarrow> dns_s_memo option" where
  "dns_s_study section bs P = do {
     rp \<leftarrow> study_loop P (u16 (dns_p_count P section)) (u16 bs);
     Some \<lparr>base = u16 bs, mend = rp\<rparr>
   }"

text \<open>\<open>dns_s_study\<close> always returns 0 in the source, so the error branch of \<open>dns_p_study\<close> is
  never taken.\<close>

definition dns_p_study :: "dns_packet \<Rightarrow> dns_packet option" where
  "dns_p_study P = do {
     m \<leftarrow> dns_s_study DNS_S_QD 12 P;
     let P = P\<lparr>qd := m\<rparr>;
     m \<leftarrow> dns_s_study DNS_S_AN (mend (qd P)) P;
     let P = P\<lparr>an := m\<rparr>;
     m \<leftarrow> dns_s_study DNS_S_NS (mend (an P)) P;
     let P = P\<lparr>ns := m\<rparr>;
     m \<leftarrow> dns_s_study DNS_S_AR (mend (ns P)) P;
     Some (P\<lparr>ar := m\<rparr>)
   }"

section \<open>Scans stay inside the packet\<close>

lemma ttl_less: "be32 (0x7f AND a) b c d < 2147483648"
proof -
  have "unat (0x7f AND a) = unat a mod 128"
    using unat_and_mask [of 7 a] by (simp add: mask_eq_exp_minus_1)
  then have "unat (0x7f AND a) \<le> 127" by (simp add: Suc_le_eq flip: less_Suc_eq_le)
  moreover have "unat b \<le> 255" using unat_u8_less [of b] by linarith
  ultimately have ab: "unat (0x7f AND a) * 256 + unat b \<le> 32767" by linarith
  have step: "x * 256 + unat e \<le> 256 * m + 255" if "x \<le> m" for x m :: nat and e :: u8
    using that unat_u8_less [of e] by linarith
  show ?thesis
    unfolding be32_eq by (rule order_le_less_trans [OF step [OF step [OF ab]]]) simp
qed

lemma be16_at_in: "p + 1 < length (data P) \<Longrightarrow> be16_at P p = Some (be16 (data P ! p) (data P ! (p + 1)))"
  by (simp add: be16_at_def)

lemma be16_at_ex: "p + 1 < length (data P) \<Longrightarrow> \<exists>v. be16_at P p = Some v \<and> v < 65536"
  using be16_less by (simp add: be16_at_in)

lemma ttl_at_ex: "p + 3 < length (data P) \<Longrightarrow> \<exists>v. ttl_at P p = Some v \<and> v < 2147483648"
  using ttl_less by (simp add: ttl_at_def)

lemma qend_loop_bounds:
  assumes "in_packet P"
  shows "\<exists>q. qend_loop P n q0 = Some q \<and> q \<le> pend P"
proof (induction n arbitrary: q0)
  case 0
  then show ?case using assms by (simp add: in_packet_def)
next
  case (Suc n)
  obtain j where j: "dns_d_skip q0 P = Some j" "j \<le> pend P"
    using dns_d_skip_bounds [OF assms] by blast
  then show ?case
    using Suc.IH [of "u16 (j + 4)"] assms by (auto simp: in_packet_def)
qed

lemma dns_p_qend_bounds: "in_packet P \<Longrightarrow> \<exists>q. dns_p_qend P = Some q \<and> q \<le> pend P"
  unfolding dns_p_qend_def by (rule qend_loop_bounds)

lemma dns_rr_len_bounds:
  assumes "in_packet P" and "src < pend P"
  shows "\<exists>n. dns_rr_len src P = Some n \<and> 0 < n \<and> src + n \<le> pend P"
proof -
  obtain rp where rp: "dns_d_skip src P = Some rp" "rp \<le> pend P" "src < rp"
    using dns_d_skip_bounds [OF assms(1), of src] assms(2) by blast
  obtain q where q: "dns_p_qend P = Some q" "q \<le> pend P"
    using dns_p_qend_bounds [OF assms(1)] by blast
  have sz: "pend P \<le> length (data P)" "pend P \<le> 65535"
    using assms(1) by (auto simp: in_packet_def)
  consider "pend P - rp < 4" | "4 \<le> pend P - rp" "rp + 4 \<le> q" | "4 \<le> pend P - rp" "q < rp + 4" "pend P - (rp + 4) < 6"
    | "q < rp + 4" "rp + 10 \<le> pend P" by linarith
  then show ?thesis
  proof cases
    case 4
    then obtain v where "be16_at P (8 + rp) = Some v"
      using be16_at_ex [of "8 + rp" P] sz by auto
    then show ?thesis
      using rp q sz assms(2) 4 by (auto simp: dns_rr_len_def Let_def)
  qed (use rp q sz assms(2) in \<open>auto simp: dns_rr_len_def Let_def\<close>)
qed

lemma dns_rr_skip_bounds:
  assumes "in_packet P" and "src < pend P"
  shows "\<exists>j. dns_rr_skip src P = Some j \<and> src < j \<and> j \<le> pend P"
  using dns_rr_len_bounds [OF assms] assms(1) by (auto simp: dns_rr_skip_def in_packet_def)

text \<open>What a parsed record promises: its name and its data lie inside the packet.\<close>

definition rr_ok :: "dns_packet \<Rightarrow> dns_rr \<Rightarrow> bool" where
  "rr_ok P rr \<longleftrightarrow> dnp rr < pend P \<and> 0 < dnlen rr \<and> dnp rr + dnlen rr + 4 \<le> pend P
     \<and> rdp rr + rdlen rr \<le> pend P \<and> rtype rr < 65536 \<and> rclass rr < 65536 \<and> rttl rr < 2147483648 \<and> rdlen rr < 65536"

lemma dns_rr_parse_total:
  assumes "in_packet P"
  shows "\<exists>r. dns_rr_parse src P = Some r \<and>
    (\<forall>rr. r = Inr rr \<longrightarrow> rr_ok P rr \<and> dnp rr = src \<and> dns_d_skip src P = Some (src + dnlen rr)
      \<and> (rsection rr = 0 \<longrightarrow> rdp rr = src + dnlen rr + 10 \<and> dns_rr_skip src P = Some (rdp rr + rdlen rr)))"
proof (cases "src < pend P")
  case False
  then show ?thesis by (simp add: dns_rr_parse_def)
next
  case True
  obtain p where p: "dns_d_skip src P = Some p" "p \<le> pend P" "src < p"
    using dns_d_skip_bounds [OF assms, of src] True by blast
  obtain q where q: "dns_p_qend P = Some q" "q \<le> pend P"
    using dns_p_qend_bounds [OF assms] by blast
  have sz: "pend P \<le> length (data P)" "pend P \<le> 65535"
    using assms by (auto simp: in_packet_def)
  note facts = p q sz True
  consider "pend P - p < 4" | "p + 4 \<le> pend P" by linarith
  then show ?thesis
  proof cases
    case 1
    then show ?thesis using facts by (auto simp: dns_rr_parse_def Let_def)
  next
    case 2
    then obtain ty cl where at: "be16_at P p = Some ty" "ty < 65536" "be16_at P (p + 2) = Some cl" "cl < 65536"
      using be16_at_ex [of p P] be16_at_ex [of "p + 2" P] sz by auto
    consider "src < q" | "q \<le> src" "pend P - (p + 4) < 4" | "p + 8 \<le> pend P" "q \<le> src" "pend P - (p + 8) < 2"
      | "q \<le> src" "p + 10 \<le> pend P" by linarith
    then show ?thesis
    proof cases
      case 3
      then obtain ttl where "ttl_at P (p + 4) = Some ttl" using ttl_at_ex [of "p + 4" P] sz by auto
      then show ?thesis using facts at 2 3 by (auto simp: dns_rr_parse_def Let_def)
    next
      case 4
      then obtain ttl n where "ttl_at P (p + 4) = Some ttl" "ttl < 2147483648" "be16_at P (8 + p) = Some n" "n < 65536"
        using be16_at_ex [of "8 + p" P] ttl_at_ex [of "p + 4" P] sz by auto
      then show ?thesis
        using facts at 4 by (auto simp: dns_rr_parse_def dns_rr_len_def dns_rr_skip_def rr_ok_def Let_def)
    qed (use facts at 2 in \<open>auto simp: dns_rr_parse_def rr_ok_def Let_def\<close>)
  qed
qed

text \<open>C27: every step from record to record of a well-formed packet returns, moves forward and
  stays inside the packet; so a scan of the packet visits at most as many records as it has
  bytes.\<close>

theorem dns_rr_skip_progress:
  assumes "packet_ok P" and "src < pend P"
  shows "\<exists>j. dns_rr_skip src P = Some j \<and> src < j \<and> j \<le> pend P"
  using dns_rr_skip_bounds [of P src] assms by blast

theorem dns_rr_skip_progress_witness:
  "packet_ok (packet_of [1, 97, 0, 0, 1, 0, 1]) \<and> 12 < pend (packet_of [1, 97, 0, 0, 1, 0, 1]) \<and>
   (\<exists>j. dns_rr_skip 12 (packet_of [1, 97, 0, 0, 1, 0, 1]) = Some j \<and> 12 < j \<and> j \<le> 19)"
proof -
  have ok: "packet_ok (packet_of [1, 97, 0, 0, 1, 0, 1])" by (rule packet_of_ok) simp
  then show ?thesis
    using dns_rr_skip_progress [OF ok, of 12] by simp
qed

text \<open>C22: \<open>dns_rr_parse\<close> returns for every offset, never reads outside the packet, and a record
  it accepts lies inside the packet: its name begins at the offset asked for, the name and the
  data end before \<open>end\<close>, the numbers have their widths; the data of a record outside the
  question section follows its ten fixed bytes and ends where \<open>dns_rr_skip\<close> goes on.\<close>

theorem dns_rr_parse_spec:
  assumes "packet_ok P"
  shows "\<exists>r. dns_rr_parse src P = Some r \<and>
    (\<forall>rr. r = Inr rr \<longrightarrow> rr_ok P rr \<and> dnp rr = src \<and> dns_d_skip src P = Some (src + dnlen rr)
      \<and> (rsection rr = 0 \<longrightarrow> rdp rr = src + dnlen rr + 10 \<and> dns_rr_skip src P = Some (rdp rr + rdlen rr)))"
  using dns_rr_parse_total [of P src] assms by blast

theorem dns_rr_parse_spec_witness:
  "packet_ok (packet_of [0, 0, 1, 0, 1, 0, 0, 0, 9, 0, 1, 7]) \<and>
   (\<exists>r. dns_rr_parse 12 (packet_of [0, 0, 1, 0, 1, 0, 0, 0, 9, 0, 1, 7]) = Some r)"
proof -
  have ok: "packet_ok (packet_of [0, 0, 1, 0, 1, 0, 0, 0, 9, 0, 1, 7])" by (rule packet_of_ok) simp
  then show ?thesis
    using dns_rr_parse_spec [OF ok, of 12] by blast
qed

section \<open>The records of a packet\<close>

text \<open>The offsets of the records of a packet, in packet order.\<close>

function rr_offsets_from :: "dns_packet \<Rightarrow> nat \<Rightarrow> nat list" where
  "rr_offsets_from P rp =
     (if rp < pend P
      then case dns_rr_skip rp P of
             Some j \<Rightarrow> if rp < j then rp # rr_offsets_from P j else [rp]
           | None \<Rightarrow> [rp]
      else [])"
  by pat_completeness auto
termination
  by (relation "measure (\<lambda>(P, rp). pend P - rp)") auto

declare rr_offsets_from.simps [simp del]

definition rr_offsets :: "dns_packet \<Rightarrow> nat list" where
  "rr_offsets P = rr_offsets_from P 12"

lemma offsets_end: "pend P \<le> rp \<Longrightarrow> rr_offsets_from P rp = []"
  by (simp add: rr_offsets_from.simps)

lemma offsets_step:
  "in_packet P \<Longrightarrow> rp < pend P \<Longrightarrow>
    \<exists>j. dns_rr_skip rp P = Some j \<and> rp < j \<and> j \<le> pend P \<and> rr_offsets_from P rp = rp # rr_offsets_from P j"
  using dns_rr_skip_bounds [of P rp] by (auto simp: rr_offsets_from.simps [of P rp])

lemma offsets_less: "x \<in> set (rr_offsets_from P rp) \<Longrightarrow> rp \<le> x \<and> x < pend P"
proof (induction P rp rule: rr_offsets_from.induct)
  case (1 P rp)
  then show ?case
    by (subst (asm) (2) rr_offsets_from.simps) (force split: if_splits option.splits)
qed

lemma offsets_sorted: "sorted_wrt (<) (rr_offsets_from P rp)"
proof (induction P rp rule: rr_offsets_from.induct)
  case (1 P rp)
  have "\<And>j x. rp < j \<Longrightarrow> x \<in> set (rr_offsets_from P j) \<Longrightarrow> rp < x"
    using offsets_less by fastforce
  with 1 show ?case
    by (subst rr_offsets_from.simps) (auto split: option.splits)
qed

lemma index_loop:
  assumes "in_packet P"
  shows "k < length (rr_offsets_from P rp) \<Longrightarrow> src = rr_offsets_from P rp ! k \<Longrightarrow>
    loop (index_body P src) (rp, i) = Some (i + k)"
proof (induction k arbitrary: rp i)
  case 0
  then have "rp < pend P" by (cases "rp < pend P") (auto simp: offsets_end)
  then have "src = rp" using 0 offsets_step [OF assms, of rp] by auto
  then show ?case by (intro loop_done) (simp add: index_body_def)
next
  case (Suc k)
  then have rp: "rp < pend P" by (cases "rp < pend P") (auto simp: offsets_end)
  obtain j where j: "dns_rr_skip rp P = Some j" "rp < j" "rr_offsets_from P rp = rp # rr_offsets_from P j"
    using offsets_step [OF assms rp] by blast
  then have k: "k < length (rr_offsets_from P j)" "src = rr_offsets_from P j ! k"
    using Suc.prems by auto
  then have "j \<le> src" using offsets_less [of src P j] by simp
  then have "index_body P src (rp, i) = Some (Inl (j, i + 1))"
    using j rp by (simp add: index_body_def)
  then show ?case using Suc.IH [OF k, of "i + 1"] by (simp add: loop_next)
qed

text \<open>The section of the record with a given index, by the counters of the header.\<close>

definition section_of :: "dns_packet \<Rightarrow> nat \<Rightarrow> nat" where
  "section_of P k =
     (if k < hdr16 P 4 then DNS_S_QD
      else if k < hdr16 P 4 + hdr16 P 6 then DNS_S_AN
      else if k < hdr16 P 4 + hdr16 P 6 + hdr16 P 8 then DNS_S_NS
      else if k < hdr16 P 4 + hdr16 P 6 + hdr16 P 8 + hdr16 P 10 then DNS_S_AR
      else 0)"

lemma section_loop_eq:
  "DNS_S_ALL AND section_loop P k DNS_S_QD (dns_p_count P DNS_S_QD) = section_of P k"
  by (simp add: section_loop.simps section_of_def dns_p_count_def)

text \<open>C23: in a packet that has not been studied, \<open>dns_rr_section\<close> at the offset of the
  \<open>k\<close>-th record is the section that the header counters give to record number \<open>k\<close>.\<close>

theorem dns_rr_section_spec:
  assumes "packet_ok P" and "qd P = no_memo" and "an P = no_memo" and "ns P = no_memo" and "ar P = no_memo"
    and "k < length (rr_offsets P)"
  shows "dns_rr_section (rr_offsets P ! k) P = Some (section_of P k)"
proof -
  have "loop (index_body P (rr_offsets P ! k)) (12, 0) = Some k"
    using index_loop [of P k 12 _ 0] assms(1,6) by (auto simp: rr_offsets_def)
  moreover have "\<not> in_memo (rr_offsets P ! k) no_memo"
    by (simp add: in_memo_def no_memo_def)
  ultimately show ?thesis
    using assms(2-5) section_loop_eq [of P k] by (simp add: dns_rr_section_def)
qed

theorem dns_rr_section_spec_witness:
  "let P = \<lparr>dict = replicate 16 0, qd = no_memo, an = no_memo, ns = no_memo, ar = no_memo, pend = 17,
            data = [0, 0, 0, 0, 0, 1, 0, 0, 0, 0, 0, 0] @ [0, 0, 1, 0, 1]\<rparr>
   in packet_ok P \<and> 0 < length (rr_offsets P) \<and> dns_rr_section (rr_offsets P ! 0) P = Some DNS_S_QD"
proof -
  define P where "P = \<lparr>dict = replicate 16 0, qd = no_memo, an = no_memo, ns = no_memo, ar = no_memo, pend = 17,
    data = [0, 0, 0, 0, 0, 1, 0, 0, 0, 0, 0, 0] @ [0, 0, 1, 0, 1 :: u8]\<rparr>"
  have ok: "packet_ok P" by (simp add: P_def packet_ok_def psize_def)
  have "in_packet P" "12 < pend P" by (simp_all add: P_def in_packet_def)
  from offsets_step [OF this] have len: "0 < length (rr_offsets P)"
    by (auto simp: rr_offsets_def)
  have "section_of P 0 = DNS_S_QD"
    by (simp add: section_of_def hdr16_def P_def be16_eq)
  with dns_rr_section_spec [OF ok _ _ _ _ len] ok len show ?thesis
    by (simp add: P_def)
qed

lemma study_loop_bounds:
  assumes "in_packet P"
  shows "rp \<le> pend P \<Longrightarrow> \<exists>q. study_loop P n rp = Some q \<and> rp \<le> q \<and> q \<le> pend P"
proof (induction n arbitrary: rp)
  case (Suc n)
  show ?case
  proof (cases "rp < pend P")
    case True
    then obtain j where "dns_rr_skip rp P = Some j" "rp < j" "j \<le> pend P"
      using dns_rr_skip_bounds [OF assms] by blast
    then show ?thesis using Suc.IH [of j] by auto
  qed (use Suc.prems in simp)
qed simp

lemma dns_s_study_bounds:
  assumes "in_packet P" and "bs \<le> pend P"
  shows "\<exists>q. dns_s_study sec bs P = Some \<lparr>base = bs, mend = q\<rparr> \<and> bs \<le> q \<and> q \<le> pend P"
  using study_loop_bounds [OF assms, of "u16 (dns_p_count P sec)"] assms
  by (auto simp: dns_s_study_def in_packet_def)

lemma in_packet_memo [simp]:
  "in_packet (P\<lparr>qd := m\<rparr>) = in_packet P" "in_packet (P\<lparr>an := m\<rparr>) = in_packet P"
  "in_packet (P\<lparr>ns := m\<rparr>) = in_packet P" "in_packet (P\<lparr>ar := m\<rparr>) = in_packet P"
  by (simp_all add: in_packet_def)

lemma study_memos:
  assumes "packet_ok P"
  shows "\<exists>a b c d. dns_p_study P = Some (P\<lparr>qd := \<lparr>base = 12, mend = a\<rparr>, an := \<lparr>base = a, mend = b\<rparr>,
      ns := \<lparr>base = b, mend = c\<rparr>, ar := \<lparr>base = c, mend = d\<rparr>\<rparr>)
    \<and> 12 \<le> a \<and> a \<le> b \<and> b \<le> c \<and> c \<le> d \<and> d \<le> pend P"
proof -
  have P: "in_packet P" "12 \<le> pend P" using assms by (auto simp: packet_ok_def)
  obtain a where a: "dns_s_study DNS_S_QD 12 P = Some \<lparr>base = 12, mend = a\<rparr>" "12 \<le> a" "a \<le> pend P"
    using dns_s_study_bounds [OF P] by blast
  let ?A = "P\<lparr>qd := \<lparr>base = 12, mend = a\<rparr>\<rparr>"
  obtain b where b: "dns_s_study DNS_S_AN a ?A = Some \<lparr>base = a, mend = b\<rparr>" "a \<le> b" "b \<le> pend P"
    using dns_s_study_bounds [of ?A a DNS_S_AN] P a by auto
  let ?B = "?A\<lparr>an := \<lparr>base = a, mend = b\<rparr>\<rparr>"
  obtain c where c: "dns_s_study DNS_S_NS b ?B = Some \<lparr>base = b, mend = c\<rparr>" "b \<le> c" "c \<le> pend P"
    using dns_s_study_bounds [of ?B b DNS_S_NS] P b by auto
  let ?C = "?B\<lparr>ns := \<lparr>base = b, mend = c\<rparr>\<rparr>"
  obtain d where d: "dns_s_study DNS_S_AR c ?C = Some \<lparr>base = c, mend = d\<rparr>" "c \<le> d" "d \<le> pend P"
    using dns_s_study_bounds [of ?C c DNS_S_AR] P c by auto
  show ?thesis using a b c d by (auto simp: dns_p_study_def)
qed

text \<open>The offsets only depend on the bytes of the packet.\<close>

lemma rr_skip_cong:
  assumes "data Q = data P" "pend Q = pend P"
  shows "dns_rr_skip src Q = dns_rr_skip src P"
proof -
  have d: "dns_d_skip i Q = dns_d_skip i P" for i
  proof -
    have "d_skip_body Q = d_skip_body P"
      unfolding fun_eq_iff d_skip_body_def assms by simp
    then show ?thesis by (simp add: dns_d_skip_def)
  qed
  have "qend_loop Q n i = qend_loop P n i" for n i
  proof (induction n arbitrary: i)
    case (Suc n)
    then have q: "qend_loop Q n = qend_loop P n" by blast
    show ?case unfolding qend_loop.simps assms d q ..
  qed (simp add: assms)
  then have q: "dns_p_qend Q = dns_p_qend P"
    using assms by (simp add: dns_p_qend_def dns_p_count_def hdr16_def)
  show ?thesis
    unfolding dns_rr_skip_def dns_rr_len_def be16_at_def assms d q ..
qed

lemma study_loop_cong:
  assumes "data Q = data P" "pend Q = pend P"
  shows "study_loop Q n rp = study_loop P n rp"
proof (induction n arbitrary: rp)
  case (Suc n)
  then have "study_loop Q n = study_loop P n" by blast
  then show ?case by (simp add: assms rr_skip_cong [OF assms])
qed simp

text \<open>Where record number \<open>k\<close> starts when the records are counted from \<open>rp\<close>; the end of the packet
  if it has no such record.\<close>

definition record_from :: "dns_packet \<Rightarrow> nat \<Rightarrow> nat \<Rightarrow> nat" where
  "record_from P rp k =
     (let offsets = rr_offsets_from P rp in if k < length offsets then offsets ! k else pend P)"

definition record_start :: "dns_packet \<Rightarrow> nat \<Rightarrow> nat" where
  "record_start P k = (if k < length (rr_offsets P) then rr_offsets P ! k else pend P)"

lemma record_start_from: "record_start P k = record_from P 12 k"
  by (simp add: record_start_def record_from_def rr_offsets_def)

lemma record_from_0: "in_packet P \<Longrightarrow> rp \<le> pend P \<Longrightarrow> record_from P rp 0 = rp"
  using offsets_step [of P rp] by (cases "rp < pend P") (auto simp: record_from_def offsets_end)

lemma record_from_Suc:
  "in_packet P \<Longrightarrow> rp < pend P \<Longrightarrow> dns_rr_skip rp P = Some j \<Longrightarrow> record_from P rp (Suc k) = record_from P j k"
  using offsets_step [of P rp] by (auto simp: record_from_def)

lemma record_from_end: "pend P \<le> rp \<Longrightarrow> record_from P rp k = pend P"
  by (simp add: record_from_def offsets_end)

lemma study_loop_record:
  assumes "in_packet P"
  shows "rp \<le> pend P \<Longrightarrow> study_loop P n rp = Some (record_from P rp n)"
proof (induction n arbitrary: rp)
  case 0
  then show ?case by (simp add: record_from_0 [OF assms])
next
  case (Suc n)
  show ?case
  proof (cases "rp < pend P")
    case True
    then obtain j where "dns_rr_skip rp P = Some j" "j \<le> pend P"
      using dns_rr_skip_bounds [OF assms] by blast
    with Suc.IH [of j] True show ?thesis by (simp add: record_from_Suc [OF assms])
  next
    case False
    with Suc.prems show ?thesis by (simp add: record_from_end)
  qed
qed

lemma record_from_add:
  assumes "in_packet P"
  shows "rp \<le> pend P \<Longrightarrow> record_from P (record_from P rp m) n = record_from P rp (m + n)"
proof (induction m arbitrary: rp)
  case 0
  then show ?case by (simp add: record_from_0 [OF assms])
next
  case (Suc m)
  show ?case
  proof (cases "rp < pend P")
    case True
    then obtain j where "dns_rr_skip rp P = Some j" "j \<le> pend P"
      using dns_rr_skip_bounds [OF assms] by blast
    with Suc.IH [of j] True show ?thesis by (simp add: record_from_Suc [OF assms])
  next
    case False
    with Suc.prems show ?thesis by (simp add: record_from_end)
  qed
qed

lemma record_start_le: "record_start P k \<le> pend P"
  using offsets_less [of "rr_offsets P ! k" P 12] by (auto simp: record_start_def rr_offsets_def)

lemma hdr16_u16: "u16 (hdr16 P k) = hdr16 P k"
  by (simp add: hdr16_def u16_def be16_less)

lemma dns_s_study_record:
  assumes P: "packet_ok P" and Q: "data Q = data P" "pend Q = pend P"
    and c: "dns_p_count Q sec = hdr16 P n"
  shows "dns_s_study sec (record_start P k) Q =
    Some \<lparr>base = record_start P k, mend = record_start P (k + hdr16 P n)\<rparr>"
proof -
  have i: "in_packet P" "12 \<le> pend P" using P by (auto simp: packet_ok_def)
  have u: "u16 (record_start P k) = record_start P k"
    using record_start_le [of P k] i by (simp add: u16_def in_packet_def)
  show ?thesis
    using study_loop_record [OF i(1) record_start_le, of "hdr16 P n" k] record_from_add [OF i, of k "hdr16 P n"]
    by (simp add: dns_s_study_def c hdr16_u16 u study_loop_cong [OF Q]) (simp add: record_start_from)
qed

text \<open>C24: \<open>dns_p_study\<close> returns for every well-formed packet. It changes only the remembered
  offsets, and they are the ones the header counters ask for: with \<open>q\<close>, \<open>a\<close>, \<open>n\<close> and \<open>r\<close> records
  in the question, answer, authority and additional sections, each section is remembered from the
  start of its first record to the start of the record that follows its last one, the records of
  the packet being counted from byte 12; a section that the packet ends too early for stops at the end
  of the packet.\<close>

theorem dns_p_study_spec:
  assumes "packet_ok P"
  defines "q \<equiv> hdr16 P 4" and "a \<equiv> hdr16 P 6" and "n \<equiv> hdr16 P 8" and "r \<equiv> hdr16 P 10"
  shows "dns_p_study P = Some (P\<lparr>
      qd := \<lparr>base = 12, mend = record_start P q\<rparr>,
      an := \<lparr>base = record_start P q, mend = record_start P (q + a)\<rparr>,
      ns := \<lparr>base = record_start P (q + a), mend = record_start P (q + a + n)\<rparr>,
      ar := \<lparr>base = record_start P (q + a + n), mend = record_start P (q + a + n + r)\<rparr>\<rparr>)"
proof -
  note study = dns_s_study_record [OF assms(1)]
  have "in_packet P" "12 \<le> pend P" using assms(1) by (auto simp: packet_ok_def)
  then have "record_start P 0 = 12"
    by (simp add: record_start_from record_from_0)
  then have "dns_s_study DNS_S_QD 12 P = Some \<lparr>base = 12, mend = record_start P q\<rparr>"
    using study [of P DNS_S_QD 4 0] by (simp add: q_def dns_p_count_def)
  moreover have "dns_s_study DNS_S_AN (record_start P k) Q = Some \<lparr>base = record_start P k, mend = record_start P (k + a)\<rparr>"
    "dns_s_study DNS_S_NS (record_start P k) Q = Some \<lparr>base = record_start P k, mend = record_start P (k + n)\<rparr>"
    "dns_s_study DNS_S_AR (record_start P k) Q = Some \<lparr>base = record_start P k, mend = record_start P (k + r)\<rparr>"
    if "data Q = data P" "pend Q = pend P" for Q k
    unfolding a_def n_def r_def by (rule study [OF that], simp add: dns_p_count_def hdr16_def that)+
  ultimately show ?thesis
    by (simp add: dns_p_study_def)
qed

theorem dns_p_study_spec_witness:
  "let P = \<lparr>dict = replicate 16 0, qd = no_memo, an = no_memo, ns = no_memo, ar = no_memo, pend = 17,
            data = [0, 0, 0, 0, 0, 1, 0, 0, 0, 0, 0, 0] @ [0, 0, 1, 0, 1]\<rparr>
   in packet_ok P \<and> (\<exists>P'. dns_p_study P = Some P' \<and> qd P' = \<lparr>base = 12, mend = 17\<rparr> \<and>
     an P' = \<lparr>base = 17, mend = 17\<rparr>)"
proof -
  define P where "P = \<lparr>dict = replicate 16 0, qd = no_memo, an = no_memo, ns = no_memo, ar = no_memo, pend = 17,
    data = [0, 0, 0, 0, 0, 1, 0, 0, 0, 0, 0, 0] @ [0, 0, 1, 0, 1 :: u8]\<rparr>"
  have ok: "packet_ok P" by (simp add: P_def packet_ok_def psize_def)
  have h: "hdr16 P 4 = 1" "hdr16 P 6 = 0"
    by (simp_all add: hdr16_def P_def be16_eq)
  have d: "dns_d_skip 12 P = Some 13"
    unfolding dns_d_skip_def by (rule loop_done) (simp add: d_skip_body_def P_def label_type_def label_len_def u16_def)
  then have "dns_p_qend P = Some 17"
    using h(1) by (simp add: dns_p_qend_def dns_p_count_def sz_sub_def P_def u16_def)
  with d have "dns_rr_skip 12 P = Some 17"
    by (simp add: dns_rr_skip_def dns_rr_len_def sz_sub_def P_def u16_def)
  then have "rr_offsets P = [12]"
    using offsets_end [of P 17] rr_offsets_from.simps [of P 12] by (simp add: rr_offsets_def P_def)
  then have r: "record_start P 1 = 17" by (simp add: record_start_def P_def)
  from h dns_p_study_spec [OF ok] ok r show ?thesis
    unfolding P_def [symmetric] by simp
qed

end
