(* ===== verification/Dns_Text.thy ===== *)
theory Dns_Text
  imports Prelude
begin

text \<open>
  The string helpers and the bounded printers of \<^verbatim>\<open>src/src/c/dns/libdns/dns.c\<close>:
  \<open>dns_strlcpy\<close>, \<open>dns_strlcat\<close>, \<open>dns__printchar\<close>, \<open>dns__printstring\<close>,
  \<open>dns__printnul\<close>, \<open>dns__print10\<close>.

  A printer writes at an offset of a buffer of \<open>lim\<close> bytes (the length of the list),
  drops what does not fit and returns how many bytes the whole text has. The source chains
  them with \<open>cp += dns__print...(dst, lim, cp, ...)\<close>; \<open>seqp\<close> is that chaining. The
  interface locale \<open>printer\<close> states what every printer promises of the text it stands for,
  and is interpreted for each of them.
\<close>

section \<open>C strings\<close>

fun c_strlen :: "bytes \<Rightarrow> nat option" where
  "c_strlen [] = None"
| "c_strlen (c # cs) = (if c = 0 then Some 0 else map_option Suc (c_strlen cs))"

lemma c_strlen_cstr: "0 \<in> set src \<Longrightarrow> c_strlen src = Some (length (cstr src))"
  by (induction src) (auto simp: cstr_def)

text \<open>
  The first loop of \<open>dns_strlcpy\<close> from \<open>d\<close> (an offset below the size of \<open>dst\<close>) and
  the second one that runs on to the end of \<open>src\<close>. The result is the number of bytes
  read, less the NUL; \<open>k\<close> counts those read before.
\<close>

fun strlcpy_loop :: "bytes \<Rightarrow> nat \<Rightarrow> bytes \<Rightarrow> nat \<Rightarrow> (nat \<times> bytes) option" where
  "strlcpy_loop dst d [] k = None"
| "strlcpy_loop dst d (c # cs) k =
     (let dst = dst[d := c]
      in if c = 0 then Some (k, dst)
         else if d + 1 < length dst then strlcpy_loop dst (d + 1) cs (k + 1)
         else do { n \<leftarrow> c_strlen cs; Some (k + 1 + n, dst[d := 0]) })"

definition dns_strlcpy :: "bytes \<Rightarrow> bytes \<Rightarrow> (nat \<times> bytes) option" where
  "dns_strlcpy dst src =
     (if 0 < length dst then strlcpy_loop dst 0 src 0
      else do { n \<leftarrow> c_strlen src; Some (n, dst) })"

text \<open>
  \<open>dns_strlcat\<close> starts its copy at the NUL that \<open>memchr\<close> finds in \<open>dst\<close>; the
  result is the offset of the copied NUL, or \<open>lim\<close> plus what is left of \<open>src\<close>.
\<close>

fun strlcat_loop :: "bytes \<Rightarrow> nat \<Rightarrow> bytes \<Rightarrow> (nat \<times> bytes) option" where
  "strlcat_loop dst d [] = None"
| "strlcat_loop dst d (c # cs) =
     (let dst = dst[d := c]
      in if c = 0 then Some (d, dst)
         else if d + 1 < length dst then strlcat_loop dst (d + 1) cs
         else do { n \<leftarrow> c_strlen cs; Some (length dst + n, dst[d := 0]) })"

definition dns_strlcat :: "bytes \<Rightarrow> bytes \<Rightarrow> (nat \<times> bytes) option" where
  "dns_strlcat dst src =
     (if 0 \<in> set dst then strlcat_loop dst (length (cstr dst)) src
      else do { n \<leftarrow> c_strlen src; Some (length dst + n, dst) })"

lemma strlcpy_loop_eq:
  assumes "0 \<in> set src" and "d < length dst"
  shows "strlcpy_loop dst d src k
    = Some (k + length (cstr src),
        take d dst @ take (length dst - 1 - d) (cstr src) @ 0 # drop (Suc (d + length (cstr src))) dst)"
  using assms
proof (induction src arbitrary: dst d k)
  case (Cons c cs)
  show ?case
  proof (cases "c = 0")
    case True
    with Cons.prems show ?thesis
      by (simp add: cstr_def upd_conv_take_nth_drop)
  next
    case False
    then have cs: "0 \<in> set cs" using Cons.prems by simp
    have len: "c_strlen cs = Some (length (cstr cs))" using cs by (rule c_strlen_cstr)
    show ?thesis
    proof (cases "d + 1 < length dst")
      case True
      have "take (Suc d) (dst[d := c]) = take d dst @ [c]"
        using Cons.prems(2) by (simp add: take_Suc_conv_app_nth)
      moreover have "length dst - Suc d = Suc (length dst - Suc (Suc d))"
        using True by simp
      ultimately show ?thesis
        using True False Cons.IH [OF cs, of "d + 1" "dst[d := c]" "k + 1"]
        by (simp add: cstr_def)
    next
      case lim: False
      then have "Suc d = length dst" using Cons.prems(2) by simp
      with False len show ?thesis
        by (simp add: cstr_def upd_conv_take_nth_drop)
    qed
  qed
qed simp

lemma strlcat_loop_strlcpy: "d < length dst \<Longrightarrow> strlcat_loop dst d src = strlcpy_loop dst d src d"
proof (induction src arbitrary: dst d)
  case (Cons c cs)
  show ?case
  proof (cases "d + 1 < length dst")
    case True
    with Cons show ?thesis by (simp add: Let_def)
  next
    case False
    with Cons.prems have "length dst = Suc d" by simp
    then show ?thesis by (simp add: Let_def)
  qed
qed simp

lemma strlcpy_loop_length: "strlcpy_loop dst d src k = Some (n, dst') \<Longrightarrow> length dst' = length dst"
  by (induction src arbitrary: dst d k) (auto simp: Let_def bind_eq_Some_conv split: if_splits)

lemma cstr_length_less: "0 \<in> set buf \<Longrightarrow> length (cstr buf) < length buf"
  by (induction buf) (auto simp: cstr_def)

lemma take_cstr: "take (length (cstr buf)) buf = cstr buf"
  by (simp add: cstr_def takeWhile_eq_take [symmetric])

text \<open>\<open>dns_strlcpy\<close> keeps the contract of strlcpy for every C string and every
  destination: it returns the length of the source, never changes the size of the
  destination, and leaves there the source cut to \<open>lim - 1\<close> bytes and closed by NUL.\<close>

theorem dns_strlcpy_spec:
  assumes "0 \<in> set src"
  shows "\<exists>dst'. dns_strlcpy dst src = Some (length (cstr src), dst') \<and> length dst' = length dst
    \<and> (0 < length dst \<longrightarrow> cstr dst' = take (length dst - 1) (cstr src) \<and> 0 \<in> set dst')"
proof (cases "0 < length dst")
  case True
  have "0 \<notin> set (take (length dst - 1) (cstr src))"
    using cstr_no_nul [of src] by (meson in_set_takeD)
  with True strlcpy_loop_eq [OF assms True, of 0] show ?thesis
    by (auto simp: dns_strlcpy_def dest: strlcpy_loop_length)
next
  case False
  then show ?thesis
    using assms by (simp add: dns_strlcpy_def c_strlen_cstr)
qed

theorem dns_strlcpy_spec_witness:
  "\<exists>dst'. dns_strlcpy [9, 9, 9] [1, 2, 3, 4, 0] = Some (length (cstr [1, 2, 3, 4, 0]), dst')
    \<and> length dst' = length [9, 9, 9 :: u8]
    \<and> (0 < length [9, 9, 9 :: u8] \<longrightarrow>
        cstr dst' = take (length [9, 9, 9 :: u8] - 1) (cstr [1, 2, 3, 4, 0]) \<and> 0 \<in> set dst')"
  by (rule dns_strlcpy_spec) simp

text \<open>\<open>dns_strlcat\<close> appends: it returns the length the two strings have together
  and leaves their concatenation, cut to \<open>lim - 1\<close> bytes, as the C string of \<open>dst\<close>.\<close>

theorem dns_strlcat_spec:
  assumes "0 \<in> set src" and "0 \<in> set dst"
  shows "\<exists>dst'. dns_strlcat dst src = Some (length (cstr dst) + length (cstr src), dst')
    \<and> length dst' = length dst \<and> cstr dst' = take (length dst - 1) (cstr dst @ cstr src)"
proof -
  let ?d = "length (cstr dst)"
  have d: "?d < length dst" using assms(2) by (rule cstr_length_less)
  have "0 \<notin> set (cstr dst @ take (length dst - 1 - ?d) (cstr src))"
    using cstr_no_nul [of src] cstr_no_nul [of dst] by (auto dest: in_set_takeD)
  then have "cstr (cstr dst @ take (length dst - 1 - ?d) (cstr src) @ 0 # ys)
      = cstr dst @ take (length dst - 1 - ?d) (cstr src)" for ys
    using cstr_append [of "cstr dst @ take (length dst - 1 - ?d) (cstr src)" ys] by simp
  moreover have "take (length dst - 1) (cstr dst) = cstr dst"
    using d by simp
  ultimately show ?thesis
    using d assms strlcpy_loop_eq [OF assms(1) d, of ?d]
    by (auto simp: dns_strlcat_def strlcat_loop_strlcpy take_cstr dest: strlcpy_loop_length)
qed

theorem dns_strlcat_spec_witness:
  "\<exists>dst'. dns_strlcat [1, 0, 9] [2, 3, 0] = Some (length (cstr [1, 0, 9]) + length (cstr [2, 3, 0]), dst')
    \<and> length dst' = length [1, 0, 9 :: u8]
    \<and> cstr dst' = take (length [1, 0, 9 :: u8] - 1) (cstr [1, 0, 9] @ cstr [2, 3, 0])"
  by (rule dns_strlcat_spec) simp_all

section \<open>Printers\<close>

definition dns__printchar :: "u8 \<Rightarrow> bytes \<Rightarrow> nat \<Rightarrow> nat \<times> bytes" where
  "dns__printchar ch dst cp = (1, put dst cp ch)"

definition dns__printstring :: "bytes \<Rightarrow> bytes \<Rightarrow> nat \<Rightarrow> nat \<times> bytes" where
  "dns__printstring src dst cp = (length src, blit dst cp src)"

definition dns__printnul :: "bytes \<Rightarrow> nat \<Rightarrow> bytes" where
  "dns__printnul dst off = nul dst off"

text \<open>The digit loop of \<open>dns__print10\<close>; \<open>tmp\<close> is the used part of its local buffer.\<close>

function print10_digits :: "nat \<Rightarrow> nat \<Rightarrow> bytes \<Rightarrow> bytes" where
  "print10_digits d n tmp =
     (if d = 0 then tmp
      else let ch = n div d
           in if ch \<noteq> 0 \<or> 0 < length tmp
              then print10_digits (d div 10) (n - ch * d) (tmp @ [byte (48 + ch)])
              else print10_digits (d div 10) n tmp)"
  by pat_completeness auto
termination
  by (relation "measure (\<lambda>(d, _, _). d)") auto

declare print10_digits.simps [simp del]

fun print10_pad :: "nat \<Rightarrow> nat \<Rightarrow> bytes \<Rightarrow> nat \<Rightarrow> nat \<times> bytes" where
  "print10_pad cp pad dst dp =
     (if cp < pad then let (k, dst) = dns__printchar 48 dst dp
                       in print10_pad cp (pad - 1) dst (dp + k)
      else (dp, dst))"

declare print10_pad.simps [simp del]

text \<open>The offset is an \<open>unsigned\<close> in the source and the sum of the lengths a \<open>size_t\<close>; the buffers of
  the library hold a few hundred bytes, so the conversions change nothing and are left out.\<close>

definition dns__print10 :: "nat \<Rightarrow> nat \<Rightarrow> bytes \<Rightarrow> nat \<Rightarrow> nat \<times> bytes" where
  "dns__print10 n pad dst off =
     (let pad = max 1 pad;
          tmp = print10_digits 1000000000 (n mod 4294967296) [];
          (dp, dst) = print10_pad (length tmp) pad dst off;
          (k, dst) = dns__printstring tmp dst dp
      in (dp + k - off, dst))"

definition seqp :: "(bytes \<Rightarrow> nat \<Rightarrow> nat \<times> bytes) \<Rightarrow> (bytes \<Rightarrow> nat \<Rightarrow> nat \<times> bytes)
    \<Rightarrow> bytes \<Rightarrow> nat \<Rightarrow> nat \<times> bytes" where
  "seqp f g dst cp = (let (n, dst) = f dst cp; (m, dst) = g dst (cp + n) in (n + m, dst))"

text \<open>A printer run at offset 0 and closed with \<open>dns__printnul\<close>: how the printing functions
  of the library end.\<close>

definition closep :: "(bytes \<Rightarrow> nat \<Rightarrow> nat \<times> bytes) \<Rightarrow> bytes \<Rightarrow> nat \<times> bytes" where
  "closep f dst = (let (n, dst) = f dst 0 in (n, dns__printnul dst n))"

section \<open>The printer interface\<close>

locale printer =
  fixes pr :: "bytes \<Rightarrow> nat \<Rightarrow> nat \<times> bytes"
    and tx :: bytes
  assumes size_text: "fst (pr dst off) = length tx"
    and size_buf: "length (snd (pr dst off)) = length dst"
    and prints: "holds dst out \<Longrightarrow> length out = off \<Longrightarrow> holds (snd (pr dst off)) (out @ tx)"
begin

lemma closep_text:
  assumes "0 < length dst" and "0 \<notin> set tx"
  shows "fst (closep pr dst) = length tx" and "cstr (snd (closep pr dst)) = take (length dst - 1) tx"
proof -
  have fst: "fst (pr dst 0) = length tx" by (rule size_text)
  then show "fst (closep pr dst) = length tx"
    by (simp add: closep_def case_prod_beta)
  have "holds (snd (pr dst 0)) tx"
    using prints [of dst "[]" 0] by simp
  then have "cstr (nul (snd (pr dst 0)) (length tx)) = take (length dst - 1) tx"
    using holds_nul_cstr [of "snd (pr dst 0)" tx] assms by (simp add: size_buf)
  then show "cstr (snd (closep pr dst)) = take (length dst - 1) tx"
    using fst by (simp add: closep_def dns__printnul_def case_prod_beta)
qed

lemma closep_size: "length (snd (closep pr dst)) = length dst"
  using size_buf [of dst 0] by (simp add: closep_def dns__printnul_def case_prod_beta)

end

lemma printer_seqp:
  assumes "printer f s" and "printer g t"
  shows "printer (seqp f g) (s @ t)"
proof
  fix dst off out
  note F = printer.size_text [OF assms(1)] printer.size_buf [OF assms(1)] printer.prints [OF assms(1)]
  note G = printer.size_text [OF assms(2)] printer.size_buf [OF assms(2)] printer.prints [OF assms(2)]
  have eq: "seqp f g dst off = (length s + length t, snd (g (snd (f dst off)) (off + length s)))"
    using F(1) [of dst off] G(1) [of "snd (f dst off)" "off + length s"]
    by (simp add: seqp_def case_prod_beta)
  show "fst (seqp f g dst off) = length (s @ t)" by (simp add: eq)
  show "length (snd (seqp f g dst off)) = length dst" by (simp add: eq F(2) G(2))
  assume "holds dst out" and "length out = off"
  then have "holds (snd (f dst off)) (out @ s)" by (rule F(3))
  then have "holds (snd (g (snd (f dst off)) (off + length s))) ((out @ s) @ t)"
    by (rule G(3)) (simp add: \<open>length out = off\<close>)
  then show "holds (snd (seqp f g dst off)) (out @ s @ t)" by (simp add: eq)
qed

interpretation pchar: printer "dns__printchar ch" "[ch]" for ch
  by unfold_locales (auto simp: dns__printchar_def intro: holds_put)

interpretation pstring: printer "dns__printstring src" src for src
  by unfold_locales (auto simp: dns__printstring_def intro: holds_blit)

section \<open>Decimal numbers\<close>

text \<open>The reference: the decimal notation of a number, and the value a digit string denotes.\<close>

fun decimal :: "nat \<Rightarrow> bytes" where
  "decimal n = (if n < 10 then [byte (48 + n)] else decimal (n div 10) @ [byte (48 + n mod 10)])"

declare decimal.simps [simp del]

definition undecimal :: "bytes \<Rightarrow> nat" where
  "undecimal ds = foldl (\<lambda>n d. 10 * n + (unat d - 48)) 0 ds"

fun digits :: "nat \<Rightarrow> nat \<Rightarrow> bytes" where
  "digits 0 n = []"
| "digits (Suc k) n = byte (48 + n div 10 ^ k) # digits k (n mod 10 ^ k)"

lemma digits_snoc: "n < 10 ^ Suc k \<Longrightarrow> digits (Suc k) n = digits k (n div 10) @ [byte (48 + n mod 10)]"
proof (induction k arbitrary: n)
  case 0
  then show ?case by simp
next
  case (Suc k)
  have "n mod 10 ^ Suc k < 10 ^ Suc k" by simp
  from Suc.IH [OF this] have "digits (Suc (Suc k)) n =
      byte (48 + n div 10 ^ Suc k) # digits k (n mod 10 ^ Suc k div 10) @ [byte (48 + n mod 10 ^ Suc k mod 10)]"
    by (simp only: digits.simps append_Cons)
  moreover have "n mod 10 ^ Suc k div 10 = n div 10 mod 10 ^ k"
    by (simp add: mod_mult2_eq)
  moreover have "n mod 10 ^ Suc k mod 10 = n mod 10"
    by (simp add: mod_mult2_eq)
  moreover have "n div 10 ^ Suc k = n div 10 div 10 ^ k"
    by (simp add: div_mult2_eq)
  ultimately show ?case by simp
qed

lemma decimal_digits: "10 ^ k \<le> n \<Longrightarrow> n < 10 ^ Suc k \<Longrightarrow> decimal n = digits (Suc k) n"
proof (induction k arbitrary: n)
  case 0
  then show ?case by (simp add: decimal.simps)
next
  case (Suc k)
  have "(1::nat) \<le> 10 ^ k" by simp
  with Suc.prems have "10 ^ k \<le> n div 10" and "n div 10 < 10 ^ Suc k" and "\<not> n < 10"
    unfolding power_Suc by linarith+
  then show ?case
    using Suc.IH [of "n div 10"] digits_snoc [OF Suc.prems(2)] by (simp add: decimal.simps [of n])
qed

lemma print10_digits_full:
  "tmp \<noteq> [] \<Longrightarrow> n < 10 ^ Suc k \<Longrightarrow> print10_digits (10 ^ k) n tmp = tmp @ digits (Suc k) n"
proof (induction k arbitrary: n tmp)
  case 0
  then show ?case by (simp add: print10_digits.simps [of _ n] print10_digits.simps [of 0] Let_def)
next
  case (Suc k)
  have "10 ^ Suc k div 10 = (10 ^ k :: nat)" by simp
  moreover have "n - n div 10 ^ Suc k * 10 ^ Suc k = n mod 10 ^ Suc k"
    by (simp add: minus_div_mult_eq_mod)
  ultimately have "print10_digits (10 ^ Suc k) n tmp =
      print10_digits (10 ^ k) (n mod 10 ^ Suc k) (tmp @ [byte (48 + n div 10 ^ Suc k)])"
    using Suc.prems(1) by (subst print10_digits.simps) (simp add: Let_def del: power_Suc)
  also have "\<dots> = (tmp @ [byte (48 + n div 10 ^ Suc k)]) @ digits (Suc k) (n mod 10 ^ Suc k)"
    by (rule Suc.IH) (auto simp del: power_Suc)
  finally show ?case by (simp del: power_Suc)
qed

lemma print10_digits_decimal:
  "n < 10 ^ Suc k \<Longrightarrow> print10_digits (10 ^ k) n [] = (if n = 0 then [] else decimal n)"
proof (induction k)
  case 0
  then show ?case by (simp add: print10_digits.simps [of _ n] print10_digits.simps [of 0] decimal.simps Let_def)
next
  case (Suc k)
  have div10: "10 ^ Suc k div 10 = (10 ^ k :: nat)" by simp
  show ?case
  proof (cases "n < 10 ^ Suc k")
    case True
    then have "print10_digits (10 ^ Suc k) n [] = print10_digits (10 ^ k) n []"
      by (subst print10_digits.simps) (simp add: div10 del: power_Suc)
    then show ?thesis using Suc.IH True by simp
  next
    case False
    then have pos: "n div 10 ^ Suc k \<noteq> 0"
      by (simp add: div_eq_0_iff del: power_Suc)
    then have "n \<noteq> 0" by (intro notI) simp
    have "print10_digits (10 ^ Suc k) n [] =
        print10_digits (10 ^ k) (n mod 10 ^ Suc k) [byte (48 + n div 10 ^ Suc k)]"
      using pos by (subst print10_digits.simps)
        (simp add: div10 Let_def minus_div_mult_eq_mod del: power_Suc)
    also have "\<dots> = digits (Suc (Suc k)) n"
      by (subst print10_digits_full) (auto simp del: power_Suc)
    also have "\<dots> = decimal n"
      using False Suc.prems by (intro decimal_digits [symmetric]) auto
    finally show ?thesis using \<open>n \<noteq> 0\<close> by simp
  qed
qed

lemma print10_pad_size:
  "fst (print10_pad cp pad dst dp) = dp + (pad - cp) \<and> length (snd (print10_pad cp pad dst dp)) = length dst"
proof (induction cp pad dst dp rule: print10_pad.induct)
  case (1 cp pad dst dp)
  then show ?case
    by (auto simp: print10_pad.simps [of cp pad] dns__printchar_def)
qed

lemma print10_pad_holds:
  "holds dst out \<Longrightarrow> length out = dp \<Longrightarrow>
     holds (snd (print10_pad cp pad dst dp)) (out @ replicate (pad - cp) 48)"
proof (induction cp pad dst dp arbitrary: out rule: print10_pad.induct)
  case (1 cp pad dst dp)
  show ?case
  proof (cases "cp < pad")
    case True
    then have "replicate (pad - cp) (48::u8) = 48 # replicate (pad - 1 - cp) 48"
      by (metis Suc_diff_Suc diff_Suc_eq_diff_pred replicate_Suc)
    moreover have "holds (put dst dp 48) (out @ [48])"
      using 1(2,3) by (auto intro: holds_put)
    ultimately show ?thesis
      using 1(1) [OF True refl, of 1 "put dst dp 48" "out @ [48]"] True 1(3)
      by (simp add: print10_pad.simps [of cp pad] dns__printchar_def)
  next
    case False
    then show ?thesis using 1(2) by (simp add: print10_pad.simps [of cp pad])
  qed
qed

text \<open>The text \<open>dns__print10\<close> produces.\<close>

definition print10_text :: "nat \<Rightarrow> nat \<Rightarrow> bytes" where
  "print10_text n pad = (let ds = decimal (n mod 4294967296) in replicate (pad - length ds) 48 @ ds)"

lemma decimal_0: "decimal 0 = [48]"
  by (simp add: decimal.simps byte_def)

lemma decimal_nonempty [simp]: "decimal n \<noteq> []"
  by (subst decimal.simps) simp

lemma print10_text_eq:
  "print10_text n pad =
     (let tmp = print10_digits 1000000000 (n mod 4294967296) []
      in replicate (max 1 pad - length tmp) 48 @ tmp)"
proof -
  have "n mod 4294967296 < 10 ^ Suc 9" by simp
  from print10_digits_decimal [OF this]
  have tmp: "print10_digits 1000000000 (n mod 4294967296) [] =
      (if n mod 4294967296 = 0 then [] else decimal (n mod 4294967296))" by simp
  have "1 \<le> length (decimal (n mod 4294967296))"
    by (simp add: Suc_le_eq)
  moreover have "replicate (max 1 pad) (48::u8) = replicate (pad - 1) 48 @ [48]"
    by (cases pad) (auto simp: replicate_append_same)
  ultimately show ?thesis
    by (auto simp: print10_text_def Let_def tmp decimal_0 max_def)
qed

interpretation pdec: printer "dns__print10 n pad" "print10_text n pad" for n pad
proof
  fix dst off out
  define tmp where "tmp = print10_digits 1000000000 (n mod 4294967296) []"
  define w where "w = max 1 pad - length tmp"
  define mid where "mid = snd (print10_pad (length tmp) (max 1 pad) dst off)"
  have run: "print10_pad (length tmp) (max 1 pad) dst off = (off + w, mid)" and len: "length mid = length dst"
    using print10_pad_size [of "length tmp" "max 1 pad" dst off] by (auto simp: w_def mid_def prod_eq_iff)
  have tx: "print10_text n pad = replicate w 48 @ tmp"
    by (simp only: print10_text_eq Let_def tmp_def w_def)
  have eq: "dns__print10 n pad dst off = (w + length tmp, blit mid (off + w) tmp)"
    using run by (simp add: dns__print10_def Let_def dns__printstring_def flip: tmp_def)
  show "fst (dns__print10 n pad dst off) = length (print10_text n pad)" by (simp add: eq tx)
  show "length (snd (dns__print10 n pad dst off)) = length dst" by (simp add: eq len length_blit)
  assume "holds dst out" and "length out = off"
  then have "holds mid (out @ replicate w 48)"
    using print10_pad_holds [of dst out off "length tmp" "max 1 pad"] by (simp add: mid_def w_def)
  then show "holds (snd (dns__print10 n pad dst off)) (out @ print10_text n pad)"
    using holds_blit [of mid "out @ replicate w 48" tmp] \<open>length out = off\<close> by (simp add: eq tx)
qed

lemma undecimal_snoc: "undecimal (ds @ [d]) = 10 * undecimal ds + (unat d - 48)"
  by (simp add: undecimal_def)

lemma undecimal_zeros: "undecimal (replicate k 48 @ ds) = undecimal ds"
  by (induction k) (auto simp: undecimal_def)

lemma unat_digit: "n < 10 \<Longrightarrow> unat (byte (48 + n)) = 48 + n"
  by (simp add: unat_byte)

lemma undecimal_decimal: "undecimal (decimal n) = n"
proof (induction n rule: decimal.induct)
  case (1 n)
  show ?case
  proof (cases "n < 10")
    case True
    then show ?thesis by (simp add: decimal.simps undecimal_def unat_digit)
  next
    case False
    then show ?thesis using 1 by (simp add: decimal.simps [of n] undecimal_snoc unat_digit)
  qed
qed

lemma decimal_digit_range: "d \<in> set (decimal n) \<Longrightarrow> 48 \<le> unat d \<and> unat d \<le> 57"
proof (induction n rule: decimal.induct)
  case (1 n)
  have "n mod 10 < 10" by simp
  with 1 show ?case
    by (auto simp: decimal.simps [of n] unat_digit split: if_splits)
qed

lemma print10_text_nonzero: "0 \<notin> set (print10_text n pad)"
  using decimal_digit_range [of 0 "n mod 4294967296"] by (auto simp: print10_text_def Let_def)

lemma undecimal_print10_text: "undecimal (print10_text n pad) = n mod 4294967296"
  by (simp add: print10_text_def Let_def undecimal_zeros undecimal_decimal)

text \<open>C32: \<open>dns__print10\<close> followed by \<open>dns__printnul\<close> leaves in a buffer that is large enough the
  decimal notation of the unsigned number printed, without leading zeros (0 as the digit 0), filled up
  on the left with zeros to at least \<open>pad\<close> characters. It reports the length of that string, and the
  string reads back as the number.\<close>

theorem dns__print10_reads_back:
  assumes "n < 4294967296" and "max pad (length (decimal n)) < length dst"
  shows "cstr (snd (closep (dns__print10 n pad) dst)) = replicate (pad - length (decimal n)) 48 @ decimal n \<and>
    undecimal (cstr (snd (closep (dns__print10 n pad) dst))) = n \<and>
    fst (closep (dns__print10 n pad) dst) = max pad (length (decimal n))"
proof -
  have t: "print10_text n pad = replicate (pad - length (decimal n)) 48 @ decimal n"
    using assms(1) by (simp add: print10_text_def Let_def)
  then have l: "length (print10_text n pad) = max pad (length (decimal n))"
    by simp
  have "cstr (snd (closep (dns__print10 n pad) dst)) = print10_text n pad"
    using pdec.closep_text(2) [of dst n pad] assms(2) print10_text_nonzero l by fastforce
  moreover have "fst (closep (dns__print10 n pad) dst) = length (print10_text n pad)"
    using pdec.closep_text(1) [of dst n pad] assms(2) print10_text_nonzero l by fastforce
  ultimately show ?thesis
    using assms(1) undecimal_print10_text [of n pad] t l by simp
qed

theorem dns__print10_reads_back_witness:
  "cstr (snd (closep (dns__print10 65535 8) (replicate 16 0))) = str ''00065535'' \<and>
   undecimal (cstr (snd (closep (dns__print10 65535 8) (replicate 16 0)))) = 65535 \<and>
   cstr (snd (closep (dns__print10 0 0) (replicate 16 0))) = str ''0''"
proof -
  have d: "decimal 65535 = str ''65535''" "decimal 0 = str ''0''"
    by (simp_all add: decimal.simps byte_def str_def)
  have s: "str ''00065535'' = replicate 3 48 @ str ''65535''" "length (str ''65535'') = 5" "length (str ''0'') = 1"
    by (simp_all add: str_def eval_nat_numeral)
  show ?thesis
    using dns__print10_reads_back [of 65535 8 "replicate 16 0"] dns__print10_reads_back [of 0 0 "replicate 16 0"]
    unfolding d s(1) by (auto simp: s(2,3))
qed

end
