(* ===== verification/Dns_Rdata.thy ===== *)
theory Dns_Rdata
  imports Dns_RR Dns_Text
begin

unbundle bit_operations_syntax

text \<open>
  The record data of \<^verbatim>\<open>src/src/c/dns/libdns/dns.c\<close>: for each record type the
  routines that parse it from a packet, push it into a packet, compare and print it, and the
  table \<open>dns_rrtypes\<close> through which \<open>dns_any_parse\<close>, \<open>dns_any_push\<close>,
  \<open>dns_any_cmp\<close> and \<open>dns_any_print\<close> dispatch. A host name field is its 256-byte
  buffer. Addresses are numbers in host order. \<open>dns_inet_ntop\<close> is the function of the
  system; its result is an argument.
\<close>

section \<open>Comparing and pushing bytes\<close>

text \<open>\<open>strcasecmp\<close> of the C library on two strings.\<close>

fun casecmp :: "bytes \<Rightarrow> bytes \<Rightarrow> int" where
  "casecmp [] [] = 0"
| "casecmp [] (b # bs) = - int (unat (tolower8 b))"
| "casecmp (a # as) [] = int (unat (tolower8 a))"
| "casecmp (a # as) (b # bs) =
     (if tolower8 a = tolower8 b then casecmp as bs
      else int (unat (tolower8 a)) - int (unat (tolower8 b)))"

definition strcasecmp :: "bytes \<Rightarrow> bytes \<Rightarrow> int" where
  "strcasecmp s t = casecmp (cstr s) (cstr t)"

text \<open>\<open>P->size - P->end\<close>, and the idiom \<open>P->data[P->end++] = ...\<close> for a run of bytes.\<close>

definition room :: "dns_packet \<Rightarrow> nat" where
  "room P = sz_sub (psize P) (pend P)"

definition push_bytes :: "bytes \<Rightarrow> dns_packet \<Rightarrow> dns_packet option" where
  "push_bytes bs P = do {
     d \<leftarrow> wrn (data P) (pend P) bs;
     Some (P\<lparr>data := d, pend := pend P + length bs\<rparr>)
   }"

definition bytes16 :: "nat \<Rightarrow> bytes" where
  "bytes16 n = [byte (n div 256), byte n]"

definition bytes32 :: "nat \<Rightarrow> bytes" where
  "bytes32 n = [byte (n div 16777216), byte (n div 65536), byte (n div 256), byte n]"

text \<open>Storing the length of the data written after \<open>end\<close> in the two bytes at \<open>end\<close>.\<close>

definition set_rdlen :: "nat \<Rightarrow> dns_packet \<Rightarrow> dns_packet option" where
  "set_rdlen e P = do {
     d \<leftarrow> wrn (data P) e (bytes16 (sz_sub (pend P) (e + 2)));
     Some (P\<lparr>data := d\<rparr>)
   }"

section \<open>A and AAAA\<close>

type_synonym dns_a = nat
type_synonym dns_aaaa = bytes

definition be32_at :: "dns_packet \<Rightarrow> nat \<Rightarrow> nat option" where
  "be32_at P p = do {
     a \<leftarrow> rd (data P) p; b \<leftarrow> rd (data P) (p + 1);
     c \<leftarrow> rd (data P) (p + 2); d \<leftarrow> rd (data P) (p + 3);
     Some (be32 a b c d)
   }"

definition dns_a_parse :: "dns_rr \<Rightarrow> dns_packet \<Rightarrow> (dns_error + dns_a) option" where
  "dns_a_parse rr P =
     (if rdlen rr \<noteq> 4 then Some (Inl DNS_EILLEGAL) else map_option Inr (be32_at P (rdp rr)))"

definition dns_a_push :: "dns_packet \<Rightarrow> dns_a \<Rightarrow> (dns_error option \<times> dns_packet) option" where
  "dns_a_push P a =
     (if room P < 6 then Some (Some DNS_ENOBUFS, P)
      else do {
        P \<leftarrow> push_bytes [0x00, 0x04] P;
        P \<leftarrow> push_bytes (bytes32 a) P;
        Some (None, P)
      })"

fun a_arpa_loop :: "nat \<Rightarrow> nat \<Rightarrow> bytes \<Rightarrow> nat \<Rightarrow> nat \<times> bytes" where
  "a_arpa_loop 0 a4 = dns__printstring (str ''in-addr.arpa.'')"
| "a_arpa_loop (Suc i) a4 =
     seqp (dns__print10 (a4 mod 256) 0) (seqp (dns__printchar 46) (a_arpa_loop i (a4 div 256)))"

definition dns_a_arpa :: "bytes \<Rightarrow> dns_a \<Rightarrow> nat \<times> bytes" where
  "dns_a_arpa dst a = closep (a_arpa_loop 4 a) dst"

definition dns_a_cmp :: "dns_a \<Rightarrow> dns_a \<Rightarrow> int" where
  "dns_a_cmp a b = (if a < b then -1 else if b < a then 1 else 0)"

definition dns_a_print :: "bytes \<Rightarrow> bytes \<Rightarrow> nat \<times> bytes" where
  "dns_a_print ntop dst = closep (dns__printstring ntop) dst"

definition dns_aaaa_parse :: "dns_rr \<Rightarrow> dns_packet \<Rightarrow> (dns_error + dns_aaaa) option" where
  "dns_aaaa_parse rr P =
     (if rdlen rr \<noteq> 16 then Some (Inl DNS_EILLEGAL) else map_option Inr (rdn (data P) (rdp rr) 16))"

definition dns_aaaa_push :: "dns_packet \<Rightarrow> dns_aaaa \<Rightarrow> (dns_error option \<times> dns_packet) option" where
  "dns_aaaa_push P a =
     (if room P < 2 + 16 then Some (Some DNS_ENOBUFS, P)
      else do {
        P \<leftarrow> push_bytes [0x00, 0x10] P;
        P \<leftarrow> push_bytes a P;
        Some (None, P)
      })"

text \<open>The byte by byte comparison of \<open>dns_aaaa_cmp\<close>, also of \<open>memcmp\<close>.\<close>

fun bytecmp :: "bytes \<Rightarrow> bytes \<Rightarrow> int" where
  "bytecmp (a # as) (b # bs) =
     (if a \<noteq> b then int (unat a) - int (unat b) else bytecmp as bs)"
| "bytecmp _ _ = 0"

definition dns_aaaa_cmp :: "dns_aaaa \<Rightarrow> dns_aaaa \<Rightarrow> int" where
  "dns_aaaa_cmp a b = bytecmp a b"

definition hexdigit :: "u8 \<Rightarrow> u8" where
  "hexdigit n = str ''0123456789abcdef'' ! unat (0x0f AND n)"

text \<open>The loops of \<open>dns_aaaa_arpa\<close>, over the address bytes from the last to the first.\<close>

fun aaaa_arpa_loop :: "bytes \<Rightarrow> bytes \<Rightarrow> nat \<Rightarrow> nat \<times> bytes" where
  "aaaa_arpa_loop [] = dns__printstring (str ''ip6.arpa.'')"
| "aaaa_arpa_loop (b # bs) =
     seqp (dns__printchar (hexdigit b)) (seqp (dns__printchar 46)
       (seqp (dns__printchar (hexdigit (drop_bit 4 b))) (seqp (dns__printchar 46) (aaaa_arpa_loop bs))))"

definition dns_aaaa_arpa :: "bytes \<Rightarrow> dns_aaaa \<Rightarrow> nat \<times> bytes" where
  "dns_aaaa_arpa dst a = closep (aaaa_arpa_loop (rev a)) dst"

definition dns_aaaa_print :: "bytes \<Rightarrow> bytes \<Rightarrow> nat \<times> bytes" where
  "dns_aaaa_print ntop dst = closep (dns__printstring ntop) dst"

section \<open>MX\<close>

record dns_mx =
  preference :: nat
  mx_host :: bytes

text \<open>Expanding a name into a 256-byte host field; the name must fit with its NUL.\<close>

definition expand_host :: "bytes \<Rightarrow> nat \<Rightarrow> dns_packet \<Rightarrow> (dns_error + bytes) option" where
  "expand_host host p P = do {
     (err, len, host) \<leftarrow> dns_d_expand host (u16 p) P;
     Some (case err of
             Some e \<Rightarrow> Inl e
           | None \<Rightarrow> if length host \<le> len then Inl DNS_EILLEGAL else Inr host)
   }"

definition dns_mx_parse :: "dns_mx \<Rightarrow> dns_rr \<Rightarrow> dns_packet \<Rightarrow> (dns_error + dns_mx) option" where
  "dns_mx_parse mx rr P =
     (if rdlen rr < 3 then Some (Inl DNS_EILLEGAL)
      else do {
        pref \<leftarrow> be16_at P (rdp rr);
        r \<leftarrow> expand_host (mx_host mx) (rdp rr + 2) P;
        Some (map_sum id (\<lambda>h. \<lparr>preference = pref, mx_host = h\<rparr>) r)
      })"

definition dns_mx_push :: "dns_packet \<Rightarrow> dns_mx \<Rightarrow> (dns_error option \<times> dns_packet) option" where
  "dns_mx_push P mx =
     (if room P < 5 then Some (Some DNS_ENOBUFS, P)
      else do {
        let e = pend P;
        P \<leftarrow> push_bytes (bytes16 (preference mx)) (P\<lparr>pend := e + 2\<rparr>);
        (err, P) \<leftarrow> dns_d_push P (cstr (mx_host mx));
        if err \<noteq> None then Some (err, P\<lparr>pend := e\<rparr>)
        else do {
          P \<leftarrow> set_rdlen e P;
          Some (None, P)
        }
      })"

definition dns_mx_cmp :: "dns_mx \<Rightarrow> dns_mx \<Rightarrow> int" where
  "dns_mx_cmp a b =
     (if preference a \<noteq> preference b then int (preference a) - int (preference b)
      else strcasecmp (mx_host a) (mx_host b))"

definition dns_mx_print :: "bytes \<Rightarrow> dns_mx \<Rightarrow> nat \<times> bytes" where
  "dns_mx_print dst mx =
     closep (seqp (dns__print10 (preference mx) 0)
            (seqp (dns__printchar 32) (dns__printstring (cstr (mx_host mx))))) dst"

definition dns_mx_cname :: "bytes \<Rightarrow> dns_mx \<Rightarrow> (nat \<times> bytes) option" where
  "dns_mx_cname dst mx = dns_strlcpy dst (mx_host mx)"

section \<open>NS, CNAME and PTR\<close>

record dns_ns =
  ns_host :: bytes

type_synonym dns_cname = dns_ns
type_synonym dns_ptr = dns_ns

definition dns_ns_parse :: "dns_ns \<Rightarrow> dns_rr \<Rightarrow> dns_packet \<Rightarrow> (dns_error + dns_ns) option" where
  "dns_ns_parse n rr P = do {
     r \<leftarrow> expand_host (ns_host n) (rdp rr) P;
     Some (map_sum id (\<lambda>h. \<lparr>ns_host = h\<rparr>) r)
   }"

definition dns_ns_push :: "dns_packet \<Rightarrow> dns_ns \<Rightarrow> (dns_error option \<times> dns_packet) option" where
  "dns_ns_push P n =
     (if room P < 3 then Some (Some DNS_ENOBUFS, P)
      else do {
        let e = pend P;
        (err, P) \<leftarrow> dns_d_push (P\<lparr>pend := e + 2\<rparr>) (cstr (ns_host n));
        if err \<noteq> None then Some (err, P\<lparr>pend := e\<rparr>)
        else do {
          P \<leftarrow> set_rdlen e P;
          Some (None, P)
        }
      })"

definition dns_ns_cmp :: "dns_ns \<Rightarrow> dns_ns \<Rightarrow> int" where
  "dns_ns_cmp a b = strcasecmp (ns_host a) (ns_host b)"

definition dns_ns_print :: "bytes \<Rightarrow> dns_ns \<Rightarrow> nat \<times> bytes" where
  "dns_ns_print dst n = closep (dns__printstring (cstr (ns_host n))) dst"

definition dns_ns_cname :: "bytes \<Rightarrow> dns_ns \<Rightarrow> (nat \<times> bytes) option" where
  "dns_ns_cname dst n = dns_strlcpy dst (ns_host n)"

definition dns_cname_parse :: "dns_cname \<Rightarrow> dns_rr \<Rightarrow> dns_packet \<Rightarrow> (dns_error + dns_cname) option" where
  "dns_cname_parse c rr P = dns_ns_parse c rr P"

definition dns_cname_push :: "dns_packet \<Rightarrow> dns_cname \<Rightarrow> (dns_error option \<times> dns_packet) option" where
  "dns_cname_push P c = dns_ns_push P c"

definition dns_cname_cmp :: "dns_cname \<Rightarrow> dns_cname \<Rightarrow> int" where
  "dns_cname_cmp a b = strcasecmp (ns_host a) (ns_host b)"

definition dns_cname_print :: "bytes \<Rightarrow> dns_cname \<Rightarrow> nat \<times> bytes" where
  "dns_cname_print dst c = dns_ns_print dst c"

definition dns_cname_cname :: "bytes \<Rightarrow> dns_cname \<Rightarrow> (nat \<times> bytes) option" where
  "dns_cname_cname dst c = dns_strlcpy dst (ns_host c)"

definition dns_ptr_parse :: "dns_ptr \<Rightarrow> dns_rr \<Rightarrow> dns_packet \<Rightarrow> (dns_error + dns_ptr) option" where
  "dns_ptr_parse p rr P = dns_ns_parse p rr P"

definition dns_ptr_push :: "dns_packet \<Rightarrow> dns_ptr \<Rightarrow> (dns_error option \<times> dns_packet) option" where
  "dns_ptr_push P p = dns_ns_push P p"

text \<open>\<open>dns_ptr_qname\<close>: the address is an IPv4 number or the 16 bytes of an IPv6 address.\<close>

definition dns_ptr_qname :: "bytes \<Rightarrow> dns_a + dns_aaaa \<Rightarrow> nat \<times> bytes" where
  "dns_ptr_qname dst addr =
     (let (len, dst) = (case addr of Inr a6 \<Rightarrow> dns_aaaa_arpa dst a6 | Inl a4 \<Rightarrow> dns_a_arpa dst a4)
      in (len, dns__printnul dst len))"

definition dns_ptr_cmp :: "dns_ptr \<Rightarrow> dns_ptr \<Rightarrow> int" where
  "dns_ptr_cmp a b = strcasecmp (ns_host a) (ns_host b)"

definition dns_ptr_print :: "bytes \<Rightarrow> dns_ptr \<Rightarrow> nat \<times> bytes" where
  "dns_ptr_print dst p = dns_ns_print dst p"

definition dns_ptr_cname :: "bytes \<Rightarrow> dns_ptr \<Rightarrow> (nat \<times> bytes) option" where
  "dns_ptr_cname dst p = dns_strlcpy dst (ns_host p)"

section \<open>SOA\<close>

record dns_soa =
  mname :: bytes
  rname :: bytes
  serial :: nat
  refresh :: nat
  retry :: nat
  expire :: nat
  minimum :: nat

text \<open>One name of \<open>dns_soa_parse\<close>: the buffer and the offset behind the name.\<close>

definition soa_name :: "bytes \<Rightarrow> nat \<Rightarrow> dns_packet \<Rightarrow> (dns_error + bytes \<times> nat) option" where
  "soa_name dst rp P = do {
     r \<leftarrow> expand_host dst rp P;
     case r of
       Inl e \<Rightarrow> Some (Inl e)
     | Inr h \<Rightarrow> do {
         rp \<leftarrow> dns_d_skip rp P;
         Some (if pend P \<le> rp then Inl DNS_EILLEGAL else Inr (h, rp))
       }
   }"

text \<open>The inner loop over the four bytes of a number; \<open>ts\<close> is the \<open>unsigned\<close> being shifted.\<close>

fun soa_ts :: "nat \<Rightarrow> nat \<Rightarrow> nat \<Rightarrow> dns_packet \<Rightarrow> (dns_error + nat \<times> nat) option" where
  "soa_ts 0 ts rp P = Some (Inr (ts, rp))"
| "soa_ts (Suc j) ts rp P =
     (if pend P \<le> rp then Some (Inl DNS_EILLEGAL)
      else do {
        b \<leftarrow> rd (data P) rp;
        soa_ts j ((ts * 256) mod 4294967296 OR unat b) (u16 (rp + 1)) P
      })"

fun soa_numbers :: "nat list \<Rightarrow> nat \<Rightarrow> dns_packet \<Rightarrow> (dns_error + nat list) option" where
  "soa_numbers [] rp P = Some (Inr [])"
| "soa_numbers (t # ts) rp P = do {
     r \<leftarrow> soa_ts 4 t rp P;
     case r of
       Inl e \<Rightarrow> Some (Inl e)
     | Inr (t, rp) \<Rightarrow> do {
         r \<leftarrow> soa_numbers ts rp P;
         Some (map_sum id ((#) t) r)
       }
   }"

definition dns_soa_parse :: "dns_soa \<Rightarrow> dns_rr \<Rightarrow> dns_packet \<Rightarrow> (dns_error + dns_soa) option" where
  "dns_soa_parse soa rr P =
     (if pend P \<le> rdp rr then Some (Inl DNS_EILLEGAL)
      else do {
        r \<leftarrow> soa_name (mname soa) (rdp rr) P;
        case r of
          Inl e \<Rightarrow> Some (Inl e)
        | Inr (mn, rp) \<Rightarrow> do {
            r \<leftarrow> soa_name (rname soa) rp P;
            case r of
              Inl e \<Rightarrow> Some (Inl e)
            | Inr (rn, rp) \<Rightarrow> do {
                r \<leftarrow> soa_numbers [serial soa, refresh soa, retry soa, expire soa, minimum soa] rp P;
                Some (map_sum id (\<lambda>ts. \<lparr>mname = mn, rname = rn, serial = ts ! 0, refresh = ts ! 1,
                        retry = ts ! 2, expire = ts ! 3, minimum = ts ! 4\<rparr>) r)
              }
          }
      })"

fun soa_push_names :: "bytes list \<Rightarrow> dns_packet \<Rightarrow> (dns_error option \<times> dns_packet) option" where
  "soa_push_names [] P = Some (None, P)"
| "soa_push_names (n # rest) P = do {
     (err, P) \<leftarrow> dns_d_push P n;
     if err \<noteq> None then Some (err, P) else soa_push_names rest P
   }"

fun soa_push_numbers :: "nat list \<Rightarrow> dns_packet \<Rightarrow> (dns_error option \<times> dns_packet) option" where
  "soa_push_numbers [] P = Some (None, P)"
| "soa_push_numbers (t # ts) P =
     (let P = P\<lparr>pend := pend P + 4\<rparr>
      in if psize P \<le> pend P then Some (Some DNS_ENOBUFS, P)
         else do {
           d \<leftarrow> wrn (data P) (pend P - 4) (bytes32 t);
           soa_push_numbers ts (P\<lparr>data := d\<rparr>)
         })"

definition dns_soa_push :: "dns_packet \<Rightarrow> dns_soa \<Rightarrow> (dns_error option \<times> dns_packet) option" where
  "dns_soa_push P soa = do {
     let e = pend P;
     let fail = (\<lambda>(err :: dns_error option) (P :: dns_packet). Some (err, P\<lparr>pend := e\<rparr>));
     let P = P\<lparr>pend := e + 2\<rparr>;
     if psize P \<le> pend P then fail (Some DNS_ENOBUFS) P
     else do {
       (err, P) \<leftarrow> soa_push_names [cstr (mname soa), cstr (rname soa)] P;
       if err \<noteq> None then fail err P
       else do {
         (err, P) \<leftarrow> soa_push_numbers
            [serial soa mod 4294967296, refresh soa mod 2147483648, retry soa mod 2147483648,
             expire soa mod 2147483648, minimum soa mod 4294967296] P;
         if err \<noteq> None then fail err P
         else do {
           P \<leftarrow> set_rdlen e P;
           Some (None, P)
         }
       }
     }
   }"

text \<open>The comparisons of the numbers put the larger number first.\<close>

fun soa_cmp_numbers :: "nat list \<Rightarrow> nat list \<Rightarrow> int" where
  "soa_cmp_numbers (a # as) (b # bs) =
     (if b < a then -1 else if a < b then 1 else soa_cmp_numbers as bs)"
| "soa_cmp_numbers _ _ = 0"

definition dns_soa_cmp :: "dns_soa \<Rightarrow> dns_soa \<Rightarrow> int" where
  "dns_soa_cmp a b =
     (let c = strcasecmp (mname a) (mname b); d = strcasecmp (rname a) (rname b)
      in if c \<noteq> 0 then c else if d \<noteq> 0 then d
         else soa_cmp_numbers [serial a, refresh a, retry a, expire a, minimum a]
                              [serial b, refresh b, retry b, expire b, minimum b])"

definition spaced :: "(bytes \<Rightarrow> nat \<Rightarrow> nat \<times> bytes) \<Rightarrow> (bytes \<Rightarrow> nat \<Rightarrow> nat \<times> bytes) \<Rightarrow> bytes \<Rightarrow> nat \<Rightarrow> nat \<times> bytes" where
  "spaced f g = seqp f (seqp (dns__printchar 32) g)"

definition dns_soa_print :: "bytes \<Rightarrow> dns_soa \<Rightarrow> nat \<times> bytes" where
  "dns_soa_print dst soa =
     closep (spaced (dns__printstring (cstr (mname soa)))
            (spaced (dns__printstring (cstr (rname soa)))
            (spaced (dns__print10 (serial soa) 0)
            (spaced (dns__print10 (refresh soa) 0)
            (spaced (dns__print10 (retry soa) 0)
            (spaced (dns__print10 (expire soa) 0) (dns__print10 (minimum soa) 0))))))) dst"

section \<open>SRV\<close>

record dns_srv =
  priority :: nat
  weight :: nat
  port :: nat
  srv_target :: bytes

definition dns_srv_parse :: "dns_rr \<Rightarrow> dns_packet \<Rightarrow> (dns_error + dns_srv) option" where
  "dns_srv_parse rr P =
     (if room P < 6 then Some (Inl DNS_EILLEGAL)
      else do {
        pr \<leftarrow> be16_at P (rdp rr);
        w \<leftarrow> be16_at P (rdp rr + 2);
        po \<leftarrow> be16_at P (rdp rr + 4);
        r \<leftarrow> expand_host (replicate 256 0) (rdp rr + 6) P;
        Some (map_sum id (\<lambda>h. \<lparr>priority = pr, weight = w, port = po, srv_target = h\<rparr>) r)
      })"

definition dns_srv_push :: "dns_packet \<Rightarrow> dns_srv \<Rightarrow> (dns_error option \<times> dns_packet) option" where
  "dns_srv_push P srv = do {
     let e = pend P;
     let toolong = (\<lambda>P :: dns_packet. Some (Some DNS_ENOBUFS, P\<lparr>pend := e\<rparr>));
     if room P < 2 then toolong P
     else do {
       let P = P\<lparr>pend := e + 2\<rparr>;
       if room P < 6 then toolong P
       else do {
         P \<leftarrow> push_bytes (bytes16 (priority srv) @ bytes16 (weight srv) @ bytes16 (port srv)) P;
         (len, dst) \<leftarrow> dns_d_comp (drop (pend P) (data P)) (cstr (srv_target srv)) P;
         let P = P\<lparr>data := take (pend P) (data P) @ dst\<rparr>;
         if len = 0 then None
         else if room P < len then toolong P
         else do {
           let P = P\<lparr>pend := pend P + len\<rparr>;
           if 65535 < pend P then toolong P
           else do {
             P \<leftarrow> set_rdlen e P;
             Some (None, P)
           }
         }
       }
     }
   }"

definition dns_srv_cmp :: "dns_srv \<Rightarrow> dns_srv \<Rightarrow> int" where
  "dns_srv_cmp a b =
     (if priority a \<noteq> priority b then int (priority a) - int (priority b)
      else if weight a \<noteq> weight b then int (weight a) - int (weight b)
      else if port a \<noteq> port b then int (port a) - int (port b)
      else strcasecmp (srv_target a) (srv_target b))"

definition dns_srv_print :: "bytes \<Rightarrow> dns_srv \<Rightarrow> nat \<times> bytes" where
  "dns_srv_print dst srv =
     closep (spaced (dns__print10 (priority srv) 0)
            (spaced (dns__print10 (weight srv) 0)
            (spaced (dns__print10 (port srv) 0) (dns__printstring (cstr (srv_target srv)))))) dst"

definition dns_srv_cname :: "bytes \<Rightarrow> dns_srv \<Rightarrow> (nat \<times> bytes) option" where
  "dns_srv_cname dst srv = dns_strlcpy dst (srv_target srv)"

section \<open>SSHFP\<close>

record dns_sshfp =
  algo :: nat
  fptype :: nat
  sha1 :: bytes

abbreviation (input) DNS_SSHFP_SHA1 :: nat where "DNS_SSHFP_SHA1 \<equiv> 1"

definition dns_sshfp_parse :: "dns_sshfp \<Rightarrow> dns_rr \<Rightarrow> dns_packet \<Rightarrow> (dns_error + dns_sshfp) option" where
  "dns_sshfp_parse fp rr P =
     (if rdlen rr < 2 then Some (Inl DNS_EILLEGAL)
      else do {
        a \<leftarrow> rd (data P) (rdp rr);
        t \<leftarrow> rd (data P) (rdp rr + 1);
        let fp = fp\<lparr>algo := unat a, fptype := unat t\<rparr>;
        if unat t = DNS_SSHFP_SHA1 then
          if rdlen rr - 2 < 20 then Some (Inl DNS_EILLEGAL)
          else do {
            s \<leftarrow> rdn (data P) (rdp rr + 2) 20;
            Some (Inr (fp\<lparr>sha1 := s\<rparr>))
          }
        else Some (Inr fp)
      })"

definition dns_sshfp_push :: "dns_packet \<Rightarrow> dns_sshfp \<Rightarrow> (dns_error option \<times> dns_packet) option" where
  "dns_sshfp_push P fp = do {
     let e = pend P;
     if room P < 4 then Some (Some DNS_ENOBUFS, P)
     else do {
       d \<leftarrow> wrn (data P) (e + 2) [byte (algo fp), byte (fptype fp)];
       let P = P\<lparr>data := d\<rparr>;
       if fptype fp = DNS_SSHFP_SHA1 then
         if psize P - (e + 4) < 20 then Some (Some DNS_ENOBUFS, P)
         else do {
           d \<leftarrow> wrn (data P) (e + 4) (sha1 fp);
           P \<leftarrow> set_rdlen e (P\<lparr>data := d, pend := e + 24\<rparr>);
           Some (None, P)
         }
       else Some (Some DNS_EILLEGAL, P)
     }
   }"

definition dns_sshfp_cmp :: "dns_sshfp \<Rightarrow> dns_sshfp \<Rightarrow> int" where
  "dns_sshfp_cmp a b =
     (let cmp = int (algo a) - int (algo b)
      in if cmp \<noteq> 0 \<or> (cmp - int (fptype a) - int (fptype b)) mod 4294967296 \<noteq> 0 then cmp
         else if fptype a = DNS_SSHFP_SHA1 then bytecmp (sha1 a) (sha1 b)
         else 0)"

fun hex_print :: "bytes \<Rightarrow> bytes \<Rightarrow> nat \<Rightarrow> nat \<times> bytes" where
  "hex_print [] = dns__printstring []"
| "hex_print (b # bs) =
     seqp (dns__printchar (hexdigit (drop_bit 4 b))) (seqp (dns__printchar (hexdigit b)) (hex_print bs))"

definition dns_sshfp_print :: "bytes \<Rightarrow> dns_sshfp \<Rightarrow> nat \<times> bytes" where
  "dns_sshfp_print dst fp =
     closep (spaced (dns__print10 (algo fp) 0)
            (spaced (dns__print10 (fptype fp) 0)
              (if fptype fp = DNS_SSHFP_SHA1 then hex_print (sha1 fp) else dns__printchar 48))) dst"

section \<open>TXT\<close>

record dns_txt =
  txt_size :: nat
  txt_len :: nat
  txt_data :: bytes

text \<open>\<open>off\<close> is the offset of \<open>data\<close> in the structure; a failed assertion is \<open>None\<close>.\<close>

definition dns_txt_init :: "nat \<Rightarrow> dns_txt \<Rightarrow> nat \<Rightarrow> dns_txt option" where
  "dns_txt_init off t size' = (if off < size' then Some (t\<lparr>txt_size := size' - off, txt_len := 0\<rparr>) else None)"

definition txt_parse_body :: "dns_packet \<Rightarrow> nat \<Rightarrow> nat \<Rightarrow> bytes \<times> nat \<times> nat
    \<Rightarrow> ((bytes \<times> nat \<times> nat) + (dns_error + bytes \<times> nat)) option" where
  "txt_parse_body P dend send = (\<lambda>(dst, dp, sp).
     if sp < send then do {
       b \<leftarrow> rd (data P) sp;
       let n = unat b;
       let sp = sp + 1;
       if sz_sub send sp < n \<or> sz_sub dend dp < n then Some (Inr (Inl DNS_EILLEGAL))
       else do {
         s \<leftarrow> rdn (data P) sp n;
         dst \<leftarrow> wrn dst dp s;
         Some (Inl (dst, dp + n, sp + n))
       }
     }
     else Some (Inr (Inr (dst, dp))))"

definition dns_txt_parse :: "dns_txt \<Rightarrow> dns_rr \<Rightarrow> dns_packet \<Rightarrow> (dns_error + dns_txt) option" where
  "dns_txt_parse t rr P = do {
     r \<leftarrow> loop (txt_parse_body P (txt_size t) (rdp rr + rdlen rr)) (txt_data t, 0, rdp rr);
     Some (map_sum id (\<lambda>(dst, dp). t\<lparr>txt_data := dst, txt_len := dp\<rparr>) r)
   }"

definition txt_push_body :: "dns_txt \<Rightarrow> bytes \<times> nat \<times> nat
    \<Rightarrow> ((bytes \<times> nat \<times> nat) + (dns_error option \<times> bytes \<times> nat)) option" where
  "txt_push_body t = (\<lambda>(dst, dp, sp).
     if sp < txt_len t then do {
       let n = min 255 (txt_len t - sp);
       if length dst \<le> dp then Some (Inr (Some DNS_ENOBUFS, dst, dp))
       else do {
         dst \<leftarrow> wr dst dp (byte n);
         let dp = dp + 1;
         if length dst - dp < n then Some (Inr (Some DNS_ENOBUFS, dst, dp))
         else do {
           s \<leftarrow> rdn (txt_data t) sp n;
           dst \<leftarrow> wrn dst dp s;
           Some (Inl (dst, dp + n, sp + n))
         }
       }
     }
     else Some (Inr (None, dst, dp)))"

definition dns_txt_push :: "dns_packet \<Rightarrow> dns_txt \<Rightarrow> (dns_error option \<times> dns_packet) option" where
  "dns_txt_push P t =
     (if room P < 2 then Some (Some DNS_ENOBUFS, P)
      else do {
        let n = txt_len t + (txt_len t + 254) div 255;
        d \<leftarrow> wrn (data P) (pend P) (bytes16 n);
        (err, d, dp) \<leftarrow> loop (txt_push_body t) (d, pend P + 2, 0);
        Some (err, if err = None then P\<lparr>data := d, pend := dp\<rparr> else P\<lparr>data := d\<rparr>)
      })"

definition dns_txt_cmp :: "dns_txt \<Rightarrow> dns_txt \<Rightarrow> int" where
  "dns_txt_cmp a b = -1"

text \<open>One character of \<open>dns_txt_print\<close>, and the loop; \<open>i\<close> is \<open>src.p\<close> before the
  increment.\<close>

definition txt_char :: "u8 \<Rightarrow> bytes \<Rightarrow> nat \<Rightarrow> nat \<times> bytes" where
  "txt_char ch =
     (if ch < 32 \<or> 126 < ch \<or> ch = 34 \<or> ch = 92
      then seqp (dns__printchar 92) (dns__print10 (unat ch) 3)
      else dns__printchar ch)"

fun txt_print_loop :: "nat \<Rightarrow> bytes \<Rightarrow> bytes \<Rightarrow> nat \<Rightarrow> nat \<times> bytes" where
  "txt_print_loop i [] = dns__printchar 34"
| "txt_print_loop i (ch # cs) =
     (if i mod 255 = 0 \<and> i + 1 \<noteq> 1
      then seqp (dns__printchar 34) (seqp (dns__printchar 32) (seqp (dns__printchar 34)
             (seqp (txt_char ch) (txt_print_loop (i + 1) cs))))
      else seqp (txt_char ch) (txt_print_loop (i + 1) cs))"

definition dns_txt_print :: "bytes \<Rightarrow> dns_txt \<Rightarrow> nat \<times> bytes" where
  "dns_txt_print dst t =
     closep (seqp (dns__printchar 34) (txt_print_loop 0 (take (txt_len t) (txt_data t)))) dst"

section \<open>Any\<close>

abbreviation (input) DNS_T_A :: nat where "DNS_T_A \<equiv> 1"
abbreviation (input) DNS_T_NS :: nat where "DNS_T_NS \<equiv> 2"
abbreviation (input) DNS_T_CNAME :: nat where "DNS_T_CNAME \<equiv> 5"
abbreviation (input) DNS_T_SOA :: nat where "DNS_T_SOA \<equiv> 6"
abbreviation (input) DNS_T_PTR :: nat where "DNS_T_PTR \<equiv> 12"
abbreviation (input) DNS_T_MX :: nat where "DNS_T_MX \<equiv> 15"
abbreviation (input) DNS_T_TXT :: nat where "DNS_T_TXT \<equiv> 16"
abbreviation (input) DNS_T_AAAA :: nat where "DNS_T_AAAA \<equiv> 28"
abbreviation (input) DNS_T_SRV :: nat where "DNS_T_SRV \<equiv> 33"
abbreviation (input) DNS_T_SSHFP :: nat where "DNS_T_SSHFP \<equiv> 44"
abbreviation (input) DNS_T_SPF :: nat where "DNS_T_SPF \<equiv> 99"
abbreviation (input) DNS_T_ALL :: nat where "DNS_T_ALL \<equiv> 255"

text \<open>
  The union \<open>dns_any\<close> as a tagged sum. The source keeps the tag in the record type that it
  passes along; using a member other than the one stored is \<open>None\<close>. The table
  \<open>dns_rrtypes\<close> is the case distinction \<open>rrkind\<close> on the type.
\<close>

datatype dns_any =
  Any_a dns_a
| Any_aaaa dns_aaaa
| Any_mx dns_mx
| Any_ns dns_ns
| Any_soa dns_soa
| Any_srv dns_srv
| Any_sshfp dns_sshfp
| Any_txt dns_txt

datatype rrkind = KA | KAAAA | KMX | KNS | KSOA | KSRV | KTXT | KSSHFP | KUNKNOWN

definition dns_rrtypes :: "nat \<Rightarrow> rrkind" where
  "dns_rrtypes type =
     (if type = DNS_T_A then KA
      else if type = DNS_T_AAAA then KAAAA
      else if type = DNS_T_MX then KMX
      else if type = DNS_T_NS \<or> type = DNS_T_CNAME \<or> type = DNS_T_PTR then KNS
      else if type = DNS_T_SOA then KSOA
      else if type = DNS_T_SRV then KSRV
      else if type = DNS_T_TXT \<or> type = DNS_T_SPF then KTXT
      else if type = DNS_T_SSHFP then KSSHFP
      else KUNKNOWN)"

text \<open>The memory of the union before parsing. A caller has set the size of \<open>rdata\<close> with
  \<open>dns_any_init\<close>, or has not (\<open>dns_rr_cmp\<close>, \<open>dns_rr_i_match\<close>), and then \<open>sz\<close> is
  whatever the memory holds. The bytes of the buffers are not read before they are written.\<close>

definition dns_any_parse :: "nat \<Rightarrow> dns_rr \<Rightarrow> dns_packet \<Rightarrow> (dns_error + dns_any) option" where
  "dns_any_parse sz rr P =
     (case dns_rrtypes (rtype rr) of
        KA \<Rightarrow> map_option (map_sum id Any_a) (dns_a_parse rr P)
      | KAAAA \<Rightarrow> map_option (map_sum id Any_aaaa) (dns_aaaa_parse rr P)
      | KMX \<Rightarrow> map_option (map_sum id Any_mx)
                 (dns_mx_parse \<lparr>preference = 0, mx_host = replicate 256 0\<rparr> rr P)
      | KNS \<Rightarrow> map_option (map_sum id Any_ns) (dns_ns_parse \<lparr>ns_host = replicate 256 0\<rparr> rr P)
      | KSOA \<Rightarrow> map_option (map_sum id Any_soa)
                 (dns_soa_parse \<lparr>mname = replicate 256 0, rname = replicate 256 0, serial = 0,
                    refresh = 0, retry = 0, expire = 0, minimum = 0\<rparr> rr P)
      | KSRV \<Rightarrow> map_option (map_sum id Any_srv) (dns_srv_parse rr P)
      | KSSHFP \<Rightarrow> map_option (map_sum id Any_sshfp)
                 (dns_sshfp_parse \<lparr>algo = 0, fptype = 0, sha1 = replicate 20 0\<rparr> rr P)
      | KTXT \<Rightarrow> map_option (map_sum id Any_txt)
                 (dns_txt_parse \<lparr>txt_size = sz, txt_len = 0, txt_data = replicate 1024 0\<rparr> rr P)
      | KUNKNOWN \<Rightarrow>
          if sz < rdlen rr then Some (Inl DNS_EILLEGAL)
          else do {
            s \<leftarrow> rdn (data P) (rdp rr) (rdlen rr);
            d \<leftarrow> wrn (replicate 1024 0) 0 s;
            Some (Inr (Any_txt \<lparr>txt_size = sz, txt_len = rdlen rr, txt_data = d\<rparr>))
          })"

definition rdata_push :: "dns_packet \<Rightarrow> dns_txt \<Rightarrow> (dns_error option \<times> dns_packet) option" where
  "rdata_push P t =
     (if room P < txt_len t + 2 then Some (Some DNS_ENOBUFS, P)
      else do {
        P \<leftarrow> push_bytes (bytes16 (txt_len t)) P;
        s \<leftarrow> rdn (txt_data t) 0 (txt_len t);
        P \<leftarrow> push_bytes s P;
        Some (None, P)
      })"

definition dns_any_push :: "dns_packet \<Rightarrow> dns_any \<Rightarrow> nat \<Rightarrow> (dns_error option \<times> dns_packet) option" where
  "dns_any_push P any type =
     (case (dns_rrtypes type, any) of
        (KA, Any_a a) \<Rightarrow> dns_a_push P a
      | (KAAAA, Any_aaaa a) \<Rightarrow> dns_aaaa_push P a
      | (KMX, Any_mx m) \<Rightarrow> dns_mx_push P m
      | (KNS, Any_ns n) \<Rightarrow> dns_ns_push P n
      | (KSOA, Any_soa s) \<Rightarrow> dns_soa_push P s
      | (KSRV, Any_srv s) \<Rightarrow> dns_srv_push P s
      | (KSSHFP, Any_sshfp s) \<Rightarrow> dns_sshfp_push P s
      | (KTXT, Any_txt t) \<Rightarrow> dns_txt_push P t
      | (KUNKNOWN, Any_txt t) \<Rightarrow> rdata_push P t
      | _ \<Rightarrow> None)"

definition dns_any_cmp :: "dns_any \<Rightarrow> nat \<Rightarrow> dns_any \<Rightarrow> nat \<Rightarrow> int option" where
  "dns_any_cmp a x b y =
     (if x \<noteq> y then Some (int x - int y)
      else case (dns_rrtypes x, a, b) of
        (KA, Any_a a, Any_a b) \<Rightarrow> Some (dns_a_cmp a b)
      | (KAAAA, Any_aaaa a, Any_aaaa b) \<Rightarrow> Some (dns_aaaa_cmp a b)
      | (KMX, Any_mx a, Any_mx b) \<Rightarrow> Some (dns_mx_cmp a b)
      | (KNS, Any_ns a, Any_ns b) \<Rightarrow> Some (dns_ns_cmp a b)
      | (KSOA, Any_soa a, Any_soa b) \<Rightarrow> Some (dns_soa_cmp a b)
      | (KSRV, Any_srv a, Any_srv b) \<Rightarrow> Some (dns_srv_cmp a b)
      | (KSSHFP, Any_sshfp a, Any_sshfp b) \<Rightarrow> Some (dns_sshfp_cmp a b)
      | (KTXT, Any_txt a, Any_txt b) \<Rightarrow> Some (dns_txt_cmp a b)
      | (KUNKNOWN, _, _) \<Rightarrow> Some (-1)
      | _ \<Rightarrow> None)"

fun rdata_print_loop :: "bytes \<Rightarrow> bytes \<Rightarrow> nat \<Rightarrow> nat \<times> bytes" where
  "rdata_print_loop [] = dns__printchar 34"
| "rdata_print_loop (ch # cs) =
     seqp (dns__printchar 92) (seqp (dns__print10 (unat ch) 3) (rdata_print_loop cs))"

text \<open>\<open>ntop\<close> is the text \<open>dns_inet_ntop\<close> makes of the address.\<close>

definition dns_any_print :: "bytes \<Rightarrow> bytes \<Rightarrow> dns_any \<Rightarrow> nat \<Rightarrow> (nat \<times> bytes) option" where
  "dns_any_print ntop dst any type =
     (case (dns_rrtypes type, any) of
        (KA, Any_a a) \<Rightarrow> Some (dns_a_print ntop dst)
      | (KAAAA, Any_aaaa a) \<Rightarrow> Some (dns_aaaa_print ntop dst)
      | (KMX, Any_mx m) \<Rightarrow> Some (dns_mx_print dst m)
      | (KNS, Any_ns n) \<Rightarrow> Some (dns_ns_print dst n)
      | (KSOA, Any_soa s) \<Rightarrow> Some (dns_soa_print dst s)
      | (KSRV, Any_srv s) \<Rightarrow> Some (dns_srv_print dst s)
      | (KSSHFP, Any_sshfp s) \<Rightarrow> Some (dns_sshfp_print dst s)
      | (KTXT, Any_txt t) \<Rightarrow> Some (dns_txt_print dst t)
      | (KUNKNOWN, Any_txt t) \<Rightarrow>
          Some (closep (seqp (dns__printchar 34) (rdata_print_loop (take (txt_len t) (txt_data t)))) dst)
      | _ \<Rightarrow> None)"

definition dns_any_cname :: "bytes \<Rightarrow> dns_any \<Rightarrow> nat \<Rightarrow> (nat \<times> bytes) option" where
  "dns_any_cname dst any type =
     (case (dns_rrtypes type, any) of
        (KMX, Any_mx m) \<Rightarrow> dns_mx_cname dst m
      | (KNS, Any_ns n) \<Rightarrow> dns_ns_cname dst n
      | (KSRV, Any_srv s) \<Rightarrow> dns_srv_cname dst s
      | (k, _) \<Rightarrow> if k = KMX \<or> k = KNS \<or> k = KSRV then None else Some (0, dst))"

end
