(* ===== verification/Dns_Compress.thy ===== *)
theory Dns_Compress
  imports Dns_Name
begin

unbundle bit_operations_syntax

text \<open>
  The search of \<open>dns_d_comp\<close> follows names of the packet, and a packet can hold names that
  never end. This theory shows that it always returns in packets whose dictionary holds only
  names that do end (\<open>dict_fin\<close>), and that \<open>dns_d_push\<close> keeps it so: this is the contract
  of the encoder on which the record data routines rest.
\<close>

section \<open>Names that end\<close>

text \<open>\<open>fin_at H buf e n i\<close>: reading from offset \<open>i\<close> comes to a root after \<open>n\<close> labels, with
  no limit on pointers, and without looking at the offsets in \<open>H\<close>. The set is the hole that a
  record leaves for its length while its data is written.\<close>

inductive fin_at :: "nat set \<Rightarrow> bytes \<Rightarrow> nat \<Rightarrow> nat \<Rightarrow> nat \<Rightarrow> bool" for H buf e where
  fin_root: "i < e \<Longrightarrow> i \<notin> H \<Longrightarrow> buf ! i = 0 \<Longrightarrow> fin_at H buf e 0 i"
| fin_label: "i < e \<Longrightarrow> i \<notin> H \<Longrightarrow> label_type (buf ! i) = 0 \<Longrightarrow> label_len (buf ! i) = l \<Longrightarrow> 0 < l \<Longrightarrow> i + 1 + l \<le> e
    \<Longrightarrow> fin_at H buf e n (i + 1 + l) \<Longrightarrow> fin_at H buf e (Suc n) i"
| fin_pointer: "i + 1 < e \<Longrightarrow> i \<notin> H \<Longrightarrow> i + 1 \<notin> H \<Longrightarrow> label_type (buf ! i) = 3
    \<Longrightarrow> fin_at H buf e n (label_ptr (buf ! i) (buf ! (i + 1))) \<Longrightarrow> fin_at H buf e n i"

text \<open>A name that ends is decoded or rejected: \<open>dns_d_expand\<close> returns.\<close>

lemma fin_at_name_or_bad:
  "fin_at H buf e n i \<Longrightarrow> (\<exists>ls. name_at buf e k i ls) \<or> bad_at buf e k i"
proof (induction arbitrary: k rule: fin_at.induct)
  case (fin_root i)
  then show ?case by (blast intro: name_at.root)
next
  case (fin_label i l n)
  then show ?case by (blast intro: name_at.label bad_next)
next
  case (fin_pointer i n)
  show ?case
  proof (cases "k < 127")
    case True
    then show ?thesis
      using fin_pointer.IH [of "k + 1"] fin_pointer.hyps by (blast intro: name_at.pointer bad_target)
  next
    case False
    then show ?thesis
      using fin_pointer.hyps by (intro disjI2 bad_pointer) auto
  qed
qed

lemma name_at_fin: "name_at buf e k i ls \<Longrightarrow> fin_at {} buf e (length ls) i"
  by (induction rule: name_at.induct) (auto intro: fin_at.intros)

text \<open>The bytes outside the hole decide; bytes behind the packet may be added.\<close>

lemma fin_at_agree:
  assumes "fin_at H buf e n i" and "\<And>j. j < e \<Longrightarrow> j \<notin> H \<Longrightarrow> buf' ! j = buf ! j" and "e \<le> e'"
  shows "fin_at H buf' e' n i"
  using assms(1)
proof (induction rule: fin_at.induct)
  case (fin_root i)
  then show ?case using assms(2) [of i] assms(3) by (intro fin_at.fin_root) auto
next
  case (fin_label i l n)
  then show ?case using assms(2) [of i] assms(3) by (intro fin_at.fin_label) auto
next
  case (fin_pointer i n)
  then show ?case using assms(2) [of i] assms(2) [of "i + 1"] assms(3) by - (rule fin_at.fin_pointer, auto)
qed

lemma fin_at_hole: "fin_at H buf e n i \<Longrightarrow> (\<And>j. j < e \<Longrightarrow> j \<in> H' \<Longrightarrow> j \<in> H) \<Longrightarrow> fin_at H' buf e n i"
proof (induction rule: fin_at.induct)
  case (fin_pointer i n)
  then show ?case by - (rule fin_at.fin_pointer, auto)
qed (auto intro: fin_at.intros)

lemma l_expand_fin:
  assumes "fin_at H buf e n i" and "e \<le> length buf" and "e \<le> 65535"
  shows "\<exists>len dst' nxt. l_expand k dst i buf e = Some (len, dst', nxt) \<and>
    (len \<noteq> 0 \<longrightarrow> (\<exists>n'. n = Suc n' \<and> fin_at H buf e n' nxt))"
  using assms(1)
proof (induction arbitrary: k rule: fin_at.induct)
  case (fin_root i)
  then show ?case using l_expand_label [of i e buf 0 k dst] assms by simp
next
  case (fin_label i l n)
  then show ?case using l_expand_label [of i e buf l k dst] assms by auto
next
  case (fin_pointer i n)
  show ?case
  proof (cases "k < 127")
    case True
    then have "l_expand k dst i buf e = l_expand (k + 1) dst (label_ptr (buf ! i) (buf ! (i + 1))) buf e"
      using assms(2,3) fin_pointer(1-4) by (subst l_expand.simps) auto
    then show ?thesis using fin_pointer.IH [of "k + 1"] by (simp only:)
  next
    case False
    then show ?thesis using fin_pointer(1-4) assms by (auto simp: l_expand.simps [of k])
  qed
qed

section \<open>The search returns\<close>

lemma match_loop_returns:
  assumes "in_packet P" and "length W \<le> 65535"
  shows "fin_at {} W (length W) na ay \<Longrightarrow> fin_at H (data P) (pend P) nb by' \<Longrightarrow>
    \<exists>r. loop (match_body W P) ((al, alen, ay), (bl, blen, by')) = Some r"
proof (induction na arbitrary: al alen ay bl blen by' nb)
  case 0
  show ?case
  proof (cases "alen \<noteq> 0 \<and> blen \<noteq> 0 \<and> strcaseeq al bl")
    case False
    then show ?thesis by (subst loop.simps) (auto simp: match_body_def)
  next
    case True
    obtain al' ay' where a: "l_expand 0 al ay W (length W) = Some (0, al', ay')"
      using l_expand_fin [OF 0(1) _ assms(2), of 0 al] by auto
    obtain m bl' b' where b: "l_expand 0 bl by' (data P) (pend P) = Some (m, bl', b')"
      using l_expand_fin [OF 0(2), of 0 bl] assms(1) by (auto simp: in_packet_def)
    have "match_body W P ((al, alen, ay), (bl, blen, by')) = Some (Inl ((al', 0, ay'), (bl', m, b')))"
      using True a b by (simp add: match_body_def dns_l_expand_def)
    moreover have "match_body W P ((al', 0, ay'), (bl', m, b')) = Some (Inr ((al', 0), (bl', m)))"
      by (simp add: match_body_def)
    ultimately show ?thesis by (simp add: loop_next loop_done)
  qed
next
  case (Suc na)
  show ?case
  proof (cases "alen \<noteq> 0 \<and> blen \<noteq> 0 \<and> strcaseeq al bl")
    case False
    then show ?thesis by (subst loop.simps) (auto simp: match_body_def)
  next
    case True
    obtain n al' ay' where a: "l_expand 0 al ay W (length W) = Some (n, al', ay')"
      "n \<noteq> 0 \<longrightarrow> fin_at {} W (length W) na ay'"
      using l_expand_fin [OF Suc.prems(1) _ assms(2), of 0 al] by auto
    obtain m bl' b' where b: "l_expand 0 bl by' (data P) (pend P) = Some (m, bl', b')"
      "m \<noteq> 0 \<longrightarrow> (\<exists>nb'. fin_at H (data P) (pend P) nb' b')"
      using l_expand_fin [OF Suc.prems(2), of 0 bl] assms(1) by (auto simp: in_packet_def)
    have step: "match_body W P ((al, alen, ay), (bl, blen, by')) = Some (Inl ((al', n, ay'), (bl', m, b')))"
      using True a b by (simp add: match_body_def dns_l_expand_def)
    show ?thesis
    proof (cases "n = 0 \<or> m = 0")
      case True
      then have "match_body W P ((al', n, ay'), (bl', m, b')) = Some (Inr ((al', n), (bl', m)))"
        by (auto simp: match_body_def)
      then show ?thesis using step by (simp add: loop_next loop_done)
    next
      case False
      then show ?thesis using Suc.IH a b step by (auto simp: loop_next)
    qed
  qed
qed

lemma dict_loop_returns:
  assumes "in_packet P" and "length W \<le> 65535" and "fin_at {} W (length W) na ax"
  shows "fin_at H (data P) (pend P) nb bp \<Longrightarrow>
    \<exists>hit a bl'. loop (dict_body W P ax) (a0, bl, bp) = Some (hit, a, bl') \<and>
      (\<forall>b. hit = Some b \<longrightarrow> b \<le> 0x3fff \<and> (\<exists>n. fin_at H (data P) (pend P) n b))"
proof (induction nb arbitrary: a0 bl bp)
  case 0
  obtain bl' bx where "l_expand 0 bl bp (data P) (pend P) = Some (0, bl', bx)"
    using l_expand_fin [OF 0, of 0 bl] assms(1) by (auto simp: in_packet_def)
  then have "dict_body W P ax (a0, bl, bp) = Some (Inr (None, a0, bl'))"
    by (cases a0) (simp add: dict_body_def dns_l_expand_def)
  then show ?case by (simp add: loop_done)
next
  case (Suc nb)
  obtain m bl' bx where b: "l_expand 0 bl bp (data P) (pend P) = Some (m, bl', bx)"
    "m \<noteq> 0 \<longrightarrow> fin_at H (data P) (pend P) nb bx"
    using l_expand_fin [OF Suc.prems, of 0 bl] assms(1) by (auto simp: in_packet_def)
  obtain al alen where a0: "a0 = (al, alen)" by fastforce
  show ?case
  proof (cases "m = 0")
    case True
    then have "dict_body W P ax (a0, bl, bp) = Some (Inr (None, a0, bl'))"
      using b a0 by (simp add: dict_body_def dns_l_expand_def)
    then show ?thesis by (simp add: loop_done)
  next
    case False
    then obtain al' alen' bl'' blen' where m: "loop (match_body W P) ((al, alen, ax), (bl', m, bx)) = Some ((al', alen'), (bl'', blen'))"
      using match_loop_returns [OF assms(1,2,3), of H nb bx al alen bl' m] b(2) by auto
    show ?thesis
    proof (cases "alen' = 0 \<and> blen' = 0 \<and> bp \<le> 0x3fff")
      case True
      then have "dict_body W P ax (a0, bl, bp) = Some (Inr (Some bp, (al', alen'), bl''))"
        using b m False a0 by (simp add: dict_body_def dns_l_expand_def)
      then show ?thesis using True Suc.prems by (auto simp: loop_done)
    next
      case no: False
      then have "dict_body W P ax (a0, bl, bp) = Some (Inl ((al', alen'), bl'', bx))"
        using b m False a0 by (auto simp: dict_body_def dns_l_expand_def)
      then show ?thesis using Suc.IH [of bx] b(2) False by (simp add: loop_next)
    qed
  qed
qed

text \<open>The dictionary holds offsets of names that end; 0 is an empty slot.\<close>

definition dict_fin :: "nat set \<Rightarrow> dns_packet \<Rightarrow> bool" where
  "dict_fin H P \<longleftrightarrow> (\<forall>d \<in> set (dict P). d \<noteq> 0 \<longrightarrow> (\<exists>n. fin_at H (data P) (pend P) n d))"

lemma dict_scan_returns:
  assumes "in_packet P" and "length W \<le> 65535" and "fin_at {} W (length W) na ax"
  shows "\<forall>d \<in> set ds. d \<noteq> 0 \<longrightarrow> (\<exists>n. fin_at H (data P) (pend P) n d) \<Longrightarrow>
    \<exists>hit a bl'. dict_scan W P ax (a0, bl) ds = Some (hit, a, bl') \<and>
      (\<forall>b. hit = Some b \<longrightarrow> b \<le> 0x3fff \<and> (\<exists>n. fin_at H (data P) (pend P) n b))"
proof (induction ds arbitrary: a0 bl)
  case (Cons d ds)
  show ?case
  proof (cases "d = 0")
    case False
    then obtain n where "fin_at H (data P) (pend P) n d" using Cons.prems by auto
    then obtain hit a bl' where l: "loop (dict_body W P ax) (a0, bl, d) = Some (hit, a, bl')"
      "\<forall>b. hit = Some b \<longrightarrow> b \<le> 0x3fff \<and> (\<exists>n. fin_at H (data P) (pend P) n b)"
      using dict_loop_returns [OF assms] by blast
    then show ?thesis
      using Cons.IH [of a bl'] Cons.prems False by (cases hit) auto
  qed simp
qed simp

lemma suffix_search_returns:
  assumes "in_packet P" and "length W \<le> 65535" and "dict_fin H P" and "list_all valid_label ls"
  shows "take (length (enc pre @ wire ls)) W = enc pre @ wire ls \<Longrightarrow>
    \<exists>hit. loop (suffix_body W P) (al, bl, length (enc pre)) = Some hit \<and>
      (\<forall>ap b. hit = Some (ap, b) \<longrightarrow> b \<le> 0x3fff \<and> (\<exists>n. fin_at H (data P) (pend P) n b) \<and>
        (\<exists>ls1 ls2. ls = ls1 @ ls2 \<and> ls2 \<noteq> [] \<and> ap = length (enc (pre @ ls1))))"
  using assms(4)
proof (induction ls arbitrary: pre al bl)
  case Nil
  have "length (enc pre @ wire []) \<le> length W"
    using Nil(1) by (metis length_take min.cobounded1)
  moreover have "take (length (wire [])) (drop (length (enc pre)) W) = wire []"
    using arg_cong [OF Nil(1), of "drop (length (enc pre))"] by (simp add: drop_take)
  ultimately have "name_at W (length W) 0 (length (enc pre)) []"
    by (intro name_at_wire) auto
  from l_expand_name [OF this _ assms(2), of al] obtain d n where
    "l_expand 0 al (length (enc pre)) W (length W) = Some (0, d, n)" by auto
  then have "suffix_body W P (al, bl, length (enc pre)) = Some (Inr None)"
    by (simp add: suffix_body_def dns_l_expand_def)
  then show ?case by (simp add: loop_done)
next
  case (Cons l ls)
  have len: "length (enc pre @ wire (l # ls)) \<le> length W"
    using Cons.prems(1) by (metis length_take min.cobounded1)
  have at: "take (length (wire (l # ls))) (drop (length (enc pre)) W) = wire (l # ls)"
    using arg_cong [OF Cons.prems(1), of "drop (length (enc pre))"] by (simp add: drop_take)
  have l: "l \<noteq> []" "length l \<le> 63" using Cons.prems(2) by (auto simp: valid_label_def)
  have name: "name_at W (length W) 0 (length (enc pre)) (l # ls)"
    using at len Cons.prems(2) by (intro name_at_wire) auto
  have "W ! length (enc pre) = byte (length l)"
    using arg_cong [OF at, of hd] len by (simp add: wire_enc hd_drop_conv_nth)
  then have a: "l_expand 0 al (length (enc pre)) W (length W)
      = Some (length l, nul (blit al 0 (take (length l) (drop (length (enc pre) + 1) W))) (length l), length (enc (pre @ [l])))"
    using l_expand_label [of "length (enc pre)" "length W" W "length l" 0 al] len l assms(2)
    by (simp add: wire_enc)
  have next_at: "take (length (enc (pre @ [l]) @ wire ls)) W = enc (pre @ [l]) @ wire ls"
    using Cons.prems(1) by (simp add: wire_enc)
  have "name_at W (length W) 0 (length (enc (pre @ [l]))) ls"
  proof (rule name_at_wire)
    show "take (length (wire ls)) (drop (length (enc (pre @ [l]))) W) = wire ls"
      using arg_cong [OF next_at, of "drop (length (enc (pre @ [l])))"] by (simp add: drop_take)
  qed (use len Cons.prems(2) in \<open>auto simp: wire_enc\<close>)
  then have "fin_at {} W (length W) (length ls) (length (enc (pre @ [l])))"
    by (rule name_at_fin)
  then obtain hit a bl' where s: "dict_scan W P (length (enc (pre @ [l]))) ((nul (blit al 0 (take (length l)
        (drop (length (enc pre) + 1) W))) (length l), length l), bl) (dict P) = Some (hit, a, bl')"
    "\<forall>b. hit = Some b \<longrightarrow> b \<le> 0x3fff \<and> (\<exists>n. fin_at H (data P) (pend P) n b)"
    using dict_scan_returns [OF assms(1,2), of "length ls" _ "dict P"] assms(3) unfolding dict_fin_def by blast
  obtain al' alen' where a': "a = (al', alen')" by fastforce
  show ?case
  proof (cases hit)
    case None
    then have step: "suffix_body W P (al, bl, length (enc pre)) = Some (Inl (al', bl', length (enc (pre @ [l]))))"
      using a s a' l by (simp add: suffix_body_def dns_l_expand_def)
    obtain h where h: "loop (suffix_body W P) (al', bl', length (enc (pre @ [l]))) = Some h"
      "\<forall>ap b. h = Some (ap, b) \<longrightarrow> b \<le> 0x3fff \<and> (\<exists>n. fin_at H (data P) (pend P) n b) \<and>
        (\<exists>ls1 ls2. ls = ls1 @ ls2 \<and> ls2 \<noteq> [] \<and> ap = length (enc ((pre @ [l]) @ ls1)))"
      using Cons.IH [OF next_at, of al' bl'] Cons.prems(2) unfolding list.pred_inject by blast
    have "\<exists>ls1 ls2. l # ls = ls1 @ ls2 \<and> ls2 \<noteq> [] \<and> ap = length (enc (pre @ ls1))" if hap: "h = Some (ap, b)" for ap b
    proof -
      obtain ls1 ls2 where "ls = ls1 @ ls2" "ls2 \<noteq> []" "ap = length (enc ((pre @ [l]) @ ls1))"
        using h(2) hap by blast
      then show ?thesis by (intro exI [of _ "l # ls1"] exI [of _ ls2]) simp
    qed
    moreover have "loop (suffix_body W P) (al, bl, length (enc pre)) = Some h"
      using h(1) step by (simp only: loop_next)
    ultimately show ?thesis using h(2) by blast
  next
    case (Some b)
    then have "suffix_body W P (al, bl, length (enc pre)) = Some (Inr (Some (length (enc pre), b)))"
      using a s a' l by (simp add: suffix_body_def dns_l_expand_def)
    then have "loop (suffix_body W P) (al, bl, length (enc pre)) = Some (Some (length (enc pre), b))"
      by (rule loop_done)
    moreover have "\<exists>ls1 ls2. l # ls = ls1 @ ls2 \<and> ls2 \<noteq> [] \<and> length (enc pre) = length (enc (pre @ ls1))"
      by (intro exI [of _ "[]"] exI [of _ "l # ls"]) simp
    ultimately show ?thesis using s(2) Some by blast
  qed
qed

section \<open>The encoder\<close>

definition ptr_bytes :: "nat \<Rightarrow> bytes" where
  "ptr_bytes b = [0xc0 OR (0x3f AND byte (b div 256)), byte b]"

text \<open>What \<open>dns_d_comp\<close> leaves for a name: its full encoding, or its first labels followed by
  a pointer to a name of the packet.\<close>

definition encodes :: "nat set \<Rightarrow> dns_packet \<Rightarrow> bytes list \<Rightarrow> bytes \<Rightarrow> bool" where
  "encodes H P ls w \<longleftrightarrow> w = wire ls \<or> (\<exists>ls1 ls2 b n. ls = ls1 @ ls2 \<and> ls2 \<noteq> [] \<and> b \<le> 0x3fff
     \<and> fin_at H (data P) (pend P) n b \<and> w = enc ls1 @ ptr_bytes b)"

lemma dns_d_comp_returns:
  assumes "in_packet P" and "dict_fin H P" and "list_all valid_label ls" and "length d \<le> 65535"
  shows "\<exists>n d'. dns_d_comp d (name_text ls) P = Some (n, d') \<and> length d' = length d \<and> 0 < n
    \<and> n \<le> length (wire ls) \<and> (if length d < length (wire ls) then length d < n else n \<le> length d \<and> encodes H P ls (take n d'))"
proof (cases "length (wire ls) < length d")
  case False
  then show ?thesis
    by (cases "length (wire ls) = length d")
      (auto simp: dns_d_comp_def comp_encode_wire [OF assms(3)] blit_whole encodes_def wire_enc)
next
  case True
  define W where "W = wire ls @ drop (length (wire ls)) d"
  have lenW: "length W = length d" using True by (simp add: W_def)
  have enc: "comp_encode d (name_text ls) = (W, length (wire ls))"
    using True by (simp add: comp_encode_wire [OF assms(3)] blit_whole W_def)
  obtain hit where hit: "loop (suffix_body W P) (replicate 64 0, replicate 64 0, 0) = Some hit"
    "\<forall>ap b. hit = Some (ap, b) \<longrightarrow> b \<le> 0x3fff \<and> (\<exists>n. fin_at H (data P) (pend P) n b) \<and>
        (\<exists>ls1 ls2. ls = ls1 @ ls2 \<and> ls2 \<noteq> [] \<and> ap = length (enc ls1))"
    using suffix_search_returns [OF assms(1) _ assms(2,3), of W "[]" "replicate 64 0" "replicate 64 0"] assms(4) lenW
    by (auto simp: W_def)
  show ?thesis
  proof (cases hit)
    case None
    then have "dns_d_comp d (name_text ls) P = Some (length (wire ls), W)"
      using True hit(1) lenW enc by (simp add: dns_d_comp_def)
    then show ?thesis using True lenW by (auto simp: encodes_def W_def wire_enc)
  next
    case (Some h)
    then obtain b ls1 ls2 n where h: "h = (length (enc ls1), b)" "b \<le> 0x3fff" "fin_at H (data P) (pend P) n b"
      "ls = ls1 @ ls2" "ls2 \<noteq> []"
      using hit(2) by (cases h) auto
    have "2 \<le> length (enc ls2)"
      using h(4,5) assms(3) by (cases ls2) (auto simp: valid_label_def Suc_le_eq)
    then have le: "length (enc ls1) + 2 \<le> length (wire ls)" using h(4) by (simp add: wire_enc)
    define W' where "W' = W[length (enc ls1) := 0xc0 OR (0x3f AND byte (b div 256)), length (enc ls1) + 1 := byte b]"
    have "dns_d_comp d (name_text ls) P = Some (length (enc ls1) + 2, W')"
      using True hit(1) lenW enc Some h(1) le by (simp add: dns_d_comp_def wr_def W'_def)
    moreover have "take (length (enc ls1) + 2) W' = enc ls1 @ ptr_bytes b"
    proof -
      have "take (length (enc ls1)) W = enc ls1"
        using h(4) by (simp add: W_def wire_enc)
      then show ?thesis
        using le True lenW by (simp add: W'_def ptr_bytes_def take_Suc_conv_app_nth take_update_cancel)
    qed
    ultimately show ?thesis
      using h le True lenW by (auto simp: encodes_def W'_def)
  qed
qed

lemma fin_at_labels:
  "list_all valid_label ls \<Longrightarrow> i + length (enc ls) \<le> e \<Longrightarrow> e \<le> length buf \<Longrightarrow>
    take (length (enc ls)) (drop i buf) = enc ls \<Longrightarrow> fin_at H buf e n (i + length (enc ls)) \<Longrightarrow>
    (\<And>h. h \<in> H \<Longrightarrow> h < i) \<Longrightarrow> \<exists>m. fin_at H buf e m i"
proof (induction ls arbitrary: i)
  case (Cons l ls)
  have eq: "take (1 + length l + length (enc ls)) (drop i buf) = byte (length l) # l @ enc ls"
    using Cons.prems(4) by simp
  have i: "buf ! i = byte (length l)"
    using arg_cong [OF eq, of hd] Cons.prems(2,3) by (simp add: hd_drop_conv_nth)
  have "take (length (enc ls)) (drop (i + 1 + length l) buf) = enc ls"
    using arg_cong [OF eq, of "drop (1 + length l)"] by (simp add: drop_take add.commute)
  then obtain m where "fin_at H buf e m (i + 1 + length l)"
    using Cons.IH [of "i + 1 + length l"] Cons.prems by (force simp: add.assoc)
  then have "fin_at H buf e (Suc m) i"
    using i Cons.prems(1,2,6) by (intro fin_label) (auto simp: valid_label_def)
  then show ?case by blast
qed auto

lemma encodes_fin:
  assumes "encodes H P ls w" and "list_all valid_label ls" and "in_packet P" and hole: "\<And>h. h \<in> H \<Longrightarrow> h < pend P"
    and agree: "\<And>j. j < pend P \<Longrightarrow> j \<notin> H \<Longrightarrow> buf ! j = data P ! j"
    and len: "pend P + length w \<le> e" "e \<le> length buf" and w_at: "take (length w) (drop (pend P) buf) = w"
  shows "\<exists>m. fin_at H buf e m (pend P)"
proof -
  have no_hole: "pend P + m \<notin> H" for m using hole [of "pend P + m"] by auto
  have at: "buf ! (pend P + m) = w ! m" if "m < length w" for m
    using arg_cong [OF w_at, of "\<lambda>x. x ! m"] that len by simp
  have labels: "\<exists>m. fin_at H buf e m (pend P)"
    if "fin_at H buf e n (pend P + length (enc l1))" "w = enc l1 @ x" "list_all valid_label l1" for n l1 x
  proof (rule fin_at_labels [OF that(3) _ len(2) _ that(1) hole])
    show "take (length (enc l1)) (drop (pend P) buf) = enc l1"
      using arg_cong [OF w_at, of "take (length (enc l1))"] that(2) by (simp add: min_def)
  qed (use len that(2) in auto)
  from assms(1) consider "w = wire ls"
    | ls1 ls2 b n where "ls = ls1 @ ls2" "b \<le> 0x3fff" "fin_at H (data P) (pend P) n b" "w = enc ls1 @ ptr_bytes b"
    unfolding encodes_def by blast
  then show ?thesis
  proof cases
    case 1
    have "fin_at H buf e 0 (pend P + length (enc ls))"
      using at [of "length (enc ls)"] 1 len no_hole by (intro fin_root) (auto simp: wire_enc)
    then show ?thesis using labels [of 0 ls] 1 assms(2) by (auto simp: wire_enc)
  next
    case (2 ls1 ls2 b n)
    let ?j = "pend P + length (enc ls1)"
    have "buf ! ?j = 0xc0 OR (0x3f AND byte (b div 256))" "buf ! (?j + 1) = byte b"
      using at [of "length (enc ls1)"] at [of "length (enc ls1) + 1"]
      by (simp_all add: 2(4) ptr_bytes_def nth_append add.assoc)
    moreover have "fin_at H buf e n b"
      using 2(3) by (rule fin_at_agree) (use agree len in auto)
    ultimately have "fin_at H buf e n ?j"
      using pointer_bytes [OF 2(2)] len 2(4) no_hole [of "length (enc ls1)"] no_hole [of "length (enc ls1) + 1"]
      by - (rule fin_pointer, auto simp: ptr_bytes_def)
    then show ?thesis using labels [of n ls1] 2 assms(2) by auto
  qed
qed

section \<open>The contract of writers\<close>

text \<open>What every routine that appends to a packet leaves alone: the size, the bytes up to the
  old end, the section offsets and the number of dictionary slots.\<close>

definition kept :: "dns_packet \<Rightarrow> dns_packet \<Rightarrow> bool" where
  "kept P P' \<longleftrightarrow> psize P' = psize P \<and> take (pend P) (data P') = take (pend P) (data P)
     \<and> length (dict P') = length (dict P) \<and> qd P' = qd P \<and> an P' = an P \<and> ns P' = ns P \<and> ar P' = ar P"

lemma kept_refl [simp]: "kept P P"
  by (simp add: kept_def)

lemma kept_trans: "kept P Q \<Longrightarrow> kept Q R \<Longrightarrow> pend P \<le> pend Q \<Longrightarrow> kept P R"
  unfolding kept_def by (metis min.absorb1 take_take)

lemma kept_nth: "kept P P' \<Longrightarrow> pend P \<le> psize P \<Longrightarrow> j < pend P \<Longrightarrow> data P' ! j = data P ! j"
  unfolding kept_def by (metis nth_take)

text \<open>\<open>appends H P (err, P')\<close>: success extends the packet and keeps the dictionary free of
  endless names outside the hole; failure restores the end.\<close>

definition appends :: "nat set \<Rightarrow> dns_packet \<Rightarrow> dns_error option \<times> dns_packet \<Rightarrow> bool" where
  "appends H P = (\<lambda>(err, P'). kept P P' \<and>
     (if err = None then pend P < pend P' \<and> pend P' \<le> psize P \<and> dict_fin H P' else pend P' = pend P))"

lemma appends_ok: "packet_ok P \<Longrightarrow> appends H P (None, P') \<Longrightarrow> packet_ok P' \<and> dict_fin H P'"
  by (auto simp: appends_def kept_def packet_ok_def)

lemma set_dict_set: "set (dict (dict_set P i dn)) \<subseteq> insert dn (set (dict P))"
  by (auto simp: dict_set_def split: option.split dest!: set_update_subset_insert [THEN subsetD])

lemma dict_set_simps [simp]:
  "data (dict_set P i dn) = data P" "pend (dict_set P i dn) = pend P" "psize (dict_set P i dn) = psize P"
  "qd (dict_set P i dn) = qd P" "an (dict_set P i dn) = an P" "ns (dict_set P i dn) = ns P" "ar (dict_set P i dn) = ar P"
  by (simp_all add: dict_set_def psize_def split: option.split)

lemma dns_d_push_appends:
  assumes "packet_ok P" and "dict_fin H P" and hole: "\<And>h. h \<in> H \<Longrightarrow> h < pend P" and "list_all valid_label ls"
  shows "\<exists>err P'. dns_d_push P (name_text ls) = Some (err, P') \<and> appends H P (err, P')
    \<and> err = (if length (wire ls) \<le> psize P - pend P then None else Some DNS_ENOBUFS)"
proof -
  let ?d = "drop (pend P) (data P)"
  have P: "in_packet P" "pend P \<le> length (data P)" "length ?d \<le> 65535"
    using assms(1) by (auto simp: packet_ok_def psize_def)
  obtain n d' where c: "dns_d_comp ?d (name_text ls) P = Some (n, d')" "length d' = length ?d" "0 < n"
    and n: "if length ?d < length (wire ls) then length ?d < n else n \<le> length ?d \<and> encodes H P ls (take n d')"
    using dns_d_comp_returns [OF P(1) assms(2,4) P(3)] by blast
  define Q where "Q = P\<lparr>data := take (pend P) (data P) @ d'\<rparr>"
  have Q: "kept P Q" using P c(2) by (simp add: Q_def kept_def psize_def)
  show ?thesis
  proof (cases "length ?d < length (wire ls)")
    case True
    then have "dns_d_push P (name_text ls) = Some (Some DNS_ENOBUFS, Q)"
      using c n P by (simp add: dns_d_push_def psize_def Q_def)
    then show ?thesis using Q True by (auto simp: appends_def psize_def Q_def)
  next
    case False
    define R where "R = Q\<lparr>pend := pend P + n\<rparr>"
    have R: "in_packet R" "length (data R) = length (data P)" "n \<le> length d'"
      using False n P c(2) assms(1) by (auto simp: R_def Q_def in_packet_def packet_ok_def psize_def)
    obtain i where "dns_p_dictadd R (pend P) = Some (dict_set R i (u16 (pend P)))"
      using dns_p_dictadd_total [of R "pend P"] R(1) unfolding in_packet_def by blast
    moreover have "u16 (pend P) = pend P" using assms(1) by (simp add: packet_ok_def)
    ultimately have push: "dns_d_push P (name_text ls) = Some (None, dict_set R i (pend P))"
      using c n False P by (simp add: dns_d_push_def psize_def Q_def R_def Let_def)
    have agree: "data R ! j = data P ! j" if "j < pend P" for j
      using that P by (simp add: R_def Q_def nth_append)
    have "take (length (take n d')) (drop (pend P) (data R)) = take n d'"
      using R(3) P by (simp add: R_def Q_def)
    then have "\<exists>m. fin_at H (data R) (pend R) m (pend P)"
      using n False R(3) P c(2) assms(4) agree hole
      by (intro encodes_fin [of H P ls "take n d'"]) (auto simp: R_def Q_def)
    moreover have "\<exists>m. fin_at H (data R) (pend R) m d" if d: "d \<in> set (dict P)" "d \<noteq> 0" for d
    proof -
      obtain m where "fin_at H (data P) (pend P) m d" using d assms(2) by (auto simp: dict_fin_def)
      then have "fin_at H (data R) (pend R) m d" by (rule fin_at_agree) (use agree in \<open>auto simp: R_def\<close>)
      then show ?thesis by blast
    qed
    ultimately have "dict_fin H (dict_set R i (pend P))"
      using set_dict_set [of R i "pend P"] by (fastforce simp: dict_fin_def R_def Q_def)
    then show ?thesis
      using push Q c(3) R False n P by (auto simp: appends_def kept_def R_def Q_def psize_def)
  qed
qed

text \<open>C9: \<open>dns_d_push\<close> always returns in a packet whose dictionary holds only names that end,
  and keeps the packet so. It succeeds exactly when the uncompressed name fits; then the packet
  is well formed and longer and its earlier bytes are unchanged. Otherwise it reports
  \<open>DNS_ENOBUFS\<close> and the end stays where it was.\<close>

theorem dns_d_push_total:
  assumes "packet_ok P" and "dict_fin {} P" and "list_all valid_label ls"
  shows "\<exists>err P'. dns_d_push P (name_text ls) = Some (err, P') \<and> kept P P' \<and>
    (if length (wire ls) \<le> psize P - pend P
     then err = None \<and> packet_ok P' \<and> dict_fin {} P' \<and> pend P < pend P'
     else err = Some DNS_ENOBUFS \<and> pend P' = pend P)"
proof -
  obtain err P' where r: "dns_d_push P (name_text ls) = Some (err, P')" "appends {} P (err, P')"
    "err = (if length (wire ls) \<le> psize P - pend P then None else Some DNS_ENOBUFS)"
    using dns_d_push_appends [of P "{}" ls] assms by blast
  show ?thesis
  proof (cases "length (wire ls) \<le> psize P - pend P")
    case True
    then show ?thesis
      using r appends_ok [OF assms(1), of "{}" P'] by (simp add: appends_def)
  next
    case False
    then show ?thesis using r by (simp add: appends_def)
  qed
qed

lemma dict_fin_empty: "dict P = replicate n 0 \<Longrightarrow> dict_fin H P"
  by (simp add: dict_fin_def)

theorem dns_d_push_total_witness:
  "let P = \<lparr>dict = replicate 16 0, qd = no_memo, an = no_memo, ns = no_memo, ar = no_memo,
            pend = 12, data = replicate 64 0\<rparr>
   in packet_ok P \<and> dict_fin {} P \<and>
      (\<exists>P'. dns_d_push P (name_text [[97], [98]]) = Some (None, P') \<and> packet_ok P' \<and> 12 < pend P')"
proof -
  define P where "P = \<lparr>dict = replicate 16 0, qd = no_memo, an = no_memo, ns = no_memo, ar = no_memo,
    pend = 12, data = replicate 64 (0::u8)\<rparr>"
  have P: "packet_ok P" "dict_fin {} P" "list_all valid_label [[97], [98]]"
    by (simp_all add: P_def packet_ok_def psize_def valid_label_def dict_fin_def)
  have "length (wire [[97], [98]]) \<le> psize P - pend P"
    by (simp add: P_def psize_def wire_def)
  with dns_d_push_total [OF P] have "\<exists>P'. dns_d_push P (name_text [[97], [98]]) = Some (None, P')
      \<and> packet_ok P' \<and> pend P < pend P'" by (elim exE conjE) (simp del: One_nat_def)
  moreover have "pend P = 12" by (simp add: P_def)
  ultimately show ?thesis
    using P(1,2) unfolding Let_def P_def [symmetric] by simp
qed

section \<open>The writer interface\<close>

text \<open>A writer appends to a packet: it returns for every well-formed packet and keeps the contract
  above. Its clients see only this. \<open>H\<close> are bytes of the header that no name of the dictionary
  uses, so that they can be changed later.\<close>

locale writer =
  fixes w :: "dns_packet \<Rightarrow> (dns_error option \<times> dns_packet) option"
  assumes returns: "packet_ok P \<Longrightarrow> dict_fin H P \<Longrightarrow> H \<subseteq> {..<12} \<Longrightarrow> \<exists>r. w P = Some r \<and> appends H P r"
begin

lemma total: "packet_ok P \<Longrightarrow> dict_fin H P \<Longrightarrow> H \<subseteq> {..<12} \<Longrightarrow> \<exists>err P'. w P = Some (err, P')"
  using returns by fast

lemma contract: "packet_ok P \<Longrightarrow> dict_fin H P \<Longrightarrow> H \<subseteq> {..<12} \<Longrightarrow> w P = Some r \<Longrightarrow> appends H P r"
  using returns by fastforce

lemma success:
  assumes "packet_ok P" and "dict_fin H P" and "H \<subseteq> {..<12}" and "w P = Some (None, P')"
  shows "packet_ok P' \<and> dict_fin H P' \<and> kept P P' \<and> pend P < pend P'"
  using contract [OF assms] appends_ok [OF assms(1), of H P'] by (simp add: appends_def)

lemma failure:
  assumes "packet_ok P" and "dict_fin H P" and "H \<subseteq> {..<12}" and "w P = Some (Some e, P')"
  shows "kept P P' \<and> pend P' = pend P"
  using contract [OF assms] by (simp add: appends_def)

end

lemma writer_name: "list_all valid_label ls \<Longrightarrow> writer (\<lambda>P. dns_d_push P (name_text ls))"
proof
  fix P H
  assume "list_all valid_label ls" "packet_ok P" "dict_fin H P" "H \<subseteq> {..<12}"
  moreover from this have "\<And>h. h \<in> H \<Longrightarrow> h < pend P"
    by (auto simp: packet_ok_def)
  ultimately show "\<exists>r. dns_d_push P (name_text ls) = Some r \<and> appends H P r"
    using dns_d_push_appends [of P H ls] by blast
qed

end
