(* ===== verification/Dns_Writers.thy ===== *)
theory Dns_Writers
  imports Dns_Rdata Dns_Compress
begin

unbundle bit_operations_syntax

text \<open>
  Every routine that pushes record data is a \<open>writer\<close>: it returns, stays inside the buffer,
  leaves the earlier bytes alone, and on failure puts the end back. The proofs follow the three
  moves the routines share: open a hole of two bytes for the length, append, and close the hole.
  \<open>dns_any_push\<close> inherits the contract through the table of record types.
\<close>

section \<open>The moves\<close>

lemma room_ok [simp]: "packet_ok P \<Longrightarrow> room P = psize P - pend P"
  by (simp add: room_def packet_ok_def)

lemma dict_finI:
  assumes "dict_fin H P" and "dict Q = dict P" and "\<And>j. j < pend P \<Longrightarrow> j \<notin> H \<Longrightarrow> data Q ! j = data P ! j"
    and "pend P \<le> pend Q"
  shows "dict_fin H Q"
  using assms(1,2) fin_at_agree [OF _ assms(3,4)] unfolding dict_fin_def by fastforce

lemma dict_fin_hole:
  assumes "dict_fin H P" and "\<And>j. j < pend P \<Longrightarrow> j \<in> H' \<Longrightarrow> j \<in> H"
  shows "dict_fin H' P"
  using assms(1) fin_at_hole [OF _ assms(2)] unfolding dict_fin_def by fastforce

lemma length_bytes16 [simp]: "length (bytes16 n) = 2"
  by (simp add: bytes16_def)

lemma length_bytes32 [simp]: "length (bytes32 n) = 4"
  by (simp add: bytes32_def)

lemma open_hole:
  assumes "packet_ok P" "dict_fin H P" "pend P + 2 \<le> psize P"
  shows "packet_ok (P\<lparr>pend := pend P + 2\<rparr>)" "dict_fin ({pend P, pend P + 1} \<union> H) (P\<lparr>pend := pend P + 2\<rparr>)"
    "kept P (P\<lparr>pend := pend P + 2\<rparr>)"
proof -
  show "packet_ok (P\<lparr>pend := pend P + 2\<rparr>)" "kept P (P\<lparr>pend := pend P + 2\<rparr>)"
    using assms by (auto simp: packet_ok_def kept_def psize_def)
  have "dict_fin ({pend P, pend P + 1} \<union> H) P"
    using assms(2) by (rule dict_fin_hole) auto
  then show "dict_fin ({pend P, pend P + 1} \<union> H) (P\<lparr>pend := pend P + 2\<rparr>)"
    by (rule dict_finI) auto
qed

lemma push_bytes_eq:
  "pend P + length bs \<le> psize P \<Longrightarrow> push_bytes bs P =
    Some (P\<lparr>data := take (pend P) (data P) @ bs @ drop (pend P + length bs) (data P), pend := pend P + length bs\<rparr>)"
  by (simp add: push_bytes_def wrn_in psize_def)

lemma push_bytes_appends:
  assumes "packet_ok P" "dict_fin H P" "pend P + length bs \<le> psize P"
  shows "\<exists>P'. push_bytes bs P = Some P' \<and> packet_ok P' \<and> dict_fin H P' \<and> kept P P' \<and> pend P' = pend P + length bs"
proof -
  let ?P' = "P\<lparr>data := take (pend P) (data P) @ bs @ drop (pend P + length bs) (data P), pend := pend P + length bs\<rparr>"
  have "dict_fin H ?P'"
    using assms(2) by (rule dict_finI) (use assms in \<open>auto simp: nth_append packet_ok_def psize_def\<close>)
  moreover have "packet_ok ?P'" "kept P ?P'"
    using assms by (auto simp: packet_ok_def kept_def psize_def)
  ultimately show ?thesis using push_bytes_eq [OF assms(3)] by simp
qed

lemma close_hole:
  assumes "packet_ok Q" "dict_fin ({e, e + 1} \<union> H) Q" "e + 2 \<le> pend Q"
  shows "\<exists>Q'. set_rdlen e Q = Some Q' \<and> packet_ok Q' \<and> dict_fin H Q' \<and> pend Q' = pend Q \<and> psize Q' = psize Q
    \<and> data Q' = take e (data Q) @ bytes16 (pend Q - (e + 2)) @ drop (e + 2) (data Q)
    \<and> dict Q' = dict Q \<and> qd Q' = qd Q \<and> an Q' = an Q \<and> ns Q' = ns Q \<and> ar Q' = ar Q"
proof -
  let ?d = "take e (data Q) @ bytes16 (pend Q - (e + 2)) @ drop (e + 2) (data Q)"
  have len: "e + 2 \<le> length (data Q)" "length ?d = length (data Q)"
    using assms by (auto simp: packet_ok_def psize_def)
  then have eq: "set_rdlen e Q = Some (Q\<lparr>data := ?d\<rparr>)"
    using assms(3) by (simp add: set_rdlen_def wrn_in)
  have "?d ! j = data Q ! j" if "j \<notin> {e, e + 1}" for j
  proof (cases "j < e")
    case False
    with that have "e + 2 \<le> j" by simp
    then obtain k where "j = e + 2 + k" using le_Suc_ex by blast
    then show ?thesis using len(1) by (simp add: nth_append bytes16_def)
  qed (use len in \<open>simp add: nth_append\<close>)
  then have "dict_fin ({e, e + 1} \<union> H) (Q\<lparr>data := ?d\<rparr>)"
    by (intro dict_finI [OF assms(2)]) simp_all
  then have "dict_fin H (Q\<lparr>data := ?d\<rparr>)"
    by (rule dict_fin_hole) simp
  moreover have "packet_ok (Q\<lparr>data := ?d\<rparr>)"
    using assms(1) len by (simp add: packet_ok_def psize_def)
  ultimately show ?thesis using eq len by (simp add: psize_def)
qed

lemma finish_hole:
  assumes "packet_ok P" "packet_ok Q" "dict_fin ({pend P, pend P + 1} \<union> H) Q" "kept P Q" "pend P + 2 \<le> pend Q"
  shows "\<exists>Q'. set_rdlen (pend P) Q = Some Q' \<and> appends H P (None, Q')"
proof -
  obtain Q' where Q': "set_rdlen (pend P) Q = Some Q'" "packet_ok Q'" "dict_fin H Q'" "pend Q' = pend Q" "psize Q' = psize Q"
    "data Q' = take (pend P) (data Q) @ bytes16 (pend Q - (pend P + 2)) @ drop (pend P + 2) (data Q)"
    "dict Q' = dict Q" "qd Q' = qd Q" "an Q' = an Q" "ns Q' = ns Q" "ar Q' = ar Q"
    using close_hole [OF assms(2,3,5)] by blast
  have "pend P \<le> length (data Q)" using assms(1,4) by (simp add: packet_ok_def kept_def psize_def)
  then have "take (pend P) (data Q') = take (pend P) (data Q)" using Q'(6) by simp
  then have "kept P Q'" using assms(4) Q'(5,7-11) by (simp add: kept_def)
  moreover have "pend Q' \<le> psize P" using Q'(2,5) assms(4) by (simp add: packet_ok_def kept_def)
  ultimately show ?thesis using Q'(1,3,4) assms(5) by (auto simp: appends_def)
qed

lemma fail_hole: "kept P Q \<Longrightarrow> err \<noteq> None \<Longrightarrow> appends H P (err, Q\<lparr>pend := pend P\<rparr>)"
  by (simp add: appends_def kept_def psize_def)

lemma plain_success:
  "packet_ok Q \<Longrightarrow> dict_fin H Q \<Longrightarrow> kept P Q \<Longrightarrow> pend P < pend Q \<Longrightarrow> appends H P (None, Q)"
  by (auto simp: appends_def kept_def packet_ok_def)

section \<open>The record types\<close>

interpretation wa: writer "\<lambda>P. dns_a_push P a" for a
proof
  fix P H
  assume P: "packet_ok P" "dict_fin H P" and low: "H \<subseteq> {..<12}"
  show "\<exists>r. dns_a_push P a = Some r \<and> appends H P r"
  proof (cases "psize P - pend P < 6")
    case True
    then show ?thesis using P by (simp add: dns_a_push_def appends_def)
  next
    case False
    then have sz: "pend P + 6 \<le> psize P" by simp
    obtain Q where Q: "push_bytes [0, 4] P = Some Q" "packet_ok Q" "dict_fin H Q" "kept P Q" "pend Q = pend P + 2"
      using push_bytes_appends [OF P, of "[0, 4]"] sz by auto
    moreover have "psize Q = psize P" using Q(4) by (simp add: kept_def)
    ultimately obtain R where "push_bytes (bytes32 a) Q = Some R" "packet_ok R" "dict_fin H R" "kept Q R" "pend R = pend Q + 4"
      using push_bytes_appends [OF Q(2,3), of "bytes32 a"] sz by auto
    then show ?thesis
      using P Q False kept_trans [OF Q(4)] by (auto simp: dns_a_push_def intro: plain_success)
  qed
qed

lemma writer_aaaa: "length a = 16 \<Longrightarrow> writer (\<lambda>P. dns_aaaa_push P a)"
proof
  fix P H
  assume a: "length a = 16" and P: "packet_ok P" "dict_fin H P" and low: "H \<subseteq> {..<12}"
  show "\<exists>r. dns_aaaa_push P a = Some r \<and> appends H P r"
  proof (cases "psize P - pend P < 18")
    case True
    then show ?thesis using P by (simp add: dns_aaaa_push_def appends_def)
  next
    case False
    then have sz: "pend P + 18 \<le> psize P" by simp
    obtain Q where Q: "push_bytes [0, 0x10] P = Some Q" "packet_ok Q" "dict_fin H Q" "kept P Q" "pend Q = pend P + 2"
      using push_bytes_appends [OF P, of "[0, 0x10]"] sz by auto
    moreover have "psize Q = psize P" using Q(4) by (simp add: kept_def)
    ultimately obtain R where "push_bytes a Q = Some R" "packet_ok R" "dict_fin H R" "kept Q R" "pend R = pend Q + 16"
      using push_bytes_appends [OF Q(2,3), of a] sz a by auto
    then show ?thesis
      using P Q False kept_trans [OF Q(4)] by (auto simp: dns_aaaa_push_def intro: plain_success)
  qed
qed

text \<open>A host field holds a name: its text is the dotted form of valid labels.\<close>

definition host_ok :: "bytes \<Rightarrow> bool" where
  "host_ok h \<longleftrightarrow> (\<exists>ls. list_all valid_label ls \<and> cstr h = name_text ls)"

lemma push_host:
  assumes "host_ok h" "packet_ok P" "packet_ok Q" "dict_fin ({pend P, pend P + 1} \<union> H) Q" "kept P Q" "pend P + 2 \<le> pend Q"
    "H \<subseteq> {..<12}"
  shows "\<exists>err R. dns_d_push Q (cstr h) = Some (err, R) \<and> kept P R \<and>
    (err = None \<longrightarrow> packet_ok R \<and> dict_fin ({pend P, pend P + 1} \<union> H) R \<and> pend Q < pend R)"
proof -
  obtain ls where ls: "list_all valid_label ls" "cstr h = name_text ls" using assms(1) by (auto simp: host_ok_def)
  have "h < pend Q" if "h \<in> {pend P, pend P + 1} \<union> H" for h
    using that assms(3,6,7) by (auto simp: packet_ok_def)
  then obtain err R where r: "dns_d_push Q (name_text ls) = Some (err, R)" "appends ({pend P, pend P + 1} \<union> H) Q (err, R)"
    using dns_d_push_appends [OF assms(3,4) _ ls(1)] by blast
  then have "kept Q R" by (simp add: appends_def)
  then have "kept P R" using kept_trans [OF assms(5)] assms(6) by simp
  then show ?thesis
    using r ls(2) appends_ok [OF assms(3)] by (auto simp: appends_def)
qed

lemma writer_ns: "host_ok (ns_host n) \<Longrightarrow> writer (\<lambda>P. dns_ns_push P n)"
proof
  fix P H
  assume h: "host_ok (ns_host n)" and P: "packet_ok P" "dict_fin H P" and low: "H \<subseteq> {..<12}"
  show "\<exists>r. dns_ns_push P n = Some r \<and> appends H P r"
  proof (cases "psize P - pend P < 3")
    case True
    then show ?thesis using P by (simp add: dns_ns_push_def appends_def)
  next
    case False
    then have sz: "pend P + 3 \<le> psize P" by simp
    note hole = open_hole [OF P]
    obtain err R where R: "dns_d_push (P\<lparr>pend := pend P + 2\<rparr>) (cstr (ns_host n)) = Some (err, R)" "kept P R"
      "err = None \<longrightarrow> packet_ok R \<and> dict_fin ({pend P, pend P + 1} \<union> H) R \<and> pend P + 2 < pend R"
      using push_host [OF h P(1) hole _ low] sz by auto
    then show ?thesis
      using P False finish_hole [OF P(1), of R H] fail_hole [OF R(2), of err]
      by (cases err) (auto simp: dns_ns_push_def Let_def)
  qed
qed

lemma writer_mx: "host_ok (mx_host m) \<Longrightarrow> writer (\<lambda>P. dns_mx_push P m)"
proof
  fix P H
  assume h: "host_ok (mx_host m)" and P: "packet_ok P" "dict_fin H P" and low: "H \<subseteq> {..<12}"
  show "\<exists>r. dns_mx_push P m = Some r \<and> appends H P r"
  proof (cases "psize P - pend P < 5")
    case True
    then show ?thesis using P by (simp add: dns_mx_push_def appends_def)
  next
    case False
    then have sz: "pend P + 5 \<le> psize P" by simp
    let ?H = "P\<lparr>pend := pend P + 2\<rparr>"
    have hole: "packet_ok ?H" "dict_fin ({pend P, pend P + 1} \<union> H) ?H" "kept P ?H"
      using open_hole [OF P] sz by auto
    obtain Q where Q: "push_bytes (bytes16 (preference m)) ?H = Some Q" "packet_ok Q"
      "dict_fin ({pend P, pend P + 1} \<union> H) Q" "kept ?H Q" "pend Q = pend P + 4"
      using push_bytes_appends [OF hole(1,2), of "bytes16 (preference m)"] sz by (auto simp: psize_def)
    have "kept P Q" using kept_trans [OF hole(3) Q(4)] by simp
    then obtain err R where R: "dns_d_push Q (cstr (mx_host m)) = Some (err, R)" "kept P R"
      "err = None \<longrightarrow> packet_ok R \<and> dict_fin ({pend P, pend P + 1} \<union> H) R \<and> pend P + 4 < pend R"
      using push_host [OF h P(1) Q(2,3) _ _ low] Q(5) by auto
    then show ?thesis
      using P False Q(1) finish_hole [OF P(1), of R H] fail_hole [OF R(2), of err]
      by (cases err) (auto simp: dns_mx_push_def Let_def)
  qed
qed

lemma soa_push_names_appends:
  assumes "packet_ok P" "list_all host_ok hs" "H \<subseteq> {..<12}"
  shows "packet_ok Q \<Longrightarrow> dict_fin ({pend P, pend P + 1} \<union> H) Q \<Longrightarrow> kept P Q \<Longrightarrow> pend P + 2 \<le> pend Q \<Longrightarrow>
    \<exists>err R. soa_push_names (map cstr hs) Q = Some (err, R) \<and> kept P R \<and>
      (err = None \<longrightarrow> packet_ok R \<and> dict_fin ({pend P, pend P + 1} \<union> H) R \<and> pend Q \<le> pend R)"
  using assms(2)
proof (induction hs arbitrary: Q)
  case (Cons h hs)
  obtain err R where R: "dns_d_push Q (cstr h) = Some (err, R)" "kept P R"
    "err = None \<longrightarrow> packet_ok R \<and> dict_fin ({pend P, pend P + 1} \<union> H) R \<and> pend Q < pend R"
    using push_host [OF _ assms(1) Cons.prems(1-4) assms(3), of h] Cons.prems(5) by auto
  show ?case
  proof (cases err)
    case None
    then obtain e S where "soa_push_names (map cstr hs) R = Some (e, S)" "kept P S"
      "e = None \<longrightarrow> packet_ok S \<and> dict_fin ({pend P, pend P + 1} \<union> H) S \<and> pend R \<le> pend S"
      using Cons.IH [of R] R Cons.prems(4,5) by auto
    then show ?thesis using R None by auto
  next
    case (Some e)
    then show ?thesis using R by auto
  qed
qed simp

lemma soa_push_numbers_appends:
  "packet_ok Q \<Longrightarrow> dict_fin H Q \<Longrightarrow> \<exists>err R. soa_push_numbers ts Q = Some (err, R) \<and> kept Q R \<and>
    (err = None \<longrightarrow> packet_ok R \<and> dict_fin H R \<and> pend Q \<le> pend R)"
proof (induction ts arbitrary: Q)
  case (Cons t ts)
  show ?case
  proof (cases "psize Q \<le> pend Q + 4")
    case True
    then show ?thesis by (auto simp: Let_def psize_def kept_def)
  next
    case False
    obtain R where R: "push_bytes (bytes32 t) Q = Some R" "packet_ok R" "dict_fin H R" "kept Q R" "pend R = pend Q + 4"
      using push_bytes_appends [OF Cons.prems, of "bytes32 t"] False by auto
    obtain err S where S: "soa_push_numbers ts R = Some (err, S)" "kept R S"
      "err = None \<longrightarrow> packet_ok S \<and> dict_fin H S \<and> pend R \<le> pend S"
      using Cons.IH [OF R(2,3)] by blast
    have "soa_push_numbers (t # ts) Q = soa_push_numbers ts R"
      using R(1) False by (cases Q) (auto simp: Let_def psize_def push_bytes_def split: bind_splits)
    then show ?thesis using S R(5) kept_trans [OF R(4) S(2)] by auto
  qed
qed simp

lemma writer_soa: "host_ok (mname s) \<Longrightarrow> host_ok (rname s) \<Longrightarrow> writer (\<lambda>P. dns_soa_push P s)"
proof
  fix P H
  assume h: "host_ok (mname s)" "host_ok (rname s)" and P: "packet_ok P" "dict_fin H P" and low: "H \<subseteq> {..<12}"
  let ?H = "P\<lparr>pend := pend P + 2\<rparr>"
  let ?ts = "[serial s mod 4294967296, refresh s mod 2147483648, retry s mod 2147483648,
            expire s mod 2147483648, minimum s mod 4294967296]"
  show "\<exists>r. dns_soa_push P s = Some r \<and> appends H P r"
  proof (cases "psize P \<le> pend P + 2")
    case True
    then show ?thesis by (simp add: dns_soa_push_def Let_def appends_def kept_def psize_def)
  next
    case False
    then have sz: "pend P + 2 \<le> psize P" by simp
    obtain e1 Q where Q: "soa_push_names [cstr (mname s), cstr (rname s)] ?H = Some (e1, Q)" "kept P Q"
      "e1 = None \<longrightarrow> packet_ok Q \<and> dict_fin ({pend P, pend P + 1} \<union> H) Q \<and> pend P + 2 \<le> pend Q"
      using soa_push_names_appends [OF P(1) _ low open_hole [OF P sz], of "[mname s, rname s]"] h by auto
    have start: "dns_soa_push P s = (if e1 \<noteq> None then Some (e1, Q\<lparr>pend := pend P\<rparr>) else do {
        (err, R) \<leftarrow> soa_push_numbers ?ts Q;
        if err \<noteq> None then Some (err, R\<lparr>pend := pend P\<rparr>) else do { R \<leftarrow> set_rdlen (pend P) R; Some (None, R) } })"
      using False Q(1) by (simp add: dns_soa_push_def Let_def psize_def)
    show ?thesis
    proof (cases e1)
      case None
      then obtain e2 R where R: "soa_push_numbers ?ts Q = Some (e2, R)" "kept Q R"
        "e2 = None \<longrightarrow> packet_ok R \<and> dict_fin ({pend P, pend P + 1} \<union> H) R \<and> pend Q \<le> pend R"
        using soa_push_numbers_appends Q(3) by blast
      have "kept P R" using kept_trans [OF Q(2) R(2)] Q(3) None by simp
      then show ?thesis
        using start None R Q(3) finish_hole [OF P(1), of R H] fail_hole [of P R e2] by (cases e2) auto
    qed (use start fail_hole [OF Q(2), of e1] in auto)
  qed
qed

text \<open>\<open>dns_srv_push\<close> calls the encoder itself and does not enter the name in the dictionary.\<close>

lemma comp_appends:
  assumes "packet_ok P" "packet_ok Q" "dict_fin ({pend P, pend P + 1} \<union> H) Q" "kept P Q" "pend P + 2 \<le> pend Q" "host_ok h"
  shows "\<exists>n d. dns_d_comp (drop (pend Q) (data Q)) (cstr h) Q = Some (n, d) \<and> 0 < n \<and>
    kept P (Q\<lparr>data := take (pend Q) (data Q) @ d\<rparr>) \<and> length d = psize Q - pend Q \<and>
    dict_fin ({pend P, pend P + 1} \<union> H) (Q\<lparr>data := take (pend Q) (data Q) @ d, pend := pend Q + n\<rparr>)"
proof -
  let ?d = "drop (pend Q) (data Q)"
  have Q: "in_packet Q" "pend Q \<le> length (data Q)" "length ?d \<le> 65535"
    using assms(2) by (auto simp: packet_ok_def psize_def)
  obtain ls where ls: "list_all valid_label ls" "cstr h = name_text ls" using assms(6) by (auto simp: host_ok_def)
  obtain n d where d: "dns_d_comp ?d (cstr h) Q = Some (n, d)" "length d = length ?d" "0 < n"
    using dns_d_comp_returns [OF Q(1) assms(3) ls(1) Q(3)] ls(2) by auto
  have "kept Q (Q\<lparr>data := take (pend Q) (data Q) @ d\<rparr>)"
    using Q d(2) by (simp add: kept_def psize_def)
  then have "kept P (Q\<lparr>data := take (pend Q) (data Q) @ d\<rparr>)"
    using kept_trans [OF assms(4)] assms(5) by simp
  moreover have "dict_fin ({pend P, pend P + 1} \<union> H) (Q\<lparr>data := take (pend Q) (data Q) @ d, pend := pend Q + n\<rparr>)"
    using assms(3) by (rule dict_finI) (use Q in \<open>auto simp: nth_append\<close>)
  ultimately show ?thesis using d Q by (simp add: psize_def)
qed

lemma writer_srv: "host_ok (srv_target s) \<Longrightarrow> writer (\<lambda>P. dns_srv_push P s)"
proof
  fix P H
  assume h: "host_ok (srv_target s)" and P: "packet_ok P" "dict_fin H P" and low: "H \<subseteq> {..<12}"
  let ?H = "P\<lparr>pend := pend P + 2\<rparr>"
  let ?bs = "bytes16 (priority s) @ bytes16 (weight s) @ bytes16 (port s)"
  show "\<exists>r. dns_srv_push P s = Some r \<and> appends H P r"
  proof (cases "psize P < pend P + 8")
    case True
    then have "room P < 2 \<or> (pend P + 2 \<le> psize P \<and> psize P - (pend P + 2) < 6)" using P by auto
    then have "room P < 2 \<or> room P \<ge> 2 \<and> room ?H < 6"
      using P open_hole(1) [OF P] by (auto simp: psize_def)
    then have "dns_srv_push P s = Some (Some DNS_ENOBUFS, P)"
      by (auto simp: dns_srv_push_def Let_def)
    then show ?thesis by (simp add: appends_def)
  next
    case False
    then have sz: "pend P + 2 \<le> psize P" by simp
    note hole = open_hole [OF P sz]
    obtain Q where Q: "push_bytes ?bs ?H = Some Q" "packet_ok Q" "dict_fin ({pend P, pend P + 1} \<union> H) Q" "kept ?H Q" "pend Q = pend P + 8"
      using push_bytes_appends [OF hole(1,2), of ?bs] False by (auto simp: psize_def)
    have keep: "kept P Q" using kept_trans [OF hole(3) Q(4)] by simp
    obtain n d where d: "dns_d_comp (drop (pend Q) (data Q)) (cstr (srv_target s)) Q = Some (n, d)" "0 < n"
      "kept P (Q\<lparr>data := take (pend Q) (data Q) @ d\<rparr>)" "length d = psize Q - pend Q"
      "dict_fin ({pend P, pend P + 1} \<union> H) (Q\<lparr>data := take (pend Q) (data Q) @ d, pend := pend Q + n\<rparr>)"
      using comp_appends [OF P(1) Q(2,3) keep _ h] Q(5) by auto
    let ?R = "Q\<lparr>data := take (pend Q) (data Q) @ d\<rparr>"
    let ?S = "Q\<lparr>data := take (pend Q) (data Q) @ d, pend := pend Q + n\<rparr>"
    have R: "packet_ok ?R" using Q(2) d(4) by (simp add: packet_ok_def psize_def)
    have "\<not> room P < 2" "\<not> room ?H < 6" using False P hole(1) by (simp_all add: psize_def)
    then have eq: "dns_srv_push P s = (if psize Q - pend Q < n then Some (Some DNS_ENOBUFS, ?R\<lparr>pend := pend P\<rparr>)
        else if 65535 < pend Q + n then Some (Some DNS_ENOBUFS, ?S\<lparr>pend := pend P\<rparr>)
        else do { R \<leftarrow> set_rdlen (pend P) ?S; Some (None, R) })"
      using Q(1) d(1,2,4) R Q(2) by (simp add: dns_srv_push_def Let_def psize_def packet_ok_def)
    show ?thesis
    proof (cases "psize Q - pend Q < n")
      case True
      then show ?thesis using eq fail_hole [OF d(3), of "Some DNS_ENOBUFS"] by simp
    next
      case False
      then have S: "packet_ok ?S" "kept P ?S" "\<not> 65535 < pend Q + n"
        using R d(3,4) by (auto simp: packet_ok_def psize_def kept_def)
      then show ?thesis using eq False finish_hole [OF P(1) S(1) d(5) S(2)] Q(5) by auto
    qed
  qed
qed

lemma beyond_end:
  assumes "packet_ok P" "dict_fin H P" "pend P \<le> i" "i + length bs \<le> psize P"
  shows "\<exists>d. wrn (data P) i bs = Some d \<and> packet_ok (P\<lparr>data := d\<rparr>) \<and> dict_fin H (P\<lparr>data := d\<rparr>) \<and> kept P (P\<lparr>data := d\<rparr>)
    \<and> length d = psize P"
proof -
  let ?d = "take i (data P) @ bs @ drop (i + length bs) (data P)"
  have "dict_fin H (P\<lparr>data := ?d\<rparr>)"
    using assms(2) by (rule dict_finI) (use assms in \<open>simp_all add: nth_append psize_def\<close>)
  moreover have "packet_ok (P\<lparr>data := ?d\<rparr>)" "kept P (P\<lparr>data := ?d\<rparr>)"
    using assms by (simp_all add: packet_ok_def kept_def psize_def)
  ultimately show ?thesis using assms(4) by (simp add: wrn_in psize_def)
qed

lemma moved_end:
  "packet_ok P \<Longrightarrow> dict_fin H P \<Longrightarrow> pend P \<le> e \<Longrightarrow> e \<le> psize P \<Longrightarrow>
    packet_ok (P\<lparr>pend := e\<rparr>) \<and> dict_fin H (P\<lparr>pend := e\<rparr>) \<and> kept P (P\<lparr>pend := e\<rparr>)"
  by (auto simp: packet_ok_def kept_def psize_def intro: dict_finI)

lemma writer_sshfp: "length (sha1 f) = 20 \<Longrightarrow> writer (\<lambda>P. dns_sshfp_push P f)"
proof
  fix P H
  assume f: "length (sha1 f) = 20" and P: "packet_ok P" "dict_fin H P" and low: "H \<subseteq> {..<12}"
  let ?H = "{pend P, pend P + 1} \<union> H"
  have hole: "dict_fin ?H P" using P(2) by (rule dict_fin_hole) auto
  show "\<exists>r. dns_sshfp_push P f = Some r \<and> appends H P r"
  proof (cases "psize P - pend P < 4")
    case True
    then show ?thesis using P by (simp add: dns_sshfp_push_def appends_def Let_def)
  next
    case False
    then have sz: "pend P + 4 \<le> psize P" by simp
    obtain d where d: "wrn (data P) (pend P + 2) [byte (algo f), byte (fptype f)] = Some d" "packet_ok (P\<lparr>data := d\<rparr>)"
      "dict_fin ?H (P\<lparr>data := d\<rparr>)" "kept P (P\<lparr>data := d\<rparr>)" "length d = psize P"
      using beyond_end [OF P(1) hole, of "pend P + 2" "[byte (algo f), byte (fptype f)]"] sz by auto
    show ?thesis
    proof (cases "fptype f = 1 \<and> pend P + 24 \<le> psize P")
      case True
      obtain d' where d': "wrn d (pend P + 4) (sha1 f) = Some d'" "packet_ok (P\<lparr>data := d'\<rparr>)"
        "dict_fin ?H (P\<lparr>data := d'\<rparr>)" "kept (P\<lparr>data := d\<rparr>) (P\<lparr>data := d'\<rparr>)"
        using beyond_end [OF d(2,3), of "pend P + 4" "sha1 f"] True f d(5) by (auto simp: psize_def)
      let ?R = "P\<lparr>data := d', pend := pend P + 24\<rparr>"
      have R: "packet_ok ?R" "dict_fin ?H ?R" "kept (P\<lparr>data := d'\<rparr>) ?R"
        using moved_end [OF d'(2,3), of "pend P + 24"] True d'(4) d(5) by (auto simp: psize_def kept_def)
      have "kept P ?R"
        using kept_trans [OF kept_trans [OF d(4) d'(4)] R(3)] by simp
      then have "\<exists>Q'. set_rdlen (pend P) ?R = Some Q' \<and> appends H P (None, Q')"
        using finish_hole [OF P(1) R(1,2)] by simp
      then show ?thesis
        using P False d(1,5) d'(1) True by (auto simp: dns_sshfp_push_def Let_def psize_def)
    next
      case no: False
      then have "fptype f = 1 \<longrightarrow> psize P - (pend P + 4) < 20" by auto
      then have "\<exists>e. dns_sshfp_push P f = Some (Some e, P\<lparr>data := d\<rparr>)"
        using P False d(1,5) by (cases "fptype f = 1") (simp_all add: dns_sshfp_push_def Let_def psize_def)
      then obtain e where "dns_sshfp_push P f = Some (Some e, P\<lparr>data := d\<rparr>)" by blast
      moreover have "appends H P (Some e, P\<lparr>data := d\<rparr>)" using d(4) by (simp add: appends_def)
      ultimately show ?thesis by blast
    qed
  qed
qed

lemma writer_rdata: "txt_len t \<le> length (txt_data t) \<Longrightarrow> writer (\<lambda>P. rdata_push P t)"
proof
  fix P H
  assume t: "txt_len t \<le> length (txt_data t)" and P: "packet_ok P" "dict_fin H P" and low: "H \<subseteq> {..<12}"
  show "\<exists>r. rdata_push P t = Some r \<and> appends H P r"
  proof (cases "psize P - pend P < txt_len t + 2")
    case True
    then show ?thesis using P by (simp add: rdata_push_def appends_def)
  next
    case False
    then have sz: "pend P + txt_len t + 2 \<le> psize P" by simp
    obtain Q where Q: "push_bytes (bytes16 (txt_len t)) P = Some Q" "packet_ok Q" "dict_fin H Q" "kept P Q" "pend Q = pend P + 2"
      using push_bytes_appends [OF P, of "bytes16 (txt_len t)"] sz by auto
    moreover have "psize Q = psize P" using Q(4) by (simp add: kept_def)
    ultimately obtain R where "push_bytes (take (txt_len t) (txt_data t)) Q = Some R" "packet_ok R" "dict_fin H R" "kept Q R"
      "pend R = pend Q + txt_len t"
      using push_bytes_appends [OF Q(2,3), of "take (txt_len t) (txt_data t)"] sz t by (auto simp: min.absorb1 min.absorb2)
    then show ?thesis
      using P Q False t kept_trans [OF Q(4)] by (auto simp: rdata_push_def rdn_in intro: plain_success)
  qed
qed

text \<open>The wire form of a text: character strings of at most 255 bytes, each behind its length.\<close>

fun chunks :: "bytes \<Rightarrow> bytes" where
  "chunks [] = []"
| "chunks (x # xs) = byte (min 255 (length (x # xs))) # take 255 (x # xs) @ chunks (drop 255 (x # xs))"

lemma chunks_step: "xs \<noteq> [] \<Longrightarrow> chunks xs = byte (min 255 (length xs)) # take 255 xs @ chunks (drop 255 xs)"
  by (cases xs) simp_all

lemma length_chunks: "length (chunks xs) = length xs + (length xs + 254) div 255"
proof (induction "length xs" arbitrary: xs rule: less_induct)
  case less
  show ?case
  proof (cases "xs = []")
    case False
    have step: "(255 + m) div 255 = 1 + m div (255 :: nat)" for m by simp
    have "(length xs + 254) div 255 = 1 + (length xs - 255 + 254) div 255"
    proof (cases "length xs \<le> 255")
      case True
      then have "length xs + 254 = 255 + (length xs - 1)" "(length xs - 1) div 255 = 0"
        using False by (cases xs; simp)+
      then show ?thesis using True step [of "length xs - 1"] by simp
    next
      case False
      then have "length xs + 254 = 255 + (length xs - 255 + 254)" by simp
      then show ?thesis using step by presburger
    qed
    then show ?thesis
      using False less [of "drop 255 xs"] by (simp add: chunks_step [OF False] min_def)
  qed simp
qed

lemma txt_push_step:
  assumes "sp < txt_len t" "txt_len t \<le> length (txt_data t)" "n = min 255 (txt_len t - sp)" "dp + 1 + n \<le> length dst"
  shows "txt_push_body t (dst, dp, sp) =
    Some (Inl (take dp dst @ byte n # take n (drop sp (txt_data t)) @ drop (dp + 1 + n) dst, dp + 1 + n, sp + n))"
proof -
  have n: "0 < n" "sp + n \<le> length (txt_data t)" using assms(1-3) by auto
  then have "wrn (dst[dp := byte n]) (dp + 1) (take n (drop sp (txt_data t))) =
      Some (take dp dst @ byte n # take n (drop sp (txt_data t)) @ drop (dp + 1 + n) dst)"
    using assms(4) by (simp add: wrn_in take_Suc_conv_app_nth)
  then show ?thesis
    using assms(1,4) n unfolding txt_push_body_def assms(3) [symmetric]
    by (simp add: wr_def Let_def rdn_in assms(3) [symmetric])
qed

lemma txt_push_full:
  assumes "sp < txt_len t" "\<not> dp + 1 + min 255 (txt_len t - sp) \<le> length dst"
  shows "\<exists>dst' dp'. txt_push_body t (dst, dp, sp) = Some (Inr (Some DNS_ENOBUFS, dst', dp')) \<and>
    length dst' = length dst \<and> take dp dst' = take dp dst"
proof (cases "length dst \<le> dp")
  case True
  then show ?thesis using assms(1) by (simp add: txt_push_body_def Let_def)
next
  case False
  then have "length dst - (dp + 1) < min 255 (txt_len t - sp)" using assms(2) by linarith
  then show ?thesis using assms(1) False by (simp add: txt_push_body_def Let_def wr_def)
qed

lemma drop_min: "drop (min n (length xs)) xs = drop n xs"
  by (simp add: min_def)

lemma splice:
  assumes "i + length bs \<le> length d"
  shows "length (take i d @ bs @ drop (i + length bs) d) = length d"
    "take (i + length bs) (take i d @ bs @ drop (i + length bs) d) = take i d @ bs"
    "drop (i + length bs + k) (take i d @ bs @ drop (i + length bs) d) = drop (i + length bs + k) d"
    "take i (take i d @ bs @ drop (i + length bs) d) = take i d"
  using assms by (simp_all add: add_ac)

lemma txt_push_loop:
  assumes "txt_len t \<le> length (txt_data t)"
  shows "drop sp (take (txt_len t) (txt_data t)) = xs \<Longrightarrow> dp \<le> length dst \<Longrightarrow>
    if dp + length (chunks xs) \<le> length dst
    then loop (txt_push_body t) (dst, dp, sp) =
           Some (None, take dp dst @ chunks xs @ drop (dp + length (chunks xs)) dst, dp + length (chunks xs))
    else \<exists>dst' dp'. loop (txt_push_body t) (dst, dp, sp) = Some (Some DNS_ENOBUFS, dst', dp') \<and>
           length dst' = length dst \<and> take dp dst' = take dp dst"
proof (induction xs arbitrary: sp dp dst rule: chunks.induct)
  case 1
  then have "\<not> sp < txt_len t" using assms by simp
  then have "txt_push_body t (dst, dp, sp) = Some (Inr (None, dst, dp))" by (simp add: txt_push_body_def)
  then show ?case using 1(2) by (simp add: loop_done)
next
  case (2 x xs)
  let ?n = "min 255 (length (x # xs))"
  have len: "length (x # xs) = txt_len t - sp" using arg_cong [OF 2(2), of length] assms by simp
  then have sp: "sp < txt_len t" by simp
  have n: "?n = min 255 (txt_len t - sp)" using len by (simp only:)
  show ?case
  proof (cases "dp + 1 + ?n \<le> length dst")
    case True
    have "take ?n (drop sp (txt_data t)) = take 255 (x # xs)"
      using arg_cong [OF 2(2), of "take 255"] assms unfolding n by (simp add: drop_take)
    then have step: "txt_push_body t (dst, dp, sp) =
        Some (Inl (take dp dst @ byte ?n # take 255 (x # xs) @ drop (dp + 1 + ?n) dst, dp + 1 + ?n, sp + ?n))"
      using txt_push_step [OF sp assms n True] by simp
    define A where "A = take dp dst @ byte ?n # take 255 (x # xs) @ drop (dp + 1 + ?n) dst"
    define c where "c = chunks (drop 255 (x # xs))"
    define m where "m = 1 + ?n"
    have A: "length A = length dst" "take (dp + m) A = take dp dst @ byte ?n # take 255 (x # xs)"
      "drop (dp + m + k) A = drop (dp + m + k) dst" "take dp A = take dp dst" for k
      using splice [of dp "byte ?n # take 255 (x # xs)" dst] True unfolding A_def m_def by (simp_all add: min.commute)
    have rest: "drop (sp + ?n) (take (txt_len t) (txt_data t)) = drop 255 (x # xs)"
      using arg_cong [OF 2(2), of "drop ?n"] drop_min [of 255 "x # xs"] unfolding drop_drop by (simp only: add.commute)
    have eq: "loop (txt_push_body t) (dst, dp, sp) = loop (txt_push_body t) (A, dp + m, sp + ?n)"
      using loop_next [of "txt_push_body t", OF step] by (simp only: A_def m_def add.assoc)
    have ch: "chunks (x # xs) = byte ?n # take 255 (x # xs) @ c" "length (chunks (x # xs)) = m + length c"
      by (simp_all add: c_def m_def)
    have ih: "if dp + m + length c \<le> length dst
        then loop (txt_push_body t) (A, dp + m, sp + ?n) =
               Some (None, take (dp + m) A @ c @ drop (dp + m + length c) A, dp + m + length c)
        else \<exists>dst' dp'. loop (txt_push_body t) (A, dp + m, sp + ?n) = Some (Some DNS_ENOBUFS, dst', dp') \<and>
               length dst' = length dst \<and> take (dp + m) dst' = take (dp + m) A"
      using 2(1) [OF rest, of "dp + m" A, folded c_def, unfolded A(1)] True by (simp only: m_def add.assoc simp_thms) blast
    show ?thesis
    proof (cases "dp + m + length c \<le> length dst")
      case True
      then show ?thesis using ih unfolding eq ch(2) unfolding ch(1) A(2,3) by (simp add: add.assoc)
    next
      case False
      have "take dp d = take dp dst" if "take (dp + m) d = take (dp + m) A" for d
        using arg_cong [OF that, of "take dp"] A(4) by (simp add: min_def)
      then show ?thesis using ih False unfolding eq ch(2) by (simp only: add.assoc if_False) blast
    qed
  next
    case False
    then have "\<not> dp + length (chunks (x # xs)) \<le> length dst" by simp
    moreover obtain dst' dp' where "txt_push_body t (dst, dp, sp) = Some (Inr (Some DNS_ENOBUFS, dst', dp'))"
      "length dst' = length dst" "take dp dst' = take dp dst"
      using txt_push_full [OF sp, of dp dst] False unfolding n by blast
    ultimately show ?thesis by (auto simp: loop_done simp del: chunks.simps)
  qed
qed

lemma dns_txt_push_eq:
  assumes "packet_ok P" "txt_len t \<le> length (txt_data t)" "xs = take (txt_len t) (txt_data t)"
    "pend P + 2 + length (chunks xs) \<le> psize P"
  shows "dns_txt_push P t = push_bytes (bytes16 (length (chunks xs)) @ chunks xs) P \<bind> (\<lambda>P. Some (None, P))"
proof -
  define d where "d = take (pend P) (data P) @ bytes16 (length (chunks xs)) @ drop (pend P + 2) (data P)"
  have len: "length xs = txt_len t" "length d = length (data P)" "pend P + 2 \<le> length (data P)"
    using assms by (auto simp: d_def psize_def)
  have "wrn (data P) (pend P) (bytes16 (length (chunks xs))) = Some d"
    using len(3) by (simp add: wrn_in d_def)
  moreover have "loop (txt_push_body t) (d, pend P + 2, 0) = Some (None, take (pend P + 2) d @ chunks xs @
      drop (pend P + 2 + length (chunks xs)) d, pend P + 2 + length (chunks xs))"
    using txt_push_loop [OF assms(2), of 0 xs "pend P + 2" d] assms(3,4) len by (simp add: psize_def)
  moreover have "take (pend P + 2) d = take (pend P) (data P) @ bytes16 (length (chunks xs))"
    "drop (pend P + 2 + k) d = drop (pend P + 2 + k) (data P)" for k
    using len(3) by (simp_all add: d_def add_ac)
  ultimately show ?thesis
    using assms(1,4) len(1) push_bytes_eq [of P "bytes16 (length (chunks xs)) @ chunks xs"]
    by (simp add: dns_txt_push_def Let_def length_chunks add.assoc)
qed

lemma writer_txt: "txt_len t \<le> length (txt_data t) \<Longrightarrow> writer (\<lambda>P. dns_txt_push P t)"
proof
  fix P H
  assume t: "txt_len t \<le> length (txt_data t)" and P: "packet_ok P" "dict_fin H P" and low: "H \<subseteq> {..<12}"
  define c where "c = chunks (take (txt_len t) (txt_data t))"
  show "\<exists>r. dns_txt_push P t = Some r \<and> appends H P r"
  proof (cases "pend P + 2 + length c \<le> psize P")
    case True
    then have "dns_txt_push P t = push_bytes (bytes16 (length c) @ c) P \<bind> (\<lambda>P. Some (None, P))"
      using dns_txt_push_eq [OF P(1) t refl] by (simp add: c_def)
    moreover obtain Q where "push_bytes (bytes16 (length c) @ c) P = Some Q" "packet_ok Q" "dict_fin H Q" "kept P Q"
      "pend Q = pend P + 2 + length c"
      using push_bytes_appends [OF P, of "bytes16 (length c) @ c"] True by auto
    ultimately show ?thesis by (auto intro: plain_success)
  next
    case no: False
    show ?thesis
    proof (cases "psize P - pend P < 2")
      case True
      then show ?thesis using P by (simp add: dns_txt_push_def appends_def)
    next
      case False
      then have sz: "pend P + 2 \<le> psize P" by simp
      obtain d where d: "wrn (data P) (pend P) (bytes16 (txt_len t + (txt_len t + 254) div 255)) = Some d"
        "kept P (P\<lparr>data := d\<rparr>)" "length d = psize P"
        using beyond_end [OF P, of "pend P" "bytes16 (txt_len t + (txt_len t + 254) div 255)"] sz by auto
      obtain d' dp where d': "loop (txt_push_body t) (d, pend P + 2, 0) = Some (Some DNS_ENOBUFS, d', dp)"
        "length d' = length d" "take (pend P + 2) d' = take (pend P + 2) d"
        using txt_push_loop [OF t, of 0 _ "pend P + 2" d] sz no d(3) unfolding c_def by auto
      have "dns_txt_push P t = Some (Some DNS_ENOBUFS, P\<lparr>data := d'\<rparr>)"
        using P False d(1) d'(1) by (simp add: dns_txt_push_def Let_def)
      moreover have "take (pend P) d' = take (pend P) d"
        using arg_cong [OF d'(3), of "take (pend P)"] by (simp add: min_def)
      ultimately show ?thesis using d d'(2) by (auto simp: appends_def kept_def psize_def)
    qed
  qed
qed

section \<open>The table of record types\<close>

text \<open>Record data that its type can hold: the member of the union is that of the type, names are
  names, and the arrays have their sizes.\<close>

definition any_ok :: "nat \<Rightarrow> dns_any \<Rightarrow> bool" where
  "any_ok type any = (case (dns_rrtypes type, any) of
     (KA, Any_a a) \<Rightarrow> a < 4294967296
   | (KAAAA, Any_aaaa a) \<Rightarrow> length a = 16
   | (KMX, Any_mx m) \<Rightarrow> host_ok (mx_host m)
   | (KNS, Any_ns n) \<Rightarrow> host_ok (ns_host n)
   | (KSOA, Any_soa s) \<Rightarrow> host_ok (mname s) \<and> host_ok (rname s)
   | (KSRV, Any_srv s) \<Rightarrow> host_ok (srv_target s)
   | (KSSHFP, Any_sshfp f) \<Rightarrow> length (sha1 f) = 20
   | (KTXT, Any_txt t) \<Rightarrow> txt_len t \<le> length (txt_data t)
   | (KUNKNOWN, Any_txt t) \<Rightarrow> txt_len t \<le> length (txt_data t)
   | _ \<Rightarrow> False)"

lemma writer_any: "any_ok type any \<Longrightarrow> writer (\<lambda>P. dns_any_push P any type)"
  by (cases any; cases "dns_rrtypes type")
    (simp_all add: any_ok_def dns_any_push_def writer_aaaa writer_mx writer_ns writer_soa writer_srv
      writer_sshfp writer_txt writer_rdata wa.writer_axioms)

text \<open>C10: Pushing well-formed record data of any type returns. On success the packet stays well
  formed, grows, and keeps its dictionary free of endless names. On failure the end is where it
  was. In both cases the bytes before the old end, the size and the section offsets are
  unchanged.\<close>

theorem dns_any_push_contract:
  assumes "any_ok type any" and "packet_ok P" and "dict_fin {} P"
  shows "\<exists>err P'. dns_any_push P any type = Some (err, P') \<and> kept P P' \<and>
    (case err of None \<Rightarrow> packet_ok P' \<and> dict_fin {} P' \<and> pend P < pend P' | Some e \<Rightarrow> pend P' = pend P)"
proof -
  note w = writer_any [OF assms(1)]
  obtain err P' where r: "dns_any_push P any type = Some (err, P')"
    using writer.total [OF w assms(2,3)] by auto
  then show ?thesis
    using writer.success [OF w assms(2,3)] writer.failure [OF w assms(2,3)] by (cases err) auto
qed

theorem dns_any_push_contract_witness:
  "let P = \<lparr>dict = replicate 16 0, qd = no_memo, an = no_memo, ns = no_memo, ar = no_memo,
            pend = 12, data = replicate 64 0\<rparr>;
       mx = Any_mx \<lparr>preference = 10, mx_host = str ''a.b.'' @ replicate 252 0\<rparr>
   in any_ok DNS_T_MX mx \<and> packet_ok P \<and> dict_fin {} P \<and>
      (\<exists>err P'. dns_any_push P mx DNS_T_MX = Some (err, P') \<and> kept P P')"
proof -
  define P where "P = \<lparr>dict = replicate 16 0, qd = no_memo, an = no_memo, ns = no_memo, ar = no_memo,
    pend = 12, data = replicate 64 (0::u8)\<rparr>"
  define mx where "mx = Any_mx \<lparr>preference = 10, mx_host = str ''a.b.'' @ replicate 252 0\<rparr>"
  have "cstr (str ''a.b.'' @ replicate 252 0) = name_text [[97], [98]]" by code_simp
  then have "host_ok (str ''a.b.'' @ replicate 252 0)"
    unfolding host_ok_def by (intro exI [of _ "[[97], [98]]"]) (simp add: valid_label_def)
  then have "any_ok DNS_T_MX mx" by (simp add: mx_def any_ok_def dns_rrtypes_def)
  moreover have "packet_ok P" "dict_fin {} P"
    by (simp_all add: P_def packet_ok_def psize_def dict_fin_def)
  ultimately show ?thesis
    using dns_any_push_contract [of DNS_T_MX mx P] unfolding Let_def P_def [symmetric] mx_def [symmetric] by blast
qed

end
