(* ===== verification/Dns_Roundtrip.thy ===== *)
theory Dns_Roundtrip
  imports Dns_Writers
begin

unbundle bit_operations_syntax

text \<open>
  What a \<open>parse\<close> routine of \<^verbatim>\<open>src/src/c/dns/libdns/dns.c\<close> reads from what the
  \<open>push\<close> routine of the same record type wrote, the texts that the \<open>print\<close> and
  \<open>arpa\<close> routines make, and the orders that the \<open>cmp\<close> routines define.
\<close>

section \<open>Record data without names\<close>

definition flat_wire :: "nat \<Rightarrow> dns_any \<Rightarrow> bytes option" where
  "flat_wire type any = (case (dns_rrtypes type, any) of
     (KA, Any_a a) \<Rightarrow> Some (bytes32 a)
   | (KAAAA, Any_aaaa a) \<Rightarrow> Some a
   | (KTXT, Any_txt t) \<Rightarrow> Some (chunks (take (txt_len t) (txt_data t)))
   | (KSSHFP, Any_sshfp f) \<Rightarrow>
       if fptype f = DNS_SSHFP_SHA1 \<and> algo f < 256 then Some (byte (algo f) # byte (fptype f) # sha1 f) else None
   | (KUNKNOWN, Any_txt t) \<Rightarrow> Some (take (txt_len t) (txt_data t))
   | _ \<Rightarrow> None)"

text \<open>The same record data: texts are compared up to their length.\<close>

definition any_same :: "dns_any \<Rightarrow> dns_any \<Rightarrow> bool" where
  "any_same a b = (case (a, b) of
     (Any_txt s, Any_txt t) \<Rightarrow> txt_len s = txt_len t \<and> take (txt_len s) (txt_data s) = take (txt_len t) (txt_data t)
   | _ \<Rightarrow> a = b)"

definition text_fits :: "nat \<Rightarrow> dns_any \<Rightarrow> bool" where
  "text_fits sz any = (case any of Any_txt t \<Rightarrow> txt_len t \<le> sz \<and> sz \<le> 1024 | _ \<Rightarrow> True)"

lemma push_bytes_append:
  "pend P + length (xs @ ys) \<le> psize P \<Longrightarrow> push_bytes xs P \<bind> push_bytes ys = push_bytes (xs @ ys) P"
  by (simp add: push_bytes_eq push_bytes_eq [of "P\<lparr>data := d, pend := e\<rparr>" for d e] psize_def add_ac)

lemma bytes16_small [simp]: "[0, 4] = bytes16 4" "[0, 16] = bytes16 16"
  by (simp_all add: bytes16_def byte_def)

lemma push_two:
  "pend P + length (xs @ ys) \<le> psize P \<Longrightarrow>
    do { P \<leftarrow> push_bytes xs P; P \<leftarrow> push_bytes ys P; Some (None, P) } = push_bytes (xs @ ys) P \<bind> (\<lambda>P. Some (None, P))"
  using push_bytes_append [of P xs ys] by (simp flip: bind_assoc)

lemma sshfp_push_flat:
  assumes "packet_ok P" "length (sha1 f) = 20" "fptype f = 1" "pend P + 24 \<le> psize P"
  shows "dns_sshfp_push P f =
    push_bytes (bytes16 22 @ byte (algo f) # byte (fptype f) # sha1 f) P \<bind> (\<lambda>P. Some (None, P))"
proof -
  let ?d = "data P" and ?e = "pend P"
  let ?h = "[byte (algo f), byte (fptype f)]"
  have len: "?e + 24 \<le> length ?d" using assms(4) by (simp add: psize_def)
  define d1 where "d1 = take (?e + 2) ?d @ ?h @ drop (?e + 4) ?d"
  define d2 where "d2 = take (?e + 2) ?d @ ?h @ sha1 f @ drop (?e + 24) ?d"
  define d3 where "d3 = take ?e ?d @ bytes16 22 @ ?h @ sha1 f @ drop (?e + 24) ?d"
  have 1: "wrn ?d (?e + 2) ?h = Some d1" using len by (simp add: wrn_in d1_def eval_nat_numeral)
  have "length d1 = length ?d" "take (?e + 4) d1 = take (?e + 2) ?d @ ?h" "drop (?e + 24) d1 = drop (?e + 24) ?d"
    using len by (simp_all add: d1_def add.commute)
  then have 2: "wrn d1 (?e + 4) (sha1 f) = Some d2" using len assms(2) by (simp add: wrn_in d2_def add.commute [of 24])
  have "length d2 = length ?d" "take ?e d2 = take ?e ?d" "drop (?e + 2) d2 = ?h @ sha1 f @ drop (?e + 24) ?d"
    using len assms(2) by (simp_all add: d2_def)
  then have 3: "wrn d2 ?e (bytes16 22) = Some d3" using len by (simp add: wrn_in d3_def)
  have "room P \<ge> 4" "\<not> length ?d - (?e + 4) < 20" using assms(1) len by (auto simp: psize_def)
  moreover have "length d1 = length ?d" using 1 by (simp add: length_wrn)
  ultimately show ?thesis
    using 1 2 3 assms push_bytes_eq [of P "bytes16 22 @ ?h @ sha1 f"]
    by (simp add: dns_sshfp_push_def Let_def set_rdlen_def d3_def psize_def)
qed

lemma flat_push:
  assumes "any_ok type any" "flat_wire type any = Some w" "packet_ok P" "pend P + 2 + length w \<le> psize P"
  shows "dns_any_push P any type = push_bytes (bytes16 (length w) @ w) P \<bind> (\<lambda>P. Some (None, P))"
  using assms
  by (cases any; cases "dns_rrtypes type")
    (auto simp: any_ok_def flat_wire_def dns_any_push_def dns_a_push_def dns_aaaa_push_def rdata_push_def
      push_two rdn_in min.absorb1 min.absorb2 dns_txt_push_eq sshfp_push_flat split: if_splits)

lemma txt_parse_loop:
  assumes "dend \<le> length dst0"
  shows "take (length (chunks xs)) (drop sp (data P)) = chunks xs \<Longrightarrow> sp + length (chunks xs) \<le> length (data P) \<Longrightarrow>
    send = sp + length (chunks xs) \<Longrightarrow> dp + length xs \<le> dend \<Longrightarrow> length dst = length dst0 \<Longrightarrow>
    loop (txt_parse_body P dend send) (dst, dp, sp) =
      Some (Inr (take dp dst @ xs @ drop (dp + length xs) dst, dp + length xs))"
proof (induction xs arbitrary: dst dp sp rule: chunks.induct)
  case 1
  then have "txt_parse_body P dend send (dst, dp, sp) = Some (Inr (Inr (dst, dp)))" by (simp add: txt_parse_body_def)
  then show ?case by (simp add: loop_done)
next
  case (2 x xs)
  define n where "n = min 255 (length (x # xs))"
  define ys zs where "ys = take 255 (x # xs)" and "zs = drop 255 (x # xs)"
  have ch: "chunks (x # xs) = byte n # ys @ chunks zs" by (simp add: n_def ys_def zs_def)
  have xs: "x # xs = ys @ zs" "length ys = n" "n \<le> 255" by (simp_all add: ys_def zs_def n_def)
  have at: "take (1 + n + length (chunks zs)) (drop sp (data P)) = byte n # ys @ chunks zs"
    using 2(2) unfolding ch by (simp add: xs)
  have le: "sp + 1 + n + length (chunks zs) \<le> length (data P)" using 2(3) unfolding ch by (simp add: xs)
  have b: "data P ! sp = byte n"
    using arg_cong [OF at, of hd] le by (simp add: hd_drop_conv_nth)
  have y: "take n (drop (sp + 1) (data P)) = ys"
    using arg_cong [OF at, of "\<lambda>l. take n (drop 1 l)"] xs(2) by (simp add: drop_take)
  have z: "take (length (chunks zs)) (drop (sp + 1 + n) (data P)) = chunks zs"
    using arg_cong [OF at, of "drop (1 + n)"] xs(2) by (simp add: drop_take add.commute)
  define dst' where "dst' = take dp dst @ ys @ drop (dp + n) dst"
  have dn: "dp + n \<le> length dst" "dp + n + length zs \<le> dend" using 2(5,6) assms xs by auto
  have "wrn dst dp ys = Some dst'" using dn(1) xs(2) by (simp add: wrn_in dst'_def)
  then have "txt_parse_body P dend send (dst, dp, sp) = Some (Inl (dst', dp + n, sp + 1 + n))"
    using le b y dn xs(2,3) 2(4) unfolding txt_parse_body_def ch by (simp add: Let_def rdn_in)
  then have "loop (txt_parse_body P dend send) (dst, dp, sp) = loop (txt_parse_body P dend send) (dst', dp + n, sp + 1 + n)"
    by (rule loop_next)
  also have "\<dots> = Some (Inr (take (dp + n) dst' @ zs @ drop (dp + n + length zs) dst', dp + n + length zs))"
    using 2(1) [folded zs_def, of "sp + 1 + n" "dp + n" dst'] z le dn 2(4,6) xs(2) unfolding ch by (simp add: dst'_def)
  also have "take (dp + n) dst' = take dp dst @ ys" using dn(1) xs(2) by (simp add: dst'_def)
  also have "drop (dp + n + length zs) dst' = drop (dp + n + length zs) dst" using dn(1) xs(2) by (simp add: dst'_def add_ac)
  finally show ?case unfolding xs(1) by (simp add: xs(2) add.assoc)
qed

lemma rdn_rd:
  assumes "rdn buf i n = Some w" "k < n"
  shows "rd buf (i + k) = Some (w ! k)"
  using assms by (auto simp: rdn_def rd_def split: if_splits)

lemma be32_at_bytes32:
  assumes "rdn (data Q) p 4 = Some (bytes32 a)" "a < 4294967296"
  shows "be32_at Q p = Some a"
  using rdn_rd [OF assms(1), of 0] rdn_rd [OF assms(1), of 1] rdn_rd [OF assms(1), of 2] rdn_rd [OF assms(1), of 3] assms(2)
  by (simp add: be32_at_def bytes32_def numeral_2_eq_2 numeral_3_eq_3)

lemma sshfp_parse_flat:
  assumes "rdn (data Q) (rdp rr) 22 = Some (byte a # byte (1::nat) # s)" "length s = 20" "a < 256" "rdlen rr = 22"
  shows "dns_sshfp_parse fp rr Q = Some (Inr (fp\<lparr>algo := a, fptype := 1, sha1 := s\<rparr>))"
proof -
  have "rdn (data Q) (rdp rr + 2) 20 = Some s"
    using assms(1) by (auto simp: rdn_def drop_take take_Suc_conv_app_nth numeral_2_eq_2 add_ac dest: arg_cong [where f = "drop 2"] split: if_splits)
  then show ?thesis
    using rdn_rd [OF assms(1), of 0] rdn_rd [OF assms(1), of 1] assms(2-4) by (simp add: dns_sshfp_parse_def Let_def)
qed

lemma txt_parse_flat:
  assumes "rdn (data Q) (rdp rr) (length (chunks xs)) = Some (chunks xs)" "rdlen rr = length (chunks xs)"
    "length xs \<le> txt_size t" "txt_size t \<le> length (txt_data t)"
  shows "dns_txt_parse t rr Q = Some (Inr (t\<lparr>txt_data := xs @ drop (length xs) (txt_data t), txt_len := length xs\<rparr>))"
proof -
  have "take (length (chunks xs)) (drop (rdp rr) (data Q)) = chunks xs" "rdp rr + length (chunks xs) \<le> length (data Q)"
    using assms(1) by (auto simp: rdn_def split: if_splits)
  then show ?thesis
    using txt_parse_loop [OF assms(4), of xs "rdp rr" Q _ 0 "txt_data t"] assms(2,3) by (simp add: dns_txt_parse_def)
qed

lemma flat_parse:
  assumes "any_ok type any" "flat_wire type any = Some w" "text_fits sz any" "rtype rr = type" "rdlen rr = length w"
    "rdn (data Q) (rdp rr) (length w) = Some w"
  shows "\<exists>any'. dns_any_parse sz rr Q = Some (Inr any') \<and> any_same any any'"
  using assms
  by (cases any; cases "dns_rrtypes type")
    (auto simp: any_ok_def flat_wire_def text_fits_def any_same_def dns_any_parse_def dns_a_parse_def dns_aaaa_parse_def
      be32_at_bytes32 txt_parse_flat sshfp_parse_flat wrn_in split: if_splits)

text \<open>C11: Round trip of record data without names (A, AAAA, TXT and SPF, SSHFP with a SHA-1
  digest, and unknown types). Pushing it into a packet with room writes the 16-bit length and the
  data, and parsing a record of that type at that place gives the same data back.\<close>

theorem dns_any_roundtrip:
  assumes "any_ok type any" "flat_wire type any = Some w" "text_fits sz any"
    "packet_ok P" "pend P + 2 + length w \<le> psize P"
    "rtype rr = type" "rdlen rr = length w" "rdp rr = pend P + 2"
  shows "\<exists>Q. dns_any_push P any type = Some (None, Q) \<and> pend Q = pend P + 2 + length w \<and>
    be16_at Q (pend P) = Some (length w) \<and> take (pend P) (data Q) = take (pend P) (data P) \<and>
    (\<exists>any'. dns_any_parse sz rr Q = Some (Inr any') \<and> any_same any any')"
proof -
  define Q where "Q = P\<lparr>data := take (pend P) (data P) @ bytes16 (length w) @ w @ drop (pend P + 2 + length w) (data P),
    pend := pend P + 2 + length w\<rparr>"
  have sz: "pend P + 2 + length w \<le> length (data P)" using assms(5) by (simp add: psize_def)
  have "push_bytes (bytes16 (length w) @ w) P = Some Q"
    using push_bytes_eq [of P "bytes16 (length w) @ w"] assms(5) by (simp add: Q_def add.assoc)
  then have push: "dns_any_push P any type = Some (None, Q)" using flat_push [OF assms(1,2,4,5)] by simp
  have "length w < 65536" using assms(4,5) by (simp add: packet_ok_def)
  then have "be16_at Q (pend P) = Some (length w)"
    using sz by (simp add: be16_at_in Q_def nth_append bytes16_def)
  moreover have "rdn (data Q) (rdp rr) (length w) = Some w"
    using sz by (simp add: assms(8) rdn_in Q_def)
  ultimately show ?thesis
    using flat_parse [OF assms(1-3,6,7), of Q] push sz by (simp add: Q_def)
qed

theorem dns_any_roundtrip_witness:
  "let P = \<lparr>dict = replicate 16 0, qd = no_memo, an = no_memo, ns = no_memo, ar = no_memo,
            pend = 12, data = replicate 64 0\<rparr>;
       t = Any_txt \<lparr>txt_size = 3, txt_len = 3, txt_data = [120, 121, 122]\<rparr>;
       rr = \<lparr>rsection = DNS_S_AN, dnp = 0, dnlen = 0, rtype = DNS_T_TXT, rclass = 1, rttl = 0, rdp = 14, rdlen = 4\<rparr>
   in flat_wire DNS_T_TXT t = Some [3, 120, 121, 122] \<and>
      (\<exists>Q any'. dns_any_push P t DNS_T_TXT = Some (None, Q) \<and> dns_any_parse 256 rr Q = Some (Inr any') \<and> any_same t any')"
proof -
  define P where "P = \<lparr>dict = replicate 16 0, qd = no_memo, an = no_memo, ns = no_memo, ar = no_memo,
    pend = 12, data = replicate 64 (0::u8)\<rparr>"
  define t where "t = Any_txt \<lparr>txt_size = 3, txt_len = 3, txt_data = [120, 121, 122]\<rparr>"
  have w: "flat_wire DNS_T_TXT t = Some [3, 120, 121, 122]" unfolding t_def by code_simp
  have "any_ok DNS_T_TXT t" "text_fits 256 t" "packet_ok P" "pend P + 2 + length [3, 120, 121, 122 :: u8] \<le> psize P"
    by (simp_all add: t_def P_def any_ok_def dns_rrtypes_def text_fits_def packet_ok_def psize_def)
  then show ?thesis
    using dns_any_roundtrip [OF _ w, of 256 P "\<lparr>rsection = DNS_S_AN, dnp = 0, dnlen = 0, rtype = DNS_T_TXT, rclass = 1, rttl = 0,
      rdp = 14, rdlen = 4\<rparr>"] w
    unfolding Let_def P_def [symmetric] t_def [symmetric] by (auto simp: P_def)
qed

section \<open>Record data with a name\<close>

lemma expand_host_name:
  assumes "in_packet P" "p < 65536" "name_at (data P) (pend P) 0 p ls" "length (name_text ls) < length h"
    "0 \<notin> set (name_text ls)"
  shows "\<exists>h'. expand_host h p P = Some (Inr h') \<and> cstr h' = name_text ls \<and> length h' = length h"
proof -
  let ?t = "name_text ls"
  let ?h = "nul (blit h 0 ?t) (length ?t)"
  have "dns_d_expand h p P = Some (None, length ?t, ?h)"
    using dns_d_expand_name [OF assms(1,3)] by blast
  moreover have "cstr ?h = ?t"
    using holds_nul_cstr [OF holds_blit [of h "[]" ?t]] assms(4,5) length_greater_0_conv [of h] by force
  ultimately show ?thesis using assms(2,4) by (auto simp: expand_host_def)
qed

lemma mx_push_plain:
  assumes "packet_ok P" "dict P ! 0 = 0" "list_all valid_label ls" "cstr (mx_host m) = name_text ls"
    "pend P + 4 + length (wire ls) \<le> psize P"
  shows "\<exists>Q. dns_mx_push P m = Some (None, Q) \<and> pend Q = pend P + 4 + length (wire ls) \<and>
    data Q = take (pend P) (data P) @ bytes16 (2 + length (wire ls)) @ bytes16 (preference m) @ wire ls @
      drop (pend P + 4 + length (wire ls)) (data P)"
proof -
  let ?e = "pend P" and ?d = "data P" and ?w = "wire ls"
  have sz: "?e + 4 + length ?w \<le> length ?d" using assms(5) by (simp add: psize_def)
  have w1: "1 \<le> length ?w" by (simp add: wire_enc)
  define Q1 where "Q1 = P\<lparr>data := take (?e + 2) ?d @ bytes16 (preference m) @ drop (?e + 4) ?d, pend := ?e + 4\<rparr>"
  have 1: "push_bytes (bytes16 (preference m)) (P\<lparr>pend := ?e + 2\<rparr>) = Some Q1"
    using push_bytes_eq [of "P\<lparr>pend := ?e + 2\<rparr>" "bytes16 (preference m)"] sz
    by (simp add: Q1_def psize_def add.commute [of 2] eval_nat_numeral)
  have Q1: "packet_ok Q1" "dict Q1 ! 0 = 0" "pend Q1 = ?e + 4" "pend Q1 + length ?w \<le> psize Q1"
    using assms(1,2) sz by (auto simp: Q1_def packet_ok_def psize_def)
  obtain i where 2: "dns_d_push Q1 (name_text ls) = Some (None, dict_set (Q1\<lparr>data := take (?e + 4) (data Q1) @ ?w @
      drop (?e + 4 + length ?w) (data Q1), pend := ?e + 4 + length ?w\<rparr>) i (?e + 4))"
    using dns_d_push_plain [OF Q1(1,2) assms(3) Q1(4)] unfolding Q1(3) by blast
  define Q2 where "Q2 = dict_set (Q1\<lparr>data := take (?e + 4) (data Q1) @ ?w @
      drop (?e + 4 + length ?w) (data Q1), pend := ?e + 4 + length ?w\<rparr>) i (?e + 4)"
  have Q2: "data Q2 = take (?e + 2) ?d @ bytes16 (preference m) @ ?w @ drop (?e + 4 + length ?w) ?d"
    "pend Q2 = ?e + 4 + length ?w"
    using sz by (simp_all add: Q2_def Q1_def add_ac)
  have "wrn (data Q2) ?e (bytes16 (2 + length ?w)) = Some (take ?e ?d @ bytes16 (2 + length ?w) @ bytes16 (preference m) @
      ?w @ drop (?e + 4 + length ?w) ?d)"
    using sz by (simp add: Q2 wrn_in)
  then have "set_rdlen ?e Q2 = Some (Q2\<lparr>data := take ?e ?d @ bytes16 (2 + length ?w) @ bytes16 (preference m) @
      ?w @ drop (?e + 4 + length ?w) ?d\<rparr>)"
    by (simp add: set_rdlen_def Q2(2))
  moreover have "\<not> room P < 5" using assms(1,5) w1 by auto
  ultimately show ?thesis
    using 1 2 Q2(2) by (simp add: dns_mx_push_def Let_def assms(4) Q2_def [symmetric])
qed

text \<open>C28: Round trip of an MX record in a packet whose dictionary is still empty: the preference
  and the host name come back as they were pushed.\<close>

theorem dns_mx_roundtrip:
  assumes "packet_ok P" "dict P ! 0 = 0" "list_all valid_label ls" "cstr (mx_host m) = name_text ls"
    "length (name_text ls) < 256" "preference m < 65536" "pend P + 4 + length (wire ls) \<le> psize P"
    "length (mx_host m0) = 256" "rdp rr = pend P + 2" "rdlen rr = 2 + length (wire ls)"
  shows "\<exists>Q m'. dns_mx_push P m = Some (None, Q) \<and> dns_mx_parse m0 rr Q = Some (Inr m') \<and>
    preference m' = preference m \<and> cstr (mx_host m') = cstr (mx_host m) \<and> dns_mx_cmp m' m = 0"
proof -
  obtain Q where Q: "dns_mx_push P m = Some (None, Q)" "pend Q = pend P + 4 + length (wire ls)"
    "data Q = take (pend P) (data P) @ bytes16 (2 + length (wire ls)) @ bytes16 (preference m) @ wire ls @
      drop (pend P + 4 + length (wire ls)) (data P)"
    using mx_push_plain [OF assms(1-4,7)] by blast
  have sz: "pend P + 4 + length (wire ls) \<le> length (data P)" "pend Q \<le> 65535" "1 \<le> length (wire ls)"
    using assms(1,7) Q(2) by (auto simp: psize_def packet_ok_def wire_enc)
  have name: "name_at (data Q) (pend Q) 0 (pend P + 4) ls"
    using assms(3) sz by (intro name_at_wire) (auto simp: Q)
  have "in_packet Q" using sz by (simp add: in_packet_def Q)
  then obtain h where h: "expand_host (mx_host m0) (pend P + 4) Q = Some (Inr h)" "cstr h = name_text ls"
    using expand_host_name [OF _ _ name, of "mx_host m0"] sz Q(2) assms(5,8) cstr_no_nul [of "mx_host m"] assms(4) by auto
  have "be16_at Q (pend P + 2) = Some (preference m)"
    using sz assms(6) by (simp add: be16_at_in Q(3) nth_append bytes16_def)
  then have "dns_mx_parse m0 rr Q = Some (Inr \<lparr>preference = preference m, mx_host = h\<rparr>)"
    using h(1) assms(9,10) sz(3) by (auto simp: dns_mx_parse_def eval_nat_numeral)
  moreover have "casecmp s s = 0" for s by (induction s) auto
  ultimately show ?thesis
    using Q(1) h(2) assms(4) by (auto simp: dns_mx_cmp_def strcasecmp_def)
qed

theorem dns_mx_roundtrip_witness:
  "let P = \<lparr>dict = replicate 16 0, qd = no_memo, an = no_memo, ns = no_memo, ar = no_memo,
            pend = 12, data = replicate 64 0\<rparr>;
       m = \<lparr>preference = 10, mx_host = str ''a.b.'' @ replicate 252 0\<rparr>;
       rr = \<lparr>rsection = DNS_S_AN, dnp = 0, dnlen = 0, rtype = DNS_T_MX, rclass = 1, rttl = 0, rdp = 14, rdlen = 7\<rparr>
   in \<exists>Q m'. dns_mx_push P m = Some (None, Q) \<and> dns_mx_parse m rr Q = Some (Inr m') \<and> preference m' = 10
        \<and> cstr (mx_host m') = str ''a.b.''"
proof -
  define P where "P = \<lparr>dict = replicate 16 0, qd = no_memo, an = no_memo, ns = no_memo, ar = no_memo,
    pend = 12, data = replicate 64 (0::u8)\<rparr>"
  define m where "m = \<lparr>preference = 10, mx_host = str ''a.b.'' @ replicate 252 0\<rparr>"
  define rr where "rr = \<lparr>rsection = DNS_S_AN, dnp = 0, dnlen = 0, rtype = DNS_T_MX, rclass = 1, rttl = 0, rdp = 14, rdlen = 7\<rparr>"
  have tx: "cstr (str ''a.b.'' @ replicate 252 0) = name_text [[97], [98]]" "str ''a.b.'' = name_text [[97], [98]]"
    "length (str ''a.b.'') = 4"
    by code_simp+
  have "packet_ok P" "dict P ! 0 = 0" "list_all valid_label [[97], [98]]" "cstr (mx_host m) = name_text [[97], [98]]"
    "length (name_text [[97], [98]]) < 256" "preference m < 65536" "pend P + 4 + length (wire [[97], [98]]) \<le> psize P"
    "length (mx_host m) = 256" "rdp rr = pend P + 2" "rdlen rr = 2 + length (wire [[97], [98]])"
    using tx by (simp_all add: P_def m_def rr_def packet_ok_def psize_def valid_label_def wire_def)
  moreover have pref: "preference m = 10" by (simp add: m_def)
  ultimately show ?thesis
    using dns_mx_roundtrip [of P "[[97], [98]]" m m rr]
    unfolding Let_def P_def [symmetric] m_def [symmetric] rr_def [symmetric]
    unfolding tx(2) \<open>cstr (mx_host m) = _\<close> using pref by auto
qed

end
