(* ===== verification/Dns_Show.thy ===== *)
theory Dns_Show
  imports Dns_Rdata
begin

unbundle bit_operations_syntax

text \<open>
  The texts that the printing routines of \<^verbatim>\<open>src/src/c/dns/libdns/dns.c\<close> make of
  record data. Each routine is an instance of the \<open>printer\<close> interface, so that its result is
  the text cut at the size of the buffer and closed with a NUL.
\<close>

section \<open>Reverse names\<close>

fun a_arpa_text :: "nat \<Rightarrow> nat \<Rightarrow> bytes" where
  "a_arpa_text 0 a = str ''in-addr.arpa.''"
| "a_arpa_text (Suc n) a = decimal (a mod 256) @ [46] @ a_arpa_text n (a div 256)"

lemma print10_text_plain: "n < 4294967296 \<Longrightarrow> print10_text n 0 = decimal n"
  by (simp add: print10_text_def)

lemma printer_a_arpa: "printer (a_arpa_loop n a) (a_arpa_text n a)"
proof (induction n arbitrary: a)
  case 0
  then show ?case using pstring.printer_axioms by simp
next
  case (Suc n)
  have "a mod 256 < 256" by simp
  then have "print10_text (a mod 256) 0 = decimal (a mod 256)" by (intro print10_text_plain) linarith
  then show ?case
    using printer_seqp [OF pdec.printer_axioms [of "a mod 256" 0] printer_seqp [OF pchar.printer_axioms [of 46] Suc [of "a div 256"]]]
    by simp
qed

interpretation parpa: printer "a_arpa_loop n a" "a_arpa_text n a" for n a
  by (rule printer_a_arpa)

fun aaaa_arpa_text :: "bytes \<Rightarrow> bytes" where
  "aaaa_arpa_text [] = str ''ip6.arpa.''"
| "aaaa_arpa_text (b # bs) = [hexdigit b, 46, hexdigit (drop_bit 4 b), 46] @ aaaa_arpa_text bs"

lemma printer_aaaa_arpa: "printer (aaaa_arpa_loop bs) (aaaa_arpa_text bs)"
proof (induction bs)
  case (Cons b bs)
  show ?case
    using printer_seqp [OF pchar.printer_axioms [of "hexdigit b"] printer_seqp [OF pchar.printer_axioms [of 46]
      printer_seqp [OF pchar.printer_axioms [of "hexdigit (drop_bit 4 b)"] printer_seqp [OF pchar.printer_axioms [of 46] Cons]]]]
    by simp
qed (use pstring.printer_axioms in simp)

interpretation parpa6: printer "aaaa_arpa_loop bs" "aaaa_arpa_text bs" for bs
  by (rule printer_aaaa_arpa)

lemma length_decimal: "n < 10 ^ Suc k \<Longrightarrow> length (decimal n) \<le> Suc k"
proof (induction k arbitrary: n)
  case 0
  then show ?case by (subst decimal.simps) simp
next
  case (Suc k)
  then have "n div 10 < 10 ^ Suc k" by (simp add: less_mult_imp_div_less mult.commute)
  then have "length (decimal (n div 10)) \<le> Suc k" by (rule Suc.IH)
  then show ?case by (subst decimal.simps) (simp del: decimal.simps)
qed

lemma decimal_byte: "n < 256 \<Longrightarrow> length (decimal n) \<le> 3 \<and> 0 \<notin> set (decimal n)"
  using decimal_digit_range [of 0 n] length_decimal [of n 2] by (auto simp del: decimal.simps)

lemma a_arpa_text_ok: "0 \<notin> set (a_arpa_text n a) \<and> length (a_arpa_text n a) \<le> 4 * n + 13"
proof (induction n arbitrary: a)
  case 0
  have "0 \<notin> set (str ''in-addr.arpa.'') \<and> length (str ''in-addr.arpa.'') = 13" by code_simp
  then show ?case by simp
next
  case (Suc n)
  have "length (a_arpa_text n (a div 256)) \<le> 4 * n + 13" using Suc by blast
  then show ?case using decimal_byte [of "a mod 256"] Suc by (simp del: decimal.simps, linarith)
qed

lemma a_arpa_4:
  "a_arpa_text 4 a = decimal (a mod 256) @ [46] @ decimal (a div 256 mod 256) @ [46] @ decimal (a div 256 div 256 mod 256) @ [46]
    @ decimal (a div 256 div 256 div 256 mod 256) @ [46] @ str ''in-addr.arpa.''"
proof -
  have "(4::nat) = Suc (Suc (Suc (Suc 0)))" by simp
  then show ?thesis by (simp only: a_arpa_text.simps append_assoc)
qed

lemma shift_byte: "(n * 256 + unat (b :: u8)) mod 256 = unat b" "(n * 256 + unat (b :: u8)) div 256 = n"
  by simp_all

lemma hexdigit_nonzero: "hexdigit b \<noteq> 0"
proof -
  have "unat (0x0f AND b) < 16" using unat_and_mask [of 4 b] by (simp add: mask_eq_exp_minus_1)
  moreover have "length (str ''0123456789abcdef'') = 16" "0 \<notin> set (str ''0123456789abcdef'')" by code_simp+
  ultimately show ?thesis unfolding hexdigit_def by (metis nth_mem)
qed

lemma aaaa_arpa_text_ok: "0 \<notin> set (aaaa_arpa_text bs) \<and> length (aaaa_arpa_text bs) = 4 * length bs + 9"
proof (induction bs)
  case Nil
  have "0 \<notin> set (str ''ip6.arpa.'') \<and> length (str ''ip6.arpa.'') = 9" by code_simp
  then show ?case by simp
qed (auto simp: hexdigit_nonzero dest: sym)

text \<open>The name for a reverse lookup. In a name buffer of 256 bytes \<open>dns_ptr_qname\<close>
  leaves, for an IPv4 address with the bytes \<open>o1 .. o4\<close>, the four bytes in decimal, last first,
  followed by \<open>in-addr.arpa.\<close>; and for an IPv6 address its 32 hexadecimal digits, last first,
  followed by \<open>ip6.arpa.\<close>.\<close>

theorem dns_ptr_qname_spec:
  assumes "256 \<le> length dst"
  shows "cstr (snd (dns_ptr_qname dst (Inl (be32 o1 o2 o3 o4)))) =
      decimal (unat o4) @ [46] @ decimal (unat o3) @ [46] @ decimal (unat o2) @ [46] @ decimal (unat o1) @ [46] @ str ''in-addr.arpa.''
    \<and> (length a6 = 16 \<longrightarrow> cstr (snd (dns_ptr_qname dst (Inr a6))) =
      concat (map (\<lambda>b. [hexdigit b, 46, hexdigit (drop_bit 4 b), 46]) (rev a6)) @ str ''ip6.arpa.'')"
proof -
  have dst: "0 < length dst" using assms by linarith
  have close2: "dns__printnul (snd (closep f dst)) (fst (closep f dst)) = snd (closep f dst)" for f
    by (simp add: closep_def case_prod_beta dns__printnul_def nul_def)
  have arpa6: "aaaa_arpa_text bs = concat (map (\<lambda>b. [hexdigit b, 46, hexdigit (drop_bit 4 b), 46]) bs) @ str ''ip6.arpa.''" for bs
    by (induction bs) auto
  let ?a = "be32 o1 o2 o3 o4"
  have len: "take (length dst - 1) (a_arpa_text 4 ?a) = a_arpa_text 4 ?a"
    "length a6 = 16 \<longrightarrow> take (length dst - 1) (aaaa_arpa_text (rev a6)) = aaaa_arpa_text (rev a6)"
    using a_arpa_text_ok [of 4 ?a] aaaa_arpa_text_ok [of "rev a6"] assms by (simp_all, linarith)
  have "a_arpa_text 4 ?a = decimal (unat o4) @ [46] @ decimal (unat o3) @ [46] @ decimal (unat o2) @ [46] @ decimal (unat o1) @ [46] @ str ''in-addr.arpa.''"
    by (simp only: a_arpa_4 be32_eq shift_byte) (simp del: decimal.simps)
  moreover have "cstr (snd (dns_ptr_qname dst (Inl ?a))) = take (length dst - 1) (a_arpa_text 4 ?a)"
    using parpa.closep_text(2) [OF dst, of 4 ?a] a_arpa_text_ok [of 4 ?a] close2 [of "a_arpa_loop 4 ?a"]
    by (simp add: dns_ptr_qname_def dns_a_arpa_def case_prod_beta)
  moreover have "cstr (snd (dns_ptr_qname dst (Inr a6))) = take (length dst - 1) (aaaa_arpa_text (rev a6))"
    using parpa6.closep_text(2) [OF dst, of "rev a6"] aaaa_arpa_text_ok [of "rev a6"] close2 [of "aaaa_arpa_loop (rev a6)"]
    by (simp add: dns_ptr_qname_def dns_aaaa_arpa_def case_prod_beta)
  ultimately show ?thesis using len unfolding arpa6 by argo
qed

theorem dns_ptr_qname_spec_witness:
  "cstr (snd (dns_ptr_qname (replicate 256 0) (Inl (be32 192 0 2 1)))) = str ''1.2.0.192.in-addr.arpa.''"
proof -
  have "decimal (unat (1::u8)) @ [46] @ decimal (unat (2::u8)) @ [46] @ decimal (unat (0::u8)) @ [46] @ decimal (unat (192::u8)) @ [46]
      @ str ''in-addr.arpa.'' = str ''1.2.0.192.in-addr.arpa.''"
    by code_simp
  then show ?thesis
    using dns_ptr_qname_spec [of "replicate 256 0" 192 0 2 1 "[]"] by simp
qed

section \<open>Texts\<close>

text \<open>The quoted form of a text, and its meaning in a zone file: strings in double quotes, apart
  or side by side, in which a backslash and three digits stand for a byte.\<close>

definition txt_esc :: "u8 \<Rightarrow> bytes" where
  "txt_esc ch = (if ch < 32 \<or> 126 < ch \<or> ch = 34 \<or> ch = 92 then 92 # print10_text (unat ch) 3 else [ch])"

fun txt_body :: "nat \<Rightarrow> bytes \<Rightarrow> bytes" where
  "txt_body i [] = [34]"
| "txt_body i (ch # cs) = (if i mod 255 = 0 \<and> i \<noteq> 0 then [34, 32, 34] else []) @ txt_esc ch @ txt_body (i + 1) cs"

fun unquote :: "bool \<Rightarrow> bytes \<Rightarrow> bytes" where
  "unquote q [] = []"
| "unquote q (c # cs) =
     (if \<not> q then unquote (c = 34) cs
      else if c = 34 then unquote False cs
      else if c = 92 then byte (undecimal (take 3 cs)) # unquote True (drop 3 cs)
      else c # unquote True cs)"

lemma printer_txt_char: "printer (txt_char ch) (txt_esc ch)"
  using printer_seqp [OF pchar.printer_axioms [of 92] pdec.printer_axioms [of "unat ch" 3]] pchar.printer_axioms
  by (simp add: txt_char_def txt_esc_def)

lemma printer_txt_loop: "printer (txt_print_loop i cs) (txt_body i cs)"
proof (induction cs arbitrary: i)
  case (Cons ch cs)
  note rest = printer_seqp [OF printer_txt_char [of ch] Cons [of "i + 1"]]
  show ?case
    using rest printer_seqp [OF pchar.printer_axioms [of 34] printer_seqp [OF pchar.printer_axioms [of 32]
      printer_seqp [OF pchar.printer_axioms [of 34] rest]]]
    by (cases "i = 0") simp_all
qed (use pchar.printer_axioms in simp)

interpretation ptxt: printer "seqp (dns__printchar 34) (txt_print_loop i cs)" "34 # txt_body i cs" for i cs
  using printer_seqp [OF pchar.printer_axioms [of 34] printer_txt_loop] by simp

lemma txt_esc_ok: "0 \<notin> set (txt_esc ch)"
  using print10_text_nonzero by (auto simp: txt_esc_def)

lemma txt_body_ok: "0 \<notin> set (txt_body i cs)"
  by (induction i cs rule: txt_body.induct) (auto simp: txt_esc_ok)

lemma unquote_esc: "unquote True (txt_esc ch @ cs) = ch # unquote True cs"
proof (cases "ch < 32 \<or> 126 < ch \<or> ch = 34 \<or> ch = 92")
  case True
  have small: "unat ch mod 4294967296 = unat ch"
    by (rule mod_less, rule order_less_trans [OF unat_u8_less]) simp
  have "length (print10_text (unat ch) 3) = 3"
    using decimal_byte [OF unat_u8_less, of ch] by (simp add: print10_text_def Let_def small del: decimal.simps)
  moreover have "undecimal (print10_text (unat ch) 3) = unat ch"
    by (simp add: undecimal_print10_text small)
  ultimately show ?thesis using True by (simp add: txt_esc_def)
qed (auto simp: txt_esc_def)

lemma unquote_body: "unquote True (txt_body i cs) = cs"
  by (induction i cs rule: txt_body.induct) (auto simp: unquote_esc)

text \<open>C33: \<open>dns_txt_print\<close> loses nothing: in a buffer that is large enough it leaves quoted strings
  that read back as the text of the record, whatever bytes the text has; the reported length is
  the length of the string, also when the buffer is too small.\<close>

theorem dns_txt_print_reads_back:
  "fst (dns_txt_print dst t) < length dst \<Longrightarrow>
    unquote False (cstr (snd (dns_txt_print dst t))) = take (txt_len t) (txt_data t)
    \<and> length (cstr (snd (dns_txt_print dst t))) = fst (dns_txt_print dst t)"
proof -
  let ?cs = "take (txt_len t) (txt_data t)"
  assume less: "fst (dns_txt_print dst t) < length dst"
  then have dst: "0 < length dst" by linarith
  have nz: "0 \<notin> set (34 # txt_body 0 ?cs)" using txt_body_ok by simp
  have "fst (dns_txt_print dst t) = length (34 # txt_body 0 ?cs)"
    unfolding dns_txt_print_def by (rule ptxt.closep_text(1) [OF dst nz])
  moreover have "cstr (snd (dns_txt_print dst t)) = take (length dst - 1) (34 # txt_body 0 ?cs)"
    unfolding dns_txt_print_def by (rule ptxt.closep_text(2) [OF dst nz])
  ultimately show ?thesis using less unquote_body [of 0 ?cs] by simp
qed

theorem dns_txt_print_reads_back_witness:
  "let t = \<lparr>txt_size = 3, txt_len = 3, txt_data = [97, 98, 99]\<rparr>
   in fst (dns_txt_print (replicate 32 0) t) = 5 \<and> unquote False (cstr (snd (dns_txt_print (replicate 32 0) t))) = [97, 98, 99]"
proof -
  have "length (34 # txt_body 0 [97, 98, 99]) = 5" by code_simp
  then have "fst (dns_txt_print (replicate 32 0) \<lparr>txt_size = 3, txt_len = 3, txt_data = [97, 98, 99]\<rparr>) = 5"
    using ptxt.closep_text(1) [of "replicate 32 0" 0 "[97, 98, 99]"] txt_body_ok [of 0 "[97, 98, 99]"]
    by (simp add: dns_txt_print_def del: txt_body.simps)
  then show ?thesis
    using dns_txt_print_reads_back [of "replicate 32 0" "\<lparr>txt_size = 3, txt_len = 3, txt_data = [97, 98, 99]\<rparr>"] by simp
qed

end
