(* ===== verification/Dns_Iter.thy ===== *)
theory Dns_Iter
  imports Dns_Rdata Dns_Crypto
begin

unbundle bit_operations_syntax

text \<open>
  Iterating over the records of a packet, from \<^verbatim>\<open>src/src/c/dns/libdns/dns.c\<close>: comparing
  records (\<open>dns_rr_cmp\<close>), the three orders, the start and skip routines of an iterator and
  \<open>dns_rr_grep\<close>, on which \<open>dns_rr_foreach\<close> is built. The iterator yields the matching
  records sorted by its order; how it gets there (a pass over the whole packet for every record) is
  refined to that specification in \<open>Dns_Iter_Spec\<close>.
\<close>

section \<open>The iterator\<close>

datatype dns_sort = Sort_default | Sort_packet | Sort_order | Sort_shuffle

record dns_rr_i_state =
  i_next :: nat
  i_count :: nat
  i_exec :: nat
  i_reg0 :: u32

record dns_rr_i =
  i_section :: nat
  i_name :: "bytes option"
  i_type :: nat
  i_class :: nat
  i_data :: "dns_any option"
  i_sort :: dns_sort
  i_state :: dns_rr_i_state
  i_saved :: dns_rr_i_state

definition dns_rr_i_init :: "dns_rr_i \<Rightarrow> dns_rr_i" where
  "dns_rr_i_init i =
     (let s = \<lparr>i_next = 0, i_count = 0, i_exec = 0, i_reg0 = 0\<rparr> in i\<lparr>i_state := s, i_saved := s\<rparr>)"

text \<open>\<open>dns_rr_i_new\<close> with the fields a caller gives.\<close>

definition dns_rr_i_new :: "nat \<Rightarrow> bytes option \<Rightarrow> nat \<Rightarrow> nat \<Rightarrow> dns_any option \<Rightarrow> dns_sort \<Rightarrow> dns_rr_i" where
  "dns_rr_i_new sec nm ty cl dat srt =
     (let s = \<lparr>i_next = 0, i_count = 0, i_exec = 0, i_reg0 = 0\<rparr>
      in dns_rr_i_init \<lparr>i_section = sec, i_name = nm, i_type = ty, i_class = cl, i_data = dat, i_sort = srt,
           i_state = s, i_saved = s\<rparr>)"

section \<open>Comparing records\<close>

text \<open>
  The unions that \<open>dns_rr_cmp\<close> and \<open>dns_rr_i_match\<close> parse into are not initialised. What their
  size field happens to hold is the argument \<open>junk\<close>: 0 and 1 are the two unions of
  \<open>dns_rr_cmp\<close>, 2 is the one of \<open>dns_rr_i_match\<close>.
\<close>

definition expand_name :: "nat \<Rightarrow> dns_packet \<Rightarrow> bytes option option" where
  "expand_name p P = do {
     (err, len, host) \<leftarrow> dns_d_expand (replicate 256 0) p P;
     Some (if err \<noteq> None \<or> 256 \<le> len then None else Some host)
   }"

definition dns_rr_cmp :: "(nat \<Rightarrow> nat) \<Rightarrow> dns_rr \<Rightarrow> dns_packet \<Rightarrow> dns_rr \<Rightarrow> dns_packet \<Rightarrow> int option" where
  "dns_rr_cmp junk r0 P0 r1 P1 =
     (if rtype r0 \<noteq> rtype r1 then Some (int (rtype r0) - int (rtype r1))
      else if rclass r0 \<noteq> rclass r1 then Some (int (rclass r0) - int (rclass r1))
      else do {
        h0 \<leftarrow> expand_name (dnp r0) P0;
        case h0 of None \<Rightarrow> Some (-1) | Some host0 \<Rightarrow> do {
          h1 \<leftarrow> expand_name (dnp r1) P1;
          case h1 of None \<Rightarrow> Some 1 | Some host1 \<Rightarrow>
            let cmp = strcasecmp host0 host1
            in if cmp \<noteq> 0 then Some cmp
               else if DNS_S_QD AND (rsection r0 OR rsection r1) \<noteq> 0 then
                 Some (if rsection r0 = rsection r1 then 0 else if rsection r0 = DNS_S_QD then -1 else 1)
               else do {
                 a0 \<leftarrow> dns_any_parse (junk 0) r0 P0;
                 case a0 of Inl e \<Rightarrow> Some (-1) | Inr any0 \<Rightarrow> do {
                   a1 \<leftarrow> dns_any_parse (junk 1) r1 P1;
                   case a1 of Inl e \<Rightarrow> Some 1 | Inr any1 \<Rightarrow> dns_any_cmp any0 (rtype r0) any1 (rtype r1)
                 }
               }
        }
      })"

abbreviation (input) DNS_C_ANY :: nat where "DNS_C_ANY \<equiv> 255"

definition name_matches :: "dns_rr \<Rightarrow> bytes option \<Rightarrow> dns_packet \<Rightarrow> bool option" where
  "name_matches rr name P = (case name of None \<Rightarrow> Some True | Some n \<Rightarrow> do {
     h \<leftarrow> expand_name (dnp rr) P;
     Some (case h of None \<Rightarrow> False | Some dn \<Rightarrow> strcasecmp dn n = 0)
   })"

definition data_matches :: "(nat \<Rightarrow> nat) \<Rightarrow> dns_rr \<Rightarrow> dns_rr_i \<Rightarrow> dns_packet \<Rightarrow> bool option" where
  "data_matches junk rr i P = (case i_data i of None \<Rightarrow> Some True | Some dat \<Rightarrow>
     if i_type i \<noteq> 0 \<and> DNS_S_QD < rsection rr then do {
       a \<leftarrow> dns_any_parse (junk 2) rr P;
       case a of Inl e \<Rightarrow> Some False
       | Inr got \<Rightarrow> do { c \<leftarrow> dns_any_cmp got (rtype rr) dat (i_type i); Some (c = 0) }
     }
     else Some True)"

definition dns_rr_i_match :: "(nat \<Rightarrow> nat) \<Rightarrow> dns_rr \<Rightarrow> dns_rr_i \<Rightarrow> dns_packet \<Rightarrow> bool option" where
  "dns_rr_i_match junk rr i P =
     (if i_section i \<noteq> 0 \<and> rsection rr AND i_section i = 0 then Some False
      else if i_type i \<noteq> 0 \<and> rtype rr \<noteq> i_type i \<and> i_type i \<noteq> DNS_T_ALL then Some False
      else if i_class i \<noteq> 0 \<and> rclass rr \<noteq> i_class i \<and> i_class i \<noteq> DNS_C_ANY then Some False
      else do {
        ok \<leftarrow> name_matches rr (i_name i) P;
        if \<not> ok then Some False else data_matches junk rr i P
      })"

section \<open>The orders\<close>

definition dns_rr_i_packet :: "dns_rr \<Rightarrow> dns_rr \<Rightarrow> int" where
  "dns_rr_i_packet a b = int (dnp a) - int (dnp b)"

definition dns_rr_i_order :: "(nat \<Rightarrow> nat) \<Rightarrow> dns_rr \<Rightarrow> dns_rr \<Rightarrow> dns_packet \<Rightarrow> int option" where
  "dns_rr_i_order junk a b P =
     (if rsection a \<noteq> rsection b then Some (int (rsection a) - int (rsection b))
      else if rtype a \<noteq> rtype b then Some (int (dnp a) - int (dnp b))
      else dns_rr_cmp junk a P b P)"

text \<open>\<open>seed\<close> is the first nonzero value that \<open>dns_random\<close> returns; if there is none, the
  loop does not end.\<close>

definition shuffled :: "nat \<Rightarrow> u32 \<Rightarrow> nat" where
  "shuffled p s = unat (dns_k_shuffle16 (word_of_nat p) s)"

definition dns_rr_i_shuffle :: "u32 \<Rightarrow> dns_rr \<Rightarrow> dns_rr \<Rightarrow> dns_rr_i \<Rightarrow> (int \<times> dns_rr_i) option" where
  "dns_rr_i_shuffle seed a b i =
     (let s = (if i_reg0 (i_state i) = 0 then seed else i_reg0 (i_state i))
      in if s = 0 then None
         else Some (if rsection a \<noteq> rsection b then int (rsection a) - int (rsection b)
                    else int (shuffled (dnp a) s) - int (shuffled (dnp b) s),
                    i\<lparr>i_state := (i_state i)\<lparr>i_reg0 := s\<rparr>\<rparr>))"

definition i_cmp :: "(nat \<Rightarrow> nat) \<Rightarrow> u32 \<Rightarrow> dns_rr \<Rightarrow> dns_rr \<Rightarrow> dns_rr_i \<Rightarrow> dns_packet \<Rightarrow> (int \<times> dns_rr_i) option" where
  "i_cmp junk seed a b i P = (case i_sort i of
     Sort_order \<Rightarrow> map_option (\<lambda>c. (c, i)) (dns_rr_i_order junk a b P)
   | Sort_shuffle \<Rightarrow> dns_rr_i_shuffle seed a b i
   | _ \<Rightarrow> Some (dns_rr_i_packet a b, i))"

section \<open>Start and skip\<close>

text \<open>The record at an offset with its section, when it parses.\<close>

definition rr_at :: "nat \<Rightarrow> dns_packet \<Rightarrow> dns_rr option option" where
  "rr_at rp P = do {
     r \<leftarrow> dns_rr_parse rp P;
     case r of
       Inl e \<Rightarrow> Some None
     | Inr rr \<Rightarrow> do { s \<leftarrow> dns_rr_section rp P; Some (Some (rr\<lparr>rsection := s\<rparr>)) }
   }"

text \<open>The record at an offset if it parses and matches.\<close>

definition candidate :: "(nat \<Rightarrow> nat) \<Rightarrow> nat \<Rightarrow> dns_rr_i \<Rightarrow> dns_packet \<Rightarrow> dns_rr option option" where
  "candidate junk rp i P = do {
     r \<leftarrow> rr_at rp P;
     case r of
       None \<Rightarrow> Some None
     | Some rr \<Rightarrow> do { m \<leftarrow> dns_rr_i_match junk rr i P; Some (if m then Some rr else None) }
   }"

definition start_body :: "(nat \<Rightarrow> nat) \<Rightarrow> dns_rr_i \<Rightarrow> dns_packet \<Rightarrow> nat \<Rightarrow> (nat + (nat \<times> dns_rr) option) option" where
  "start_body junk i P = (\<lambda>rp.
     if rp < pend P then do {
       c \<leftarrow> candidate junk rp i P;
       case c of
         None \<Rightarrow> do { rp \<leftarrow> dns_rr_skip rp P; Some (Inl rp) }
       | Some rr \<Rightarrow> Some (Inr (Some (rp, rr)))
     }
     else Some (Inr None))"

definition start_lower_body :: "(nat \<Rightarrow> nat) \<Rightarrow> u32 \<Rightarrow> dns_packet \<Rightarrow> nat \<times> dns_rr \<times> dns_rr_i
    \<Rightarrow> ((nat \<times> dns_rr \<times> dns_rr_i) + (dns_rr \<times> dns_rr_i)) option" where
  "start_lower_body junk seed P = (\<lambda>(rp, r0, i). do {
     rp \<leftarrow> dns_rr_skip rp P;
     if rp < pend P then do {
       c \<leftarrow> candidate junk rp i P;
       case c of
         None \<Rightarrow> Some (Inl (rp, r0, i))
       | Some rr \<Rightarrow> do {
           (cmp, i) \<leftarrow> i_cmp junk seed rr r0 i P;
           Some (Inl (rp, if cmp < 0 then rr else r0, i))
         }
     }
     else Some (Inr (r0, i))
   })"

text \<open>The source first picks the offset of a section and then overwrites it with 12; only the
  latter has an effect.\<close>

definition dns_rr_i_start :: "(nat \<Rightarrow> nat) \<Rightarrow> u32 \<Rightarrow> dns_rr_i \<Rightarrow> dns_packet \<Rightarrow> (nat \<times> dns_rr_i) option" where
  "dns_rr_i_start junk seed i P = do {
     f \<leftarrow> loop (start_body junk i P) 12;
     case f of
       None \<Rightarrow> Some (u16 (pend P), i)
     | Some (rp, r0) \<Rightarrow>
         if i_sort i = Sort_packet then Some (dns_rr_offset r0, i)
         else do {
           (r0, i) \<leftarrow> loop (start_lower_body junk seed P) (rp, r0, i);
           Some (dns_rr_offset r0, i)
         }
   }"

definition skip_body :: "(nat \<Rightarrow> nat) \<Rightarrow> u32 \<Rightarrow> dns_packet \<Rightarrow> dns_rr \<Rightarrow> nat \<times> dns_rr_i
    \<Rightarrow> ((nat \<times> dns_rr_i) + ((nat \<times> dns_rr) option \<times> dns_rr_i)) option" where
  "skip_body junk seed P r0 = (\<lambda>(rp, i).
     if rp < pend P then do {
       c \<leftarrow> candidate junk rp i P;
       case c of
         None \<Rightarrow> do { rp \<leftarrow> dns_rr_skip rp P; Some (Inl (rp, i)) }
       | Some rr \<Rightarrow> do {
           (cmp, i) \<leftarrow> i_cmp junk seed rr r0 i P;
           if cmp \<le> 0 then do { rp \<leftarrow> dns_rr_skip rp P; Some (Inl (rp, i)) }
           else Some (Inr (Some (rp, rr), i))
         }
     }
     else Some (Inr (None, i)))"

definition skip_lower_body :: "(nat \<Rightarrow> nat) \<Rightarrow> u32 \<Rightarrow> dns_packet \<Rightarrow> dns_rr \<Rightarrow> nat \<times> dns_rr \<times> dns_rr_i
    \<Rightarrow> ((nat \<times> dns_rr \<times> dns_rr_i) + (dns_rr \<times> dns_rr_i)) option" where
  "skip_lower_body junk seed P r0 = (\<lambda>(rp, r1, i). do {
     rp \<leftarrow> dns_rr_skip rp P;
     if rp < pend P then do {
       c \<leftarrow> candidate junk rp i P;
       case c of
         None \<Rightarrow> Some (Inl (rp, r1, i))
       | Some rr \<Rightarrow> do {
           (cmp, i) \<leftarrow> i_cmp junk seed rr r0 i P;
           if cmp \<le> 0 then Some (Inl (rp, r1, i))
           else do {
             (cmp, i) \<leftarrow> i_cmp junk seed rr r1 i P;
             Some (Inl (rp, if 0 \<le> cmp then r1 else rr, i))
           }
         }
     }
     else Some (Inr (r1, i))
   })"

definition dns_rr_i_skip :: "(nat \<Rightarrow> nat) \<Rightarrow> u32 \<Rightarrow> nat \<Rightarrow> dns_rr_i \<Rightarrow> dns_packet \<Rightarrow> (nat \<times> dns_rr_i) option" where
  "dns_rr_i_skip junk seed rp i P = do {
     r \<leftarrow> rr_at rp P;
     case r of
       None \<Rightarrow> Some (u16 (pend P), i)
     | Some r0 \<Rightarrow> do {
         rp \<leftarrow> (if i_sort i = Sort_packet then dns_rr_skip rp P else Some 12);
         (f, i) \<leftarrow> loop (skip_body junk seed P r0) (rp, i);
         case f of
           None \<Rightarrow> Some (u16 (pend P), i)
         | Some (rp, r1) \<Rightarrow>
             if i_sort i = Sort_packet then Some (dns_rr_offset r1, i)
             else do {
               (r1, i) \<leftarrow> loop (skip_lower_body junk seed P r0) (rp, r1, i);
               Some (dns_rr_offset r1, i)
             }
       }
   }"

section \<open>Grep\<close>

definition grep_body :: "(nat \<Rightarrow> nat) \<Rightarrow> u32 \<Rightarrow> nat \<Rightarrow> dns_packet \<Rightarrow> dns_rr list \<times> dns_rr_i
    \<Rightarrow> ((dns_rr list \<times> dns_rr_i) + (dns_error option \<times> dns_rr list \<times> dns_rr_i)) option" where
  "grep_body junk seed lim P = (\<lambda>(rrs, i).
     if length rrs < lim \<and> i_next (i_state i) < pend P then do {
       r \<leftarrow> dns_rr_parse (i_next (i_state i)) P;
       case r of
         Inl e \<Rightarrow> Some (Inr (Some e, rrs, i))
       | Inr rr \<Rightarrow> do {
           s \<leftarrow> dns_rr_section (i_next (i_state i)) P;
           let i = i\<lparr>i_state := (i_state i)\<lparr>i_count := u16 (i_count (i_state i) + 1)\<rparr>\<rparr>;
           (nxt, i) \<leftarrow> dns_rr_i_skip junk seed (i_next (i_state i)) i P;
           Some (Inl (rrs @ [rr\<lparr>rsection := s\<rparr>], i\<lparr>i_state := (i_state i)\<lparr>i_next := nxt\<rparr>\<rparr>))
         }
     }
     else Some (Inr (None, rrs, i)))"

definition dns_rr_grep :: "(nat \<Rightarrow> nat) \<Rightarrow> u32 \<Rightarrow> nat \<Rightarrow> dns_rr_i \<Rightarrow> dns_packet
    \<Rightarrow> (dns_error option \<times> dns_rr list \<times> dns_rr_i) option" where
  "dns_rr_grep junk seed lim i P =
     (if i_exec (i_state i) = 0 then do {
        let i = (if i_sort i = Sort_default then i\<lparr>i_sort := Sort_packet\<rparr> else i);
        (nxt, i) \<leftarrow> dns_rr_i_start junk seed i P;
        let i = i\<lparr>i_state := (i_state i)\<lparr>i_next := nxt, i_exec := 1\<rparr>\<rparr>;
        loop (grep_body junk seed lim P) ([], i)
      }
      else if i_exec (i_state i) = 1 then loop (grep_body junk seed lim P) ([], i)
      else Some (None, [], i))"

text \<open>\<open>dns_rr_foreach\<close>: one record at a time until \<open>dns_rr_grep\<close> has none; the records its
  body sees.\<close>

definition foreach_body :: "(nat \<Rightarrow> nat) \<Rightarrow> u32 \<Rightarrow> dns_packet \<Rightarrow> dns_rr list \<times> dns_rr_i
    \<Rightarrow> ((dns_rr list \<times> dns_rr_i) + dns_rr list) option" where
  "foreach_body junk seed P = (\<lambda>(seen, i). do {
     (err, rrs, i) \<leftarrow> dns_rr_grep junk seed 1 i P;
     Some (if rrs = [] then Inr seen else Inl (seen @ rrs, i))
   })"

definition dns_rr_foreach :: "(nat \<Rightarrow> nat) \<Rightarrow> u32 \<Rightarrow> dns_rr_i \<Rightarrow> dns_packet \<Rightarrow> dns_rr list option" where
  "dns_rr_foreach junk seed i P = loop (foreach_body junk seed P) ([], i)"

text \<open>\<open>dns_rr_exists\<close>; the loop stops at the first record that compares equal.\<close>

fun any_equal :: "(nat \<Rightarrow> nat) \<Rightarrow> dns_rr \<Rightarrow> dns_packet \<Rightarrow> dns_packet \<Rightarrow> dns_rr list \<Rightarrow> bool option" where
  "any_equal junk rr0 P0 P1 [] = Some False"
| "any_equal junk rr0 P0 P1 (rr1 # rrs) = do {
     c \<leftarrow> dns_rr_cmp junk rr0 P0 rr1 P1;
     if c = 0 then Some True else any_equal junk rr0 P0 P1 rrs
   }"

definition dns_rr_exists :: "(nat \<Rightarrow> nat) \<Rightarrow> u32 \<Rightarrow> dns_rr \<Rightarrow> dns_packet \<Rightarrow> dns_packet \<Rightarrow> bool option" where
  "dns_rr_exists junk seed rr0 P0 P1 = do {
     rrs \<leftarrow> dns_rr_foreach junk seed (dns_rr_i_new (rsection rr0) None (rtype rr0) 0 None Sort_default) P1;
     any_equal junk rr0 P0 P1 rrs
   }"

end
