(* ===== verification/Dns_Iter_Spec.thy ===== *)
theory Dns_Iter_Spec
  imports Dns_Iter "HOL-Library.Multiset"
begin

text \<open>
  What an iterator yields. The candidates of an iterator are the records of the packet, in packet
  order, that parse and match. Over a comparison that is a total preorder, \<open>dns_rr_foreach\<close>
  yields them in increasing order, one record for each class of equal records; over the order of
  the packet and the shuffled order that is every candidate, exactly once.
\<close>

section \<open>Candidates\<close>

definition cands :: "(nat \<Rightarrow> dns_rr option) \<Rightarrow> nat list \<Rightarrow> dns_rr list" where
  "cands c os = List.map_filter c os"

lemma cands_simps [simp]:
  "cands c [] = []"
  "cands c (x # os) = (case c x of None \<Rightarrow> cands c os | Some r \<Rightarrow> r # cands c os)"
  by (simp_all add: cands_def List.map_filter_simps split: option.split)

lemma cands_set: "r \<in> set (cands c os) \<longleftrightarrow> (\<exists>x \<in> set os. c x = Some r)"
  by (induction os) (auto split: option.splits)

text \<open>\<open>scans\<close>: at every record of the packet the tests of the iterator return.\<close>

definition scans :: "(nat \<Rightarrow> nat) \<Rightarrow> dns_rr_i \<Rightarrow> dns_packet \<Rightarrow> (nat \<Rightarrow> dns_rr option) \<Rightarrow> bool" where
  "scans junk i P c \<longleftrightarrow> (\<forall>rp \<in> set (rr_offsets P). candidate junk rp i P = Some (c rp))"

lemma data_matches_state: "data_matches junk rr (i\<lparr>i_state := st\<rparr>) P = data_matches junk rr i P"
  by (cases "i_data i") (simp_all add: data_matches_def)

lemma match_state [simp]: "dns_rr_i_match junk rr (i\<lparr>i_state := st\<rparr>) P = dns_rr_i_match junk rr i P"
  unfolding dns_rr_i_match_def data_matches_state by simp

lemma candidate_state [simp]: "candidate junk rp (i\<lparr>i_state := st\<rparr>) P = candidate junk rp i P"
  unfolding candidate_def match_state ..

lemma rr_at_offset:
  assumes "rr_at rp P = Some (Some rr)"
  shows "dnp rr = rp"
  using assms by (auto simp: rr_at_def dns_rr_parse_def Let_def split: bind_splits sum.splits if_splits)

lemma candidate_offset: "candidate junk rp i P = Some (Some rr) \<Longrightarrow> dnp rr = rp \<and> rr_at rp P = Some (Some rr)"
  by (auto simp: candidate_def dest: rr_at_offset split: bind_splits option.splits if_splits)

lemma offsets_split:
  assumes "x \<in> set (rr_offsets_from P rp)"
  shows "\<exists>pre. rr_offsets_from P rp = pre @ rr_offsets_from P x"
  using assms
proof (induction P rp rule: rr_offsets_from.induct)
  case (1 P rp)
  show ?case
  proof (cases "x = rp")
    case False
    then obtain j where j: "dns_rr_skip rp P = Some j" "rp < j" "rp < pend P" "x \<in> set (rr_offsets_from P j)"
      using 1(2) by (subst (asm) rr_offsets_from.simps) (auto split: if_splits option.splits)
    then obtain pre where "rr_offsets_from P j = pre @ rr_offsets_from P x" using 1(1) by blast
    then have "rr_offsets_from P rp = (rp # pre) @ rr_offsets_from P x"
      using j by (subst rr_offsets_from.simps) auto
    then show ?thesis by blast
  qed auto
qed

lemma cands_append [simp]: "cands c (xs @ ys) = cands c xs @ cands c ys"
  by (induction xs) (auto split: option.split)

section \<open>The first and the next record of an order\<close>

definition pick :: "('a \<Rightarrow> 'a \<Rightarrow> int) \<Rightarrow> 'a \<Rightarrow> 'a \<Rightarrow> 'a" where
  "pick cmp r0 r = (if cmp r r0 < 0 then r else r0)"

fun first :: "('a \<Rightarrow> 'a \<Rightarrow> int) \<Rightarrow> 'a list \<Rightarrow> 'a option" where
  "first cmp [] = None"
| "first cmp (r # rs) = Some (foldl (pick cmp) r rs)"

definition beyond :: "('a \<Rightarrow> 'a \<Rightarrow> int) \<Rightarrow> 'a \<Rightarrow> 'a list \<Rightarrow> 'a list" where
  "beyond cmp r0 rs = filter (\<lambda>r. 0 < cmp r r0) rs"

text \<open>The order interface: a comparison that is a total preorder on the records it is used on.\<close>

locale rr_order =
  fixes cmp :: "'a \<Rightarrow> 'a \<Rightarrow> int"
    and A :: "'a set"
  assumes anti: "a \<in> A \<Longrightarrow> b \<in> A \<Longrightarrow> sgn (cmp b a) = - sgn (cmp a b)"
    and trans: "a \<in> A \<Longrightarrow> b \<in> A \<Longrightarrow> c \<in> A \<Longrightarrow> cmp a b \<le> 0 \<Longrightarrow> cmp b c \<le> 0 \<Longrightarrow> cmp a c \<le> 0"
begin

lemma less_iff: "a \<in> A \<Longrightarrow> b \<in> A \<Longrightarrow> 0 < cmp b a \<longleftrightarrow> cmp a b < 0"
  using anti [of a b] by (auto simp: sgn_if split: if_splits)

lemma eq_iff: "a \<in> A \<Longrightarrow> b \<in> A \<Longrightarrow> cmp b a = 0 \<longleftrightarrow> cmp a b = 0"
  using anti [of a b] by (auto simp: sgn_if split: if_splits)

lemma refl: "a \<in> A \<Longrightarrow> cmp a a = 0"
  using anti [of a a] by (auto simp: sgn_if split: if_splits)

lemma less_trans: "a \<in> A \<Longrightarrow> b \<in> A \<Longrightarrow> c \<in> A \<Longrightarrow> cmp a b < 0 \<Longrightarrow> cmp b c \<le> 0 \<Longrightarrow> cmp a c < 0"
  using trans [of a b c] trans [of b c a] less_iff [of a c] eq_iff [of a c] less_iff [of a b] by force

lemma first_least:
  "set (r # rs) \<subseteq> A \<Longrightarrow> foldl (pick cmp) r rs \<in> set (r # rs) \<and> (\<forall>x \<in> set (r # rs). cmp (foldl (pick cmp) r rs) x \<le> 0)"
proof (induction rs arbitrary: r)
  case Nil
  then show ?case using refl by simp
next
  case (Cons a rs)
  let ?p = "pick cmp r a"
  let ?m = "foldl (pick cmp) ?p rs"
  have p: "?p \<in> {r, a}" by (simp add: pick_def)
  have le: "cmp ?p r \<le> 0" "cmp ?p a \<le> 0"
    using Cons.prems refl [of r] refl [of a] less_iff [of r a] less_iff [of a r] by (auto simp: pick_def not_less)
  have ih: "?m \<in> set (?p # rs)" "\<forall>x \<in> set (?p # rs). cmp ?m x \<le> 0"
    using Cons.IH [of ?p] Cons.prems p by auto
  have A: "?m \<in> A" "?p \<in> A" "r \<in> A" "a \<in> A" using ih(1) p Cons.prems by auto
  have "cmp ?m r \<le> 0" "cmp ?m a \<le> 0"
    using trans [OF A(1,2,3)] trans [OF A(1,2,4)] ih(2) le by auto
  then show ?case using ih p by auto
qed

lemma first_beyond:
  assumes "set M \<subseteq> A" "r0 \<in> A" "first cmp (beyond cmp r0 M) = Some r1"
  shows "r1 \<in> set M" "cmp r0 r1 < 0" "length (beyond cmp r1 M) < length (beyond cmp r0 M)"
    "\<And>x. x \<in> set M \<Longrightarrow> cmp r0 x < 0 \<Longrightarrow> cmp r1 x \<le> 0"
proof -
  obtain r rs where rs: "beyond cmp r0 M = r # rs" using assms(3) by (cases "beyond cmp r0 M") auto
  have sub: "set (r # rs) \<subseteq> set M" "\<forall>x \<in> set (r # rs). 0 < cmp x r0" unfolding rs [symmetric] by (auto simp: beyond_def)
  then have r1: "r1 \<in> set (r # rs)" "\<forall>x \<in> set (r # rs). cmp r1 x \<le> 0"
    using first_least [of r rs] assms(1,3) rs by auto
  then show "r1 \<in> set M" and lt: "cmp r0 r1 < 0" using sub less_iff [of r0 r1] assms(1,2) by auto
  show "cmp r1 x \<le> 0" if "x \<in> set M" "cmp r0 x < 0" for x
    using r1(2) that less_iff [of r0 x] assms(1,2) unfolding rs [symmetric] by (auto simp: beyond_def)
  have "0 < cmp x r0" if "x \<in> set M" "0 < cmp x r1" for x
  proof -
    have "x \<in> A" "r1 \<in> A" using that(1) \<open>r1 \<in> set M\<close> assms(1) by auto
    then show ?thesis using less_trans [of r0 r1 x] less_iff [of r1 x] less_iff [of r0 x] lt that(2) assms(2) by simp
  qed
  then have "beyond cmp r1 M = filter (\<lambda>x. 0 < cmp x r1) (beyond cmp r0 M)"
    by (auto simp: beyond_def intro!: filter_cong)
  moreover have "\<exists>x \<in> set (beyond cmp r0 M). \<not> 0 < cmp x r1"
    using r1(1) refl [of r1] \<open>r1 \<in> set M\<close> assms(1) unfolding rs by (intro bexI [of _ r1]) auto
  ultimately show "length (beyond cmp r1 M) < length (beyond cmp r0 M)"
    using length_filter_less by metis
qed

lemma beyond_none:
  assumes "set M \<subseteq> A" "r0 \<in> A" "first cmp (beyond cmp r0 M) = None" "x \<in> set M"
  shows "cmp x r0 \<le> 0"
  using assms by (cases "beyond cmp r0 M") (auto simp: beyond_def filter_empty_conv not_less)

end

text \<open>\<open>enumerates cmp M xs\<close>: \<open>xs\<close> is \<open>M\<close> in increasing order without repetitions.\<close>

definition enumerates :: "('a \<Rightarrow> 'a \<Rightarrow> int) \<Rightarrow> 'a list \<Rightarrow> 'a list \<Rightarrow> bool" where
  "enumerates cmp M xs \<longleftrightarrow> sorted_wrt (\<lambda>a b. cmp a b < 0) xs \<and> set xs \<subseteq> set M \<and>
     (\<forall>x \<in> set M. \<exists>y \<in> set xs. cmp x y = 0)"

context rr_order
begin

lemma enumerates_step:
  assumes "set M \<subseteq> A" "r0 \<in> A" "first cmp (beyond cmp r0 M) = Some r1" "enumerates cmp (beyond cmp r1 M) xs"
  shows "enumerates cmp (beyond cmp r0 M) (r1 # xs)"
proof -
  note r1 = first_beyond [OF assms(1-3)]
  have r1A: "r1 \<in> A" using r1(1) assms(1) by blast
  have sub: "set xs \<subseteq> set (beyond cmp r1 M)" using assms(4) by (simp add: enumerates_def)
  have "cmp r1 y < 0" if "y \<in> set xs" for y
    using that sub less_iff [of r1 y] r1A assms(1) by (auto simp: beyond_def)
  moreover have "set xs \<subseteq> set (beyond cmp r0 M)"
  proof
    fix y assume "y \<in> set xs"
    then have y: "y \<in> set M" "cmp r1 y < 0" using sub less_iff [of r1 y] r1A assms(1) by (auto simp: beyond_def)
    then have "cmp r0 y < 0" using less_trans [of r0 r1 y] r1A assms(1,2) r1(2) by auto
    then show "y \<in> set (beyond cmp r0 M)" using y(1) less_iff [of r0 y] assms(1,2) by (auto simp: beyond_def)
  qed
  moreover have "r1 \<in> set (beyond cmp r0 M)"
    using r1(1,2) less_iff [of r0 r1] r1A assms(2) by (auto simp: beyond_def)
  moreover have "\<exists>y \<in> set (r1 # xs). cmp x y = 0" if x: "x \<in> set (beyond cmp r0 M)" for x
  proof (cases "0 < cmp x r1")
    case True
    then have "x \<in> set (beyond cmp r1 M)" using x by (auto simp: beyond_def)
    then show ?thesis using assms(4) by (auto simp: enumerates_def)
  next
    case False
    have xM: "x \<in> set M" "cmp r0 x < 0" using x less_iff [of r0 x] assms(1,2) by (auto simp: beyond_def)
    then have "cmp r1 x \<le> 0" by (rule r1(4))
    then have "cmp x r1 = 0" using False less_iff [of r1 x] eq_iff [of r1 x] less_iff [of x r1] r1A xM(1) assms(1) by force
    then show ?thesis by auto
  qed
  ultimately show ?thesis using assms(4) by (auto simp: enumerates_def)
qed

lemma enumerates_start:
  assumes "set M \<subseteq> A" "first cmp M = Some r1" "enumerates cmp (beyond cmp r1 M) xs"
  shows "enumerates cmp M (r1 # xs)"
proof -
  obtain r rs where M: "M = r # rs" using assms(2) by (cases M) auto
  have r1: "r1 \<in> set M" "\<forall>x \<in> set M. cmp r1 x \<le> 0" using first_least [of r rs] assms(1,2) M by auto
  have r1A: "r1 \<in> A" using r1(1) assms(1) by blast
  have sub: "set xs \<subseteq> set (beyond cmp r1 M)" using assms(3) by (simp add: enumerates_def)
  have "\<forall>y \<in> set xs. cmp r1 y < 0" using sub less_iff [of r1] r1A assms(1) by (force simp: beyond_def)
  moreover have "\<exists>y \<in> set (r1 # xs). cmp x y = 0" if x: "x \<in> set M" for x
  proof (cases "0 < cmp x r1")
    case True
    then show ?thesis using x assms(3) by (auto simp: enumerates_def beyond_def)
  next
    case False
    then have "cmp x r1 = 0" using r1(2) x less_iff [of r1 x] less_iff [of x r1] eq_iff [of r1 x] r1A assms(1) by force
    then show ?thesis by auto
  qed
  ultimately show ?thesis using assms(3) r1(1) sub by (auto simp: enumerates_def beyond_def)
qed

end

section \<open>The loops of the iterator\<close>

text \<open>The seed an iterator shuffles with, and the only change a comparison makes to it.\<close>

definition eff :: "u32 \<Rightarrow> dns_rr_i \<Rightarrow> u32" where
  "eff seed i = (if i_reg0 (i_state i) = 0 then seed else i_reg0 (i_state i))"

definition reseeded :: "u32 \<Rightarrow> dns_rr_i \<Rightarrow> dns_rr_i \<Rightarrow> bool" where
  "reseeded seed i i' \<longleftrightarrow> (\<exists>x. i' = i\<lparr>i_state := (i_state i)\<lparr>i_reg0 := x\<rparr>\<rparr>) \<and> eff seed i' = eff seed i"

lemma reseeded_refl [simp]: "reseeded seed i i"
  unfolding reseeded_def by (metis dns_rr_i.surjective dns_rr_i.update_convs(7) dns_rr_i_state.surjective dns_rr_i_state.update_convs(4))

lemma reseeded_trans: "reseeded seed i j \<Longrightarrow> reseeded seed j k \<Longrightarrow> reseeded seed i k"
  unfolding reseeded_def by force

lemma reseeded_simps:
  assumes "reseeded seed i j"
  shows "i_sort j = i_sort i" "eff seed j = eff seed i" "candidate junk rp j P = candidate junk rp i P"
    "i_next (i_state j) = i_next (i_state i)" "i_exec (i_state j) = i_exec (i_state i)"
  using assms by (auto simp: reseeded_def)

text \<open>\<open>sorts\<close>: the comparison of an iterator with the given order and seed is \<open>cmp\<close>.\<close>

definition sorts :: "(nat \<Rightarrow> nat) \<Rightarrow> u32 \<Rightarrow> dns_sort \<Rightarrow> u32 \<Rightarrow> dns_packet \<Rightarrow> (dns_rr \<Rightarrow> dns_rr \<Rightarrow> int) \<Rightarrow> dns_rr set \<Rightarrow> bool" where
  "sorts junk seed srt e P cmp R \<longleftrightarrow> (\<forall>i. \<forall>a \<in> R. \<forall>b \<in> R. i_sort i = srt \<longrightarrow> eff seed i = e \<longrightarrow>
     (\<exists>j. i_cmp junk seed a b i P = Some (cmp a b, j) \<and> reseeded seed i j))"

lemma sortsD:
  assumes "sorts junk seed srt e P cmp R" "a \<in> R" "b \<in> R" "i_sort i = srt" "eff seed i = e"
  obtains j where "i_cmp junk seed a b i P = Some (cmp a b, j)" "reseeded seed i j"
  using assms unfolding sorts_def by blast

definition scans_on :: "(nat \<Rightarrow> nat) \<Rightarrow> dns_rr_i \<Rightarrow> dns_packet \<Rightarrow> (nat \<Rightarrow> dns_rr option) \<Rightarrow> nat list \<Rightarrow> bool" where
  "scans_on junk i P c os \<longleftrightarrow> (\<forall>rp \<in> set os. candidate junk rp i P = Some (c rp))"

lemma scans_on_simps [simp]:
  "scans_on junk i P c []"
  "scans_on junk i P c (x # os) \<longleftrightarrow> candidate junk x i P = Some (c x) \<and> scans_on junk i P c os"
  by (simp_all add: scans_on_def)

lemma scans_reseeded: "reseeded seed i j \<Longrightarrow> scans_on junk j P c os = scans_on junk i P c os"
  by (simp add: scans_on_def reseeded_simps)

lemma start_loop:
  assumes "in_packet P"
  shows "scans_on junk i P c (rr_offsets_from P rp) \<Longrightarrow>
    loop (start_body junk i P) rp = Some (case cands c (rr_offsets_from P rp) of [] \<Rightarrow> None | r # rs \<Rightarrow> Some (dnp r, r)) \<and>
    (\<forall>r rs. cands c (rr_offsets_from P rp) = r # rs \<longrightarrow> (\<exists>os. rr_offsets_from P (dnp r) = dnp r # os \<and>
       dnp r < pend P \<and> cands c os = rs \<and> scans_on junk i P c os))"
proof (induction "pend P - rp" arbitrary: rp rule: less_induct)
  case less
  show ?case
  proof (cases "rp < pend P")
    case False
    then have "start_body junk i P rp = Some (Inr None)" by (simp add: start_body_def)
    then show ?thesis using False by (simp add: loop_done offsets_end)
  next
    case True
    obtain j where j: "dns_rr_skip rp P = Some j" "rp < j" "rr_offsets_from P rp = rp # rr_offsets_from P j"
      using offsets_step [OF assms True] by blast
    have c: "candidate junk rp i P = Some (c rp)" "scans_on junk i P c (rr_offsets_from P j)"
      using less.prems j(3) by auto
    show ?thesis
    proof (cases "c rp")
      case None
      then have "start_body junk i P rp = Some (Inl j)" using c j True by (simp add: start_body_def)
      then show ?thesis using less.hyps [of j] True j c(2) None by (simp add: loop_next)
    next
      case (Some r)
      then have "dnp r = rp" using candidate_offset c(1) by simp
      moreover have "start_body junk i P rp = Some (Inr (Some (rp, r)))" using c Some True by (simp add: start_body_def)
      ultimately show ?thesis using j c Some True by (simp add: loop_done)
    qed
  qed
qed

lemma start_lower_loop:
  assumes "in_packet P" "sorts junk seed srt e P cmp R"
  shows "rr_offsets_from P rp = rp # os \<Longrightarrow> rp < pend P \<Longrightarrow> scans_on junk i P c os \<Longrightarrow> i_sort i = srt \<Longrightarrow> eff seed i = e \<Longrightarrow>
    r0 \<in> R \<Longrightarrow> set (cands c os) \<subseteq> R \<Longrightarrow>
    \<exists>j. loop (start_lower_body junk seed P) (rp, r0, i) = Some (foldl (pick cmp) r0 (cands c os), j) \<and> reseeded seed i j"
proof (induction os arbitrary: rp r0 i)
  case Nil
  obtain j where j: "dns_rr_skip rp P = Some j" "rr_offsets_from P j = []" "j \<le> pend P"
    using offsets_step [OF assms(1) Nil(2)] Nil(1) by auto
  then have "\<not> j < pend P" using offsets_step [OF assms(1), of j] by (metis list.distinct(1))
  then have "start_lower_body junk seed P (rp, r0, i) = Some (Inr (r0, i))" using j(1) by (simp add: start_lower_body_def)
  then show ?case by (auto simp: loop_done)
next
  case (Cons x os)
  obtain j where j: "dns_rr_skip rp P = Some j" "rr_offsets_from P j = x # os"
    using offsets_step [OF assms(1) Cons.prems(2)] Cons.prems(1) by auto
  then have "j < pend P" using offsets_end [of P j] by (cases "j < pend P") auto
  then have x: "x = j" using offsets_step [OF assms(1)] j(2) by fastforce
  have c: "candidate junk j i P = Some (c j)" "scans_on junk i P c os" using Cons.prems(3) x by auto
  show ?case
  proof (cases "c j")
    case None
    then have "start_lower_body junk seed P (rp, r0, i) = Some (Inl (j, r0, i))"
      using j(1) \<open>j < pend P\<close> c by (simp add: start_lower_body_def)
    then show ?thesis using Cons.IH [of j i r0] Cons.prems j(2) \<open>j < pend P\<close> c(2) None x by (simp add: loop_next)
  next
    case (Some r)
    then have r: "r \<in> R" "set (cands c os) \<subseteq> R" using Cons.prems(7) x by auto
    obtain k where k: "i_cmp junk seed r r0 i P = Some (cmp r r0, k)" "reseeded seed i k"
      using sortsD [OF assms(2) r(1) Cons.prems(6,4,5)] by blast
    then have "start_lower_body junk seed P (rp, r0, i) = Some (Inl (j, pick cmp r0 r, k))"
      using j(1) \<open>j < pend P\<close> c Some by (simp add: start_lower_body_def pick_def)
    moreover have "pick cmp r0 r \<in> R" using r Cons.prems(6) by (simp add: pick_def)
    ultimately show ?thesis
      using Cons.IH [of j k "pick cmp r0 r"] Cons.prems j(2) \<open>j < pend P\<close> c(2) Some x r k(2) reseeded_trans [OF k(2)]
      by (auto simp: loop_next reseeded_simps [OF k(2)] scans_reseeded [OF k(2)])
  qed
qed

lemma skip_loop:
  assumes "in_packet P" "sorts junk seed srt e P cmp R" "r0 \<in> R"
  shows "scans_on junk i P c (rr_offsets_from P rp) \<Longrightarrow> i_sort i = srt \<Longrightarrow> eff seed i = e \<Longrightarrow>
    set (cands c (rr_offsets_from P rp)) \<subseteq> R \<Longrightarrow>
    \<exists>j. loop (skip_body junk seed P r0) (rp, i) =
        Some (case beyond cmp r0 (cands c (rr_offsets_from P rp)) of [] \<Rightarrow> None | r # rs \<Rightarrow> Some (dnp r, r), j) \<and> reseeded seed i j \<and>
    (\<forall>r rs. beyond cmp r0 (cands c (rr_offsets_from P rp)) = r # rs \<longrightarrow> (\<exists>os. rr_offsets_from P (dnp r) = dnp r # os \<and>
       dnp r < pend P \<and> beyond cmp r0 (cands c os) = rs \<and> scans_on junk i P c os \<and> r \<in> R \<and> set (cands c os) \<subseteq> R))"
proof (induction "pend P - rp" arbitrary: rp i rule: less_induct)
  case less
  show ?case
  proof (cases "rp < pend P")
    case False
    then have "skip_body junk seed P r0 (rp, i) = Some (Inr (None, i))" by (simp add: skip_body_def)
    then show ?thesis using False by (auto simp: loop_done offsets_end beyond_def)
  next
    case True
    obtain j where j: "dns_rr_skip rp P = Some j" "rp < j" "rr_offsets_from P rp = rp # rr_offsets_from P j"
      using offsets_step [OF assms(1) True] by blast
    have c: "candidate junk rp i P = Some (c rp)" "scans_on junk i P c (rr_offsets_from P j)"
      using less.prems(1) j(3) by auto
    have "pend P - j < pend P - rp" using True j(2) by simp
    note ih = less.hyps [OF this]
    show ?thesis
    proof (cases "c rp")
      case None
      then have "skip_body junk seed P r0 (rp, i) = Some (Inl (j, i))" using c j True by (simp add: skip_body_def)
      then show ?thesis using ih [of i] True j c(2) None less.prems by (simp add: loop_next)
    next
      case (Some r)
      then have r: "dnp r = rp" "r \<in> R" "set (cands c (rr_offsets_from P j)) \<subseteq> R"
        using candidate_offset c(1) less.prems(4) j(3) by auto
      obtain k where k: "i_cmp junk seed r r0 i P = Some (cmp r r0, k)" "reseeded seed i k"
        using sortsD [OF assms(2) r(2) assms(3) less.prems(2,3)] by blast
      show ?thesis
      proof (cases "cmp r r0 \<le> 0")
        case le: True
        then have "skip_body junk seed P r0 (rp, i) = Some (Inl (j, k))"
          using c Some True k j by (simp add: skip_body_def)
        moreover have "beyond cmp r0 (cands c (rr_offsets_from P rp)) = beyond cmp r0 (cands c (rr_offsets_from P j))"
          using Some le j(3) by (simp add: beyond_def)
        ultimately show ?thesis
          using ih [of k] True j(2) c(2) r(3) less.prems(2,3) k(2) reseeded_trans [OF k(2)]
          by (simp add: loop_next reseeded_simps [OF k(2)] scans_reseeded [OF k(2)]) blast
      next
        case False
        then have "skip_body junk seed P r0 (rp, i) = Some (Inr (Some (rp, r), k))"
          using c Some True k by (simp add: skip_body_def)
        moreover have "beyond cmp r0 (cands c (rr_offsets_from P rp)) = r # beyond cmp r0 (cands c (rr_offsets_from P j))"
          using Some False j(3) by (simp add: beyond_def)
        ultimately show ?thesis using j(3) c(2) r True k(2) by (simp add: loop_done)
      qed
    qed
  qed
qed

lemma skip_lower_loop:
  assumes "in_packet P" "sorts junk seed srt e P cmp R" "r0 \<in> R"
  shows "rr_offsets_from P rp = rp # os \<Longrightarrow> rp < pend P \<Longrightarrow> scans_on junk i P c os \<Longrightarrow> i_sort i = srt \<Longrightarrow> eff seed i = e \<Longrightarrow>
    r1 \<in> R \<Longrightarrow> set (cands c os) \<subseteq> R \<Longrightarrow>
    \<exists>j. loop (skip_lower_body junk seed P r0) (rp, r1, i) = Some (foldl (pick cmp) r1 (beyond cmp r0 (cands c os)), j) \<and> reseeded seed i j"
proof (induction os arbitrary: rp r1 i)
  case Nil
  obtain j where j: "dns_rr_skip rp P = Some j" "rr_offsets_from P j = []" "j \<le> pend P"
    using offsets_step [OF assms(1) Nil(2)] Nil(1) by auto
  then have "\<not> j < pend P" using offsets_step [OF assms(1), of j] by (metis list.distinct(1))
  then have "skip_lower_body junk seed P r0 (rp, r1, i) = Some (Inr (r1, i))" using j(1) by (simp add: skip_lower_body_def)
  then show ?case by (auto simp: loop_done beyond_def)
next
  case (Cons x os)
  obtain j where j: "dns_rr_skip rp P = Some j" "rr_offsets_from P j = x # os"
    using offsets_step [OF assms(1) Cons.prems(2)] Cons.prems(1) by auto
  then have "j < pend P" using offsets_end [of P j] by (cases "j < pend P") auto
  then have x: "x = j" using offsets_step [OF assms(1)] j(2) by fastforce
  have c: "candidate junk j i P = Some (c j)" "scans_on junk i P c os" using Cons.prems(3) x by auto
  note ih = Cons.IH [OF j(2) [unfolded x] \<open>j < pend P\<close>]
  show ?case
  proof (cases "c j")
    case None
    then have "skip_lower_body junk seed P r0 (rp, r1, i) = Some (Inl (j, r1, i))"
      using j(1) \<open>j < pend P\<close> c by (simp add: skip_lower_body_def)
    then show ?thesis using ih [OF c(2) Cons.prems(4-6)] Cons.prems(7) None x by (simp add: loop_next)
  next
    case (Some r)
    then have r: "r \<in> R" "set (cands c os) \<subseteq> R" using Cons.prems(7) x by auto
    obtain k where k: "i_cmp junk seed r r0 i P = Some (cmp r r0, k)" "reseeded seed i k"
      using sortsD [OF assms(2) r(1) assms(3) Cons.prems(4,5)] by blast
    note ks = reseeded_simps [OF k(2)] scans_reseeded [OF k(2)]
    obtain l where l: "i_cmp junk seed r r1 k P = Some (cmp r r1, l)" "reseeded seed k l"
      using sortsD [OF assms(2) r(1) Cons.prems(6), of k] ks Cons.prems(4,5) by auto
    note il = reseeded_trans [OF k(2) l(2)]
    have p: "pick cmp r1 r \<in> R" using r Cons.prems(6) by (simp add: pick_def)
    show ?thesis
    proof (cases "cmp r r0 \<le> 0")
      case True
      then have "skip_lower_body junk seed P r0 (rp, r1, i) = Some (Inl (j, r1, k))"
        using j(1) \<open>j < pend P\<close> c Some k(1) by (simp add: skip_lower_body_def)
      then show ?thesis
        using ih [of k r1] c(2) Cons.prems(4-6) r(2) ks True Some x reseeded_trans [OF k(2)]
        by (auto simp: loop_next beyond_def)
    next
      case False
      then have "skip_lower_body junk seed P r0 (rp, r1, i) = Some (Inl (j, pick cmp r1 r, l))"
        using j(1) \<open>j < pend P\<close> c Some k(1) l(1) by (simp add: skip_lower_body_def pick_def)
      then show ?thesis
        using ih [of l "pick cmp r1 r"] c(2) Cons.prems(4,5) p r(2) reseeded_simps [OF il] scans_reseeded [OF il] False Some x reseeded_trans [OF il]
        by (auto simp: loop_next beyond_def)
    qed
  qed
qed

section \<open>Start and skip\<close>

lemma cands_offset: "scans_on junk i P c os \<Longrightarrow> r \<in> set (cands c os) \<Longrightarrow> dnp r \<in> set os \<and> rr_at (dnp r) P = Some (Some r)"
  using candidate_offset by (fastforce simp: scans_on_def cands_set)

lemma cands_sorted:
  "scans_on junk i P c os \<Longrightarrow> sorted_wrt (<) os \<Longrightarrow> sorted_wrt (\<lambda>a b. dnp a < dnp b) (cands c os)"
proof (induction os)
  case (Cons x os)
  have "\<forall>b \<in> set (cands c os). x < dnp b" using cands_offset [of junk i P c os] Cons.prems by auto
  moreover have "c x = Some r \<Longrightarrow> dnp r = x" for r using candidate_offset Cons.prems(1) by auto
  ultimately show ?case using Cons by (auto split: option.split)
qed simp

lemma first_packet: "sorted_wrt (\<lambda>a b. dnp a < dnp b) (r # rs) \<Longrightarrow> foldl (pick dns_rr_i_packet) r rs = r"
  by (induction rs) (auto simp: pick_def dns_rr_i_packet_def)

text \<open>\<open>iterates\<close>: the tests and the comparison of the iterator return at the records of the packet;
  \<open>M\<close> is the list of its candidates.\<close>

definition iterates :: "(nat \<Rightarrow> nat) \<Rightarrow> u32 \<Rightarrow> dns_rr_i \<Rightarrow> dns_packet \<Rightarrow> (dns_rr \<Rightarrow> dns_rr \<Rightarrow> int) \<Rightarrow> dns_rr list \<Rightarrow> bool" where
  "iterates junk seed i P cmp M \<longleftrightarrow> (\<exists>c. scans_on junk i P c (rr_offsets P) \<and> M = cands c (rr_offsets P)) \<and>
     sorts junk seed (i_sort i) (eff seed i) P cmp (set M) \<and> (i_sort i = Sort_packet \<longrightarrow> cmp = dns_rr_i_packet)"

lemma iterates_state:
  assumes "iterates junk seed i P cmp M" "j = i\<lparr>i_state := st\<rparr>" "eff seed j = eff seed i"
  shows "iterates junk seed j P cmp M"
  using assms by (auto simp: iterates_def scans_on_def)

lemma start_spec:
  assumes "in_packet P" "iterates junk seed i P cmp M"
  shows "\<exists>j. dns_rr_i_start junk seed i P = Some (case first cmp M of None \<Rightarrow> pend P | Some r \<Rightarrow> dnp r, j) \<and> reseeded seed i j"
proof -
  obtain c where c: "scans_on junk i P c (rr_offsets_from P 12)" "M = cands c (rr_offsets_from P 12)"
    and srt: "sorts junk seed (i_sort i) (eff seed i) P cmp (set M)" "i_sort i = Sort_packet \<longrightarrow> cmp = dns_rr_i_packet"
    using assms(2) by (auto simp: iterates_def rr_offsets_def)
  have up: "u16 (pend P) = pend P" using assms(1) by (simp add: in_packet_def)
  note l = start_loop [OF assms(1) c(1)]
  show ?thesis
  proof (cases M)
    case Nil
    then show ?thesis using l c(2) up by (auto simp: dns_rr_i_start_def)
  next
    case (Cons r rs)
    then obtain os where os: "loop (start_body junk i P) 12 = Some (Some (dnp r, r))" "rr_offsets_from P (dnp r) = dnp r # os"
      "dnp r < pend P" "cands c os = rs" "scans_on junk i P c os"
      using l c(2) by auto
    show ?thesis
    proof (cases "i_sort i = Sort_packet")
      case True
      have "sorted_wrt (\<lambda>a b. dnp a < dnp b) (r # rs)"
        using cands_sorted [OF c(1) offsets_sorted] c(2) Cons by simp
      then show ?thesis using True os(1) srt(2) Cons by (auto simp: dns_rr_i_start_def dns_rr_offset_def first_packet)
    next
      case False
      obtain j where "loop (start_lower_body junk seed P) (dnp r, r, i) = Some (foldl (pick cmp) r rs, j)" "reseeded seed i j"
        using start_lower_loop [OF assms(1) srt(1) os(2,3,5)] os(4) Cons by auto
      then show ?thesis using False os(1) Cons by (auto simp: dns_rr_i_start_def dns_rr_offset_def)
    qed
  qed
qed

lemma beyond_packet:
  assumes "in_packet P" "scans_on junk i P c (rr_offsets P)" "r0 \<in> set (cands c (rr_offsets P))"
  shows "\<exists>n. dns_rr_skip (dnp r0) P = Some n \<and> scans_on junk i P c (rr_offsets_from P n) \<and>
    set (rr_offsets_from P n) \<subseteq> set (rr_offsets P) \<and>
    beyond dns_rr_i_packet r0 (cands c (rr_offsets_from P n)) = beyond dns_rr_i_packet r0 (cands c (rr_offsets P))"
proof -
  have x: "dnp r0 \<in> set (rr_offsets_from P 12)" using cands_offset [OF assms(2,3)] by (simp add: rr_offsets_def)
  then obtain pre where pre: "rr_offsets P = pre @ rr_offsets_from P (dnp r0)"
    using offsets_split by (metis rr_offsets_def)
  have "dnp r0 < pend P" using offsets_less [OF x] by simp
  then obtain n where n: "dns_rr_skip (dnp r0) P = Some n" "rr_offsets_from P (dnp r0) = dnp r0 # rr_offsets_from P n"
    using offsets_step [OF assms(1)] by blast
  define pre' where "pre' = pre @ [dnp r0]"
  have eq: "rr_offsets P = pre' @ rr_offsets_from P n" using pre n(2) by (simp add: pre'_def)
  have sc: "scans_on junk i P c pre'" "scans_on junk i P c (rr_offsets_from P n)"
    using assms(2) unfolding eq by (simp_all add: scans_on_def)
  have "\<forall>y \<in> set pre'. y \<le> dnp r0"
    using offsets_sorted [of P 12] pre n(2) by (auto simp: pre'_def rr_offsets_def sorted_wrt_append less_imp_le)
  then have "beyond dns_rr_i_packet r0 (cands c pre') = []"
    using cands_offset [OF sc(1)] by (force simp: beyond_def dns_rr_i_packet_def filter_empty_conv)
  then have "beyond dns_rr_i_packet r0 (cands c (rr_offsets P)) = beyond dns_rr_i_packet r0 (cands c (rr_offsets_from P n))"
    unfolding eq by (simp add: beyond_def)
  then show ?thesis using n(1) sc(2) eq by auto
qed

lemma skip_spec:
  assumes "in_packet P" "iterates junk seed i P cmp M" "r0 \<in> set M"
  shows "\<exists>j. dns_rr_i_skip junk seed (dnp r0) i P =
      Some (case first cmp (beyond cmp r0 M) of None \<Rightarrow> pend P | Some r \<Rightarrow> dnp r, j) \<and> reseeded seed i j"
proof -
  obtain c where c: "scans_on junk i P c (rr_offsets P)" "M = cands c (rr_offsets P)"
    and srt: "sorts junk seed (i_sort i) (eff seed i) P cmp (set M)" "i_sort i = Sort_packet \<longrightarrow> cmp = dns_rr_i_packet"
    using assms(2) by (auto simp: iterates_def)
  have up: "u16 (pend P) = pend P" using assms(1) by (simp add: in_packet_def)
  have at: "rr_at (dnp r0) P = Some (Some r0)" using cands_offset [OF c(1)] c(2) assms(3) by simp
  have "\<exists>n. (if i_sort i = Sort_packet then dns_rr_skip (dnp r0) P else Some 12) = Some n \<and>
    scans_on junk i P c (rr_offsets_from P n) \<and> set (rr_offsets_from P n) \<subseteq> set (rr_offsets P) \<and>
    beyond cmp r0 (cands c (rr_offsets_from P n)) = beyond cmp r0 M"
    using beyond_packet [OF assms(1) c(1), of r0] c assms(3) srt(2)
    by (cases "i_sort i = Sort_packet") (simp_all add: rr_offsets_def)
  then obtain n where n: "(if i_sort i = Sort_packet then dns_rr_skip (dnp r0) P else Some 12) = Some n"
    "scans_on junk i P c (rr_offsets_from P n)" "set (cands c (rr_offsets_from P n)) \<subseteq> set M"
    "beyond cmp r0 (cands c (rr_offsets_from P n)) = beyond cmp r0 M"
    unfolding c(2) by (auto simp: cands_set subset_iff)
  obtain j where j: "loop (skip_body junk seed P r0) (n, i) =
      Some (case beyond cmp r0 M of [] \<Rightarrow> None | r # rs \<Rightarrow> Some (dnp r, r), j)" "reseeded seed i j"
    "\<forall>r rs. beyond cmp r0 M = r # rs \<longrightarrow> (\<exists>os. rr_offsets_from P (dnp r) = dnp r # os \<and>
       dnp r < pend P \<and> beyond cmp r0 (cands c os) = rs \<and> scans_on junk i P c os \<and> r \<in> set M \<and> set (cands c os) \<subseteq> set M)"
    using skip_loop [OF assms(1) srt(1) assms(3) n(2) refl refl n(3)] unfolding n(4) by blast
  have eq: "dns_rr_i_skip junk seed (dnp r0) i P = (case beyond cmp r0 M of [] \<Rightarrow> Some (pend P, j)
      | r1 # rs \<Rightarrow> if i_sort j = Sort_packet then Some (dns_rr_offset r1, j)
          else do { (r1, i) \<leftarrow> loop (skip_lower_body junk seed P r0) (dnp r1, r1, j); Some (dns_rr_offset r1, i) })"
    using at j(1) n(1) up unfolding dns_rr_i_skip_def by (simp split: list.split)
  show ?thesis
  proof (cases "beyond cmp r0 M")
    case Nil
    then show ?thesis using eq j(2) by auto
  next
    case (Cons r1 rs)
    then obtain os where os: "rr_offsets_from P (dnp r1) = dnp r1 # os" "dnp r1 < pend P" "beyond cmp r0 (cands c os) = rs"
      "scans_on junk i P c os" "r1 \<in> set M" "set (cands c os) \<subseteq> set M"
      using j(3) by auto
    show ?thesis
    proof (cases "i_sort i = Sort_packet")
      case True
      have "sorted_wrt (\<lambda>a b. dnp a < dnp b) M"
        using cands_sorted [OF c(1)] offsets_sorted c(2) by (simp add: rr_offsets_def)
      then have "sorted_wrt (\<lambda>a b. dnp a < dnp b) (r1 # rs)"
        unfolding Cons [symmetric] beyond_def by (rule sorted_wrt_filter)
      then show ?thesis
        using eq Cons True j(2) srt(2) by (auto simp: reseeded_simps first_packet dns_rr_offset_def)
    next
      case False
      obtain k where k: "loop (skip_lower_body junk seed P r0) (dnp r1, r1, j) = Some (foldl (pick cmp) r1 rs, k)" "reseeded seed j k"
        using skip_lower_loop [OF assms(1) srt(1) assms(3) os(1,2), of j c r1] os(3-6) j(2)
        by (auto simp: reseeded_simps scans_reseeded)
      then show ?thesis using eq Cons False reseeded_trans [OF j(2)] by (auto simp: reseeded_simps [OF j(2)] dns_rr_offset_def)
    qed
  qed
qed

section \<open>Grep and foreach\<close>

text \<open>An iterator that has been started and will yield \<open>next\<close> (or stop, when there is none).\<close>

definition ready :: "(nat \<Rightarrow> nat) \<Rightarrow> u32 \<Rightarrow> dns_packet \<Rightarrow> (dns_rr \<Rightarrow> dns_rr \<Rightarrow> int) \<Rightarrow> dns_rr list \<Rightarrow> dns_rr option \<Rightarrow> dns_rr_i \<Rightarrow> bool" where
  "ready junk seed P cmp M nxt i \<longleftrightarrow> iterates junk seed i P cmp M \<and> i_exec (i_state i) = 1 \<and>
     i_next (i_state i) = (case nxt of None \<Rightarrow> pend P | Some r \<Rightarrow> dnp r)"

lemma iterates_reseeded: "iterates junk seed i P cmp M \<Longrightarrow> reseeded seed i j \<Longrightarrow> iterates junk seed j P cmp M"
  unfolding reseeded_def by (metis iterates_state)

lemma eff_state [simp]: "i_reg0 st = i_reg0 (i_state i) \<Longrightarrow> eff seed (i\<lparr>i_state := st\<rparr>) = eff seed i"
  by (simp add: eff_def)

lemma ready_next:
  assumes "iterates junk seed i P cmp M" "i_exec st = 1" "i_reg0 st = i_reg0 (i_state i)"
    "i_next st = (case nxt of None \<Rightarrow> pend P | Some r \<Rightarrow> dnp r)"
  shows "ready junk seed P cmp M nxt (i\<lparr>i_state := st\<rparr>)"
  using iterates_state [OF assms(1) refl, of st] assms by (simp add: ready_def)

lemma iterates_at:
  assumes "iterates junk seed i P cmp M" "r0 \<in> set M"
  shows "dnp r0 < pend P" "rr_at (dnp r0) P = Some (Some r0)"
proof -
  obtain c where c: "scans_on junk i P c (rr_offsets P)" "M = cands c (rr_offsets P)"
    using assms(1) by (auto simp: iterates_def)
  then show "dnp r0 < pend P" "rr_at (dnp r0) P = Some (Some r0)"
    using cands_offset [OF c(1)] offsets_less assms(2) by (auto simp: rr_offsets_def)
qed

lemma grep_yields:
  assumes "in_packet P" "ready junk seed P cmp M (Some r0) i" "r0 \<in> set M"
  shows "\<exists>j. dns_rr_grep junk seed 1 i P = Some (None, [r0], j) \<and> ready junk seed P cmp M (first cmp (beyond cmp r0 M)) j"
proof -
  have i: "iterates junk seed i P cmp M" "i_exec (i_state i) = 1" "i_next (i_state i) = dnp r0"
    using assms(2) by (simp_all add: ready_def)
  define i1 where "i1 = i\<lparr>i_state := (i_state i)\<lparr>i_count := u16 (i_count (i_state i) + 1)\<rparr>\<rparr>"
  have i1: "iterates junk seed i1 P cmp M" unfolding i1_def by (rule iterates_state [OF i(1) refl]) simp
  obtain j where j: "dns_rr_i_skip junk seed (dnp r0) i1 P =
      Some (case first cmp (beyond cmp r0 M) of None \<Rightarrow> pend P | Some r \<Rightarrow> dnp r, j)" "reseeded seed i1 j"
    using skip_spec [OF assms(1) i1 assms(3)] by blast
  define k where "k = j\<lparr>i_state := (i_state j)\<lparr>i_next := case first cmp (beyond cmp r0 M) of None \<Rightarrow> pend P | Some r \<Rightarrow> dnp r\<rparr>\<rparr>"
  have "i_exec (i_state j) = 1" using reseeded_simps [OF j(2)] i(2) by (simp add: i1_def)
  then have k: "ready junk seed P cmp M (first cmp (beyond cmp r0 M)) k"
    unfolding k_def by (intro ready_next iterates_reseeded [OF i1 j(2)]) simp_all
  have "grep_body junk seed 1 P ([], i) = Some (Inl ([r0], k))"
    using iterates_at [OF i(1) assms(3)] i(3) j(1)
    by (auto simp: grep_body_def rr_at_def i1_def k_def Let_def split: bind_splits sum.splits)
  moreover have "grep_body junk seed 1 P ([r0], k) = Some (Inr (None, [r0], k))"
    by (simp add: grep_body_def)
  ultimately have "loop (grep_body junk seed 1 P) ([], i) = Some (None, [r0], k)"
    by (simp add: loop_next loop_done)
  then show ?thesis using i(2) k by (auto simp: dns_rr_grep_def)
qed

lemma grep_stops:
  "ready junk seed P cmp M None i \<Longrightarrow> dns_rr_grep junk seed 1 i P = Some (None, [], i)"
  by (simp add: ready_def dns_rr_grep_def grep_body_def loop_done)

lemma foreach_stops:
  "ready junk seed P cmp M None i \<Longrightarrow> loop (foreach_body junk seed P) (seen, i) = Some seen"
  by (intro loop_done) (simp add: foreach_body_def grep_stops del: One_nat_def)

lemma foreach_loop:
  assumes "in_packet P" "rr_order cmp (set M)"
  shows "ready junk seed P cmp M (Some r0) i \<Longrightarrow> r0 \<in> set M \<Longrightarrow>
    \<exists>xs. loop (foreach_body junk seed P) (seen, i) = Some (seen @ r0 # xs) \<and> enumerates cmp (beyond cmp r0 M) xs"
proof (induction "length (beyond cmp r0 M)" arbitrary: r0 i seen rule: less_induct)
  case less
  obtain j where j: "dns_rr_grep junk seed 1 i P = Some (None, [r0], j)"
    "ready junk seed P cmp M (first cmp (beyond cmp r0 M)) j"
    using grep_yields [OF assms(1) less.prems] by blast
  then have step: "foreach_body junk seed P (seen, i) = Some (Inl (seen @ [r0], j))" by (simp add: foreach_body_def)
  show ?case
  proof (cases "first cmp (beyond cmp r0 M)")
    case None
    then have "loop (foreach_body junk seed P) (seen, i) = Some (seen @ r0 # [])"
      using j(2) foreach_stops loop_next [of "foreach_body junk seed P", OF step] by fastforce
    moreover have "enumerates cmp (beyond cmp r0 M) []"
      using None by (cases "beyond cmp r0 M") (auto simp: enumerates_def)
    ultimately show ?thesis by blast
  next
    case (Some r1)
    note r1 = rr_order.first_beyond [OF assms(2) subset_refl less.prems(2) Some]
    obtain xs where xs: "loop (foreach_body junk seed P) (seen @ [r0], j) = Some ((seen @ [r0]) @ r1 # xs)"
      "enumerates cmp (beyond cmp r1 M) xs"
      using less.hyps [OF r1(3) _ r1(1)] j(2) Some by metis
    have "loop (foreach_body junk seed P) (seen, i) = Some (seen @ r0 # r1 # xs)"
      using loop_next [of "foreach_body junk seed P", OF step] xs(1) by simp
    moreover have "enumerates cmp (beyond cmp r0 M) (r1 # xs)"
      by (rule rr_order.enumerates_step [OF assms(2) subset_refl less.prems(2) Some xs(2)])
    ultimately show ?thesis by blast
  qed
qed

lemma foreach_enumerates:
  assumes "in_packet P" "rr_order cmp (set M)" "iterates junk seed i P cmp M" "i_exec (i_state i) = 0" "i_sort i \<noteq> Sort_default"
  shows "\<exists>xs. dns_rr_foreach junk seed i P = Some xs \<and> enumerates cmp M xs"
proof -
  obtain j where j: "dns_rr_i_start junk seed i P = Some (case first cmp M of None \<Rightarrow> pend P | Some r \<Rightarrow> dnp r, j)" "reseeded seed i j"
    using start_spec [OF assms(1,3)] by blast
  define k where "k = j\<lparr>i_state := (i_state j)\<lparr>i_next := case first cmp M of None \<Rightarrow> pend P | Some r \<Rightarrow> dnp r, i_exec := 1\<rparr>\<rparr>"
  have k: "ready junk seed P cmp M (first cmp M) k"
    unfolding k_def by (intro ready_next iterates_reseeded [OF assms(3) j(2)]) simp_all
  have "dns_rr_grep junk seed 1 i P = dns_rr_grep junk seed 1 k P"
    using assms(4,5) j(1) by (simp add: dns_rr_grep_def k_def Let_def)
  then have "foreach_body junk seed P ([], i) = foreach_body junk seed P ([], k)" by (simp add: foreach_body_def)
  then have eq: "dns_rr_foreach junk seed i P = loop (foreach_body junk seed P) ([], k)"
    by (simp add: dns_rr_foreach_def loop.simps [of _ "([], i)"] loop.simps [of _ "([], k)"])
  show ?thesis
  proof (cases "first cmp M")
    case None
    then have "M = []" by (cases M) auto
    then show ?thesis using eq k None foreach_stops by (fastforce simp: enumerates_def)
  next
    case (Some r)
    then obtain r' rs where M: "M = r' # rs" by (cases M) auto
    then have "r \<in> set M" using rr_order.first_least [OF assms(2), of r' rs] Some by auto
    then obtain xs where "loop (foreach_body junk seed P) ([], k) = Some ([] @ r # xs)" "enumerates cmp (beyond cmp r M) xs"
      using foreach_loop [OF assms(1,2), of _ _ r k "[]"] k Some by metis
    then show ?thesis using eq rr_order.enumerates_start [OF assms(2) subset_refl Some] by auto
  qed
qed

section \<open>The records of a packet, in order and shuffled\<close>

definition packet_records :: "dns_packet \<Rightarrow> dns_rr list" where
  "packet_records P = cands (\<lambda>rp. case rr_at rp P of None \<Rightarrow> None | Some r \<Rightarrow> r) (rr_offsets P)"

definition wanted :: "nat \<Rightarrow> nat \<Rightarrow> nat \<Rightarrow> dns_rr \<Rightarrow> bool" where
  "wanted sec ty cl rr \<longleftrightarrow> (sec = 0 \<or> rsection rr AND sec \<noteq> 0) \<and> (ty = 0 \<or> rtype rr = ty \<or> ty = DNS_T_ALL) \<and>
     (cl = 0 \<or> rclass rr = cl \<or> cl = DNS_C_ANY)"

lemma rr_at_returns:
  assumes "in_packet P" "rp \<in> set (rr_offsets P)"
  shows "\<exists>r. rr_at rp P = Some r"
proof -
  obtain k where "k < length (rr_offsets_from P 12)" "rp = rr_offsets_from P 12 ! k"
    using assms(2) by (auto simp: in_set_conv_nth rr_offsets_def)
  then have "loop (index_body P rp) (12, 0) = Some k" using index_loop [OF assms(1), of k 12 rp 0] by simp
  then have "\<exists>s. dns_rr_section rp P = Some s" by (simp add: dns_rr_section_def)
  then show ?thesis using dns_rr_parse_total [OF assms(1), of rp] by (auto simp: rr_at_def split: sum.split)
qed

lemma plain_match:
  assumes "i_name i = None" "i_data i = None"
  shows "dns_rr_i_match junk rr i P = Some (wanted (i_section i) (i_type i) (i_class i) rr)"
  using assms by (simp add: dns_rr_i_match_def name_matches_def data_matches_def wanted_def)

lemma plain_scans:
  assumes "in_packet P" "i_name i = None" "i_data i = None"
  shows "\<exists>c. scans_on junk i P c (rr_offsets P) \<and>
    cands c (rr_offsets P) = filter (wanted (i_section i) (i_type i) (i_class i)) (packet_records P)"
proof -
  let ?w = "wanted (i_section i) (i_type i) (i_class i)"
  define f where "f rp = (case rr_at rp P of None \<Rightarrow> None | Some r \<Rightarrow> r)" for rp
  define c where "c rp = (case f rp of None \<Rightarrow> None | Some r \<Rightarrow> if ?w r then Some r else None)" for rp
  have "candidate junk rp i P = Some (c rp)" if "rp \<in> set (rr_offsets P)" for rp
    using rr_at_returns [OF assms(1) that]
    by (auto simp: candidate_def c_def f_def plain_match [OF assms(2,3)] split: option.split)
  moreover have "cands c os = filter ?w (cands f os)" for os
    by (induction os) (auto simp: c_def split: option.split)
  moreover have "packet_records P = cands f (rr_offsets P)" by (simp add: packet_records_def f_def [abs_def])
  ultimately show ?thesis by (intro exI [of _ c]) (simp add: scans_on_def)
qed

text \<open>The orders of the library as instances of the order interface.\<close>

interpretation packet_order: rr_order dns_rr_i_packet R for R
  by unfold_locales (auto simp: dns_rr_i_packet_def sgn_if)

definition shuffle_cmp :: "u32 \<Rightarrow> dns_rr \<Rightarrow> dns_rr \<Rightarrow> int" where
  "shuffle_cmp s a b =
     (if rsection a \<noteq> rsection b then int (rsection a) - int (rsection b)
      else int (shuffled (dnp a) s) - int (shuffled (dnp b) s))"

interpretation shuffle_order: rr_order "shuffle_cmp s" R for s R
  by unfold_locales (auto simp: shuffle_cmp_def sgn_if split: if_splits)

lemma shuffle_cmp_eq:
  assumes "dnp a < 65536" "dnp b < 65536" "shuffle_cmp s a b = 0"
  shows "dnp a = dnp b"
proof -
  have "dns_k_shuffle16 (word_of_nat (dnp a)) s = dns_k_shuffle16 (word_of_nat (dnp b)) s"
    using assms(3) by (simp add: shuffle_cmp_def shuffled_def word_uint_eq_iff split: if_splits)
  then have "(word_of_nat (dnp a) :: 16 word) = word_of_nat (dnp b)"
    by (rule injD [OF dns_k_shuffle16_inj])
  then have "unat (word_of_nat (dnp a) :: 16 word) = unat (word_of_nat (dnp b) :: 16 word)" by (rule arg_cong)
  then show ?thesis using assms(1,2) by (simp add: unat_of_nat)
qed

lemma sorts_packet: "sorts junk seed Sort_packet e P dns_rr_i_packet R"
  by (auto simp: sorts_def i_cmp_def)

lemma sorts_shuffle: "e \<noteq> 0 \<Longrightarrow> sorts junk seed Sort_shuffle e P (shuffle_cmp e) R"
  unfolding sorts_def i_cmp_def dns_rr_i_shuffle_def shuffle_cmp_def reseeded_def eff_def Let_def by auto

lemma enumerates_set:
  assumes "enumerates cmp M xs" "\<And>a b. a \<in> set M \<Longrightarrow> b \<in> set M \<Longrightarrow> cmp a b = 0 \<Longrightarrow> a = b"
  shows "set xs = set M"
proof
  show sub: "set xs \<subseteq> set M" using assms(1) by (simp add: enumerates_def)
  show "set M \<subseteq> set xs"
  proof
    fix x
    assume x: "x \<in> set M"
    then obtain y where y: "y \<in> set xs" "cmp x y = 0" using assms(1) unfolding enumerates_def by blast
    then have "x = y" using assms(2) [OF x] sub by blast
    then show "x \<in> set xs" using y(1) by simp
  qed
qed

lemma sorted_wrt_distinct: "sorted_wrt R xs \<Longrightarrow> (\<And>a. \<not> R a a) \<Longrightarrow> distinct xs"
  by (induction xs) auto

lemma enumerates_all:
  assumes "enumerates cmp M xs" "distinct M" "\<And>a b. a \<in> set M \<Longrightarrow> b \<in> set M \<Longrightarrow> cmp a b = 0 \<Longrightarrow> a = b"
    "\<And>a. cmp a a = 0"
  shows "mset xs = mset M"
proof -
  have "set xs = set M" by (rule enumerates_set [OF assms(1,3)])
  moreover have "distinct xs"
    using assms(1,4) by (intro sorted_wrt_distinct [of "\<lambda>a b. cmp a b < 0"]) (simp_all add: enumerates_def)
  ultimately show ?thesis using assms(2) by (simp add: set_eq_iff_mset_eq_distinct)
qed

lemma sorted_dnp:
  assumes "sorted_wrt (\<lambda>a b. dnp a < dnp b) xs"
  shows "distinct xs" "inj_on dnp (set xs)"
proof -
  show "distinct xs" using assms by (rule sorted_wrt_distinct) simp
  show "inj_on dnp (set xs)"
    using assms
  proof (induction xs)
    case (Cons x xs)
    then show ?case by force
  qed simp
qed

lemma packet_records_distinct:
  assumes "in_packet P"
  shows "sorted_wrt (\<lambda>a b. dnp a < dnp b) (packet_records P)" "distinct (packet_records P)"
    "\<And>r. r \<in> set (packet_records P) \<Longrightarrow> dnp r < 65536"
proof -
  let ?i = "dns_rr_i_new 0 None 0 0 None Sort_packet"
  have w: "wanted 0 0 0 r" for r by (simp add: wanted_def)
  obtain c where c: "scans_on (\<lambda>_. 0) ?i P c (rr_offsets P)" "cands c (rr_offsets P) = packet_records P"
    using plain_scans [OF assms, of ?i] w by (auto simp: dns_rr_i_new_def dns_rr_i_init_def Let_def)
  show srt: "sorted_wrt (\<lambda>a b. dnp a < dnp b) (packet_records P)"
    using cands_sorted [OF c(1)] offsets_sorted c(2) by (simp add: rr_offsets_def)
  then show "distinct (packet_records P)" by (rule sorted_dnp)
  show "dnp r < 65536" if "r \<in> set (packet_records P)" for r
  proof -
    have "dnp r \<in> set (rr_offsets_from P 12)" using cands_offset [OF c(1)] c(2) that by (simp add: rr_offsets_def)
    then show ?thesis using offsets_less [of "dnp r" P 12] assms by (simp add: in_packet_def)
  qed
qed

lemma plain_foreach:
  assumes "in_packet P" "rr_order cmp (set M)" "i = dns_rr_i_new sec None ty cl None srt" "srt \<noteq> Sort_default"
    "M = filter (wanted sec ty cl) (packet_records P)" "\<And>R. sorts junk seed srt seed P cmp R"
    "srt = Sort_packet \<longrightarrow> cmp = dns_rr_i_packet"
  shows "\<exists>xs. dns_rr_foreach junk seed i P = Some xs \<and> enumerates cmp M xs"
proof -
  have i: "i_name i = None" "i_data i = None" "i_section i = sec" "i_type i = ty" "i_class i = cl" "i_sort i = srt"
    "i_exec (i_state i) = 0" "eff seed i = seed"
    by (simp_all add: assms(3) dns_rr_i_new_def dns_rr_i_init_def Let_def eff_def)
  have "iterates junk seed i P cmp M"
    using plain_scans [OF assms(1) i(1,2), of junk] assms(5-7) i by (auto simp: iterates_def)
  then show ?thesis using foreach_enumerates [OF assms(1,2)] i assms(4) by blast
qed

lemma foreach_default:
  "dns_rr_foreach junk seed (dns_rr_i_new sec nm ty cl dat Sort_default) P =
   dns_rr_foreach junk seed (dns_rr_i_new sec nm ty cl dat Sort_packet) P"
proof -
  have "dns_rr_grep junk seed 1 (dns_rr_i_new sec nm ty cl dat Sort_default) P =
      dns_rr_grep junk seed 1 (dns_rr_i_new sec nm ty cl dat Sort_packet) P"
    by (simp add: dns_rr_grep_def dns_rr_i_new_def dns_rr_i_init_def Let_def)
  then show ?thesis
    unfolding dns_rr_foreach_def
    by (subst (1 2) loop.simps) (simp add: foreach_body_def del: One_nat_def)
qed

lemma foreach_packet:
  assumes "in_packet P"
  shows "dns_rr_foreach junk seed (dns_rr_i_new sec None ty cl None Sort_default) P =
    Some (filter (wanted sec ty cl) (packet_records P))"
proof -
  let ?M = "filter (wanted sec ty cl) (packet_records P)"
  obtain xs where xs: "dns_rr_foreach junk seed (dns_rr_i_new sec None ty cl None Sort_packet) P = Some xs"
    "enumerates dns_rr_i_packet ?M xs"
    using plain_foreach [OF assms packet_order.rr_order_axioms refl _ refl sorts_packet] by blast
  have srt: "sorted_wrt (\<lambda>a b. dnp a < dnp b) ?M" using packet_records_distinct(1) [OF assms] by (rule sorted_wrt_filter)
  have inj: "inj_on dnp (set ?M)"
    using srt by (rule sorted_dnp)
  have sets: "set xs = set ?M"
    by (rule enumerates_set [OF xs(2)]) (auto simp: dns_rr_i_packet_def dest: inj_onD [OF inj])
  moreover have "sorted_wrt (\<lambda>a b. dnp a < dnp b) xs" using xs(2) by (simp add: enumerates_def dns_rr_i_packet_def)
  ultimately have "map dnp xs = map dnp ?M"
    using srt by (intro strict_sorted_equal) (simp_all only: sorted_wrt_map set_map)
  then have "xs = ?M" using inj sets by (intro map_inj_on [of dnp]) simp_all
  then show ?thesis using xs(1) foreach_default by metis
qed

text \<open>C5: In a well-formed packet, \<open>dns_rr_foreach\<close> with a section mask, a type and a class
  (0 for any) returns and visits exactly the records of the packet that parse and are wanted, each
  once and in the order of the packet.\<close>

theorem dns_rr_foreach_packet:
  assumes "packet_ok P"
  shows "dns_rr_foreach junk seed (dns_rr_i_new sec None ty cl None Sort_default) P =
    Some (filter (wanted sec ty cl) (packet_records P))"
  using assms by (intro foreach_packet) auto

theorem dns_rr_foreach_packet_witness:
  "packet_ok (packet_of [0, 0, 1, 0, 1]) \<and>
   dns_rr_foreach (\<lambda>_. 0) 7 (dns_rr_i_new DNS_S_AN None 0 0 None Sort_default) (packet_of [0, 0, 1, 0, 1]) =
     Some (filter (wanted DNS_S_AN 0 0) (packet_records (packet_of [0, 0, 1, 0, 1])))"
  using dns_rr_foreach_packet [of "packet_of [0, 0, 1, 0, 1]"] packet_of_ok [of "[0, 0, 1, 0, 1]"] by simp

text \<open>C13: Iterating with \<open>dns_rr_i_shuffle\<close> returns and visits every wanted record exactly once:
  the result is a permutation of the wanted records, section by section.\<close>

theorem dns_rr_foreach_shuffle:
  assumes "packet_ok P" and "seed \<noteq> 0"
  shows "\<exists>xs. dns_rr_foreach junk seed (dns_rr_i_new sec None ty cl None Sort_shuffle) P = Some xs \<and>
    mset xs = mset (filter (wanted sec ty cl) (packet_records P)) \<and> sorted (map rsection xs)"
proof -
  let ?M = "filter (wanted sec ty cl) (packet_records P)"
  have P: "in_packet P" using assms(1) by auto
  obtain xs where xs: "dns_rr_foreach junk seed (dns_rr_i_new sec None ty cl None Sort_shuffle) P = Some xs"
    "enumerates (shuffle_cmp seed) ?M xs"
    using plain_foreach [OF P shuffle_order.rr_order_axioms refl _ refl sorts_shuffle [OF assms(2)]] by blast
  note recs = packet_records_distinct [OF P]
  have "a = b" if "a \<in> set ?M" "b \<in> set ?M" "shuffle_cmp seed a b = 0" for a b
    using shuffle_cmp_eq [OF _ _ that(3)] recs(3) that(1,2) inj_onD [OF sorted_dnp(2) [OF recs(1)]] by simp
  then have "mset xs = mset ?M"
    using recs(2) by (intro enumerates_all [OF xs(2)]) (simp_all add: shuffle_cmp_def)
  moreover have "sorted_wrt (\<lambda>a b. rsection a \<le> rsection b) xs"
    using xs(2) sorted_wrt_mono_rel [of xs "\<lambda>a b. shuffle_cmp seed a b < 0" "\<lambda>a b. rsection a \<le> rsection b"]
    by (simp add: enumerates_def shuffle_cmp_def split: if_splits)
  ultimately show ?thesis using xs(1) by (simp add: sorted_map)
qed

theorem dns_rr_foreach_shuffle_witness:
  "packet_ok (packet_of [0, 0, 1, 0, 1]) \<and> (9 :: u32) \<noteq> 0 \<and>
   (\<exists>xs. dns_rr_foreach (\<lambda>_. 0) 9 (dns_rr_i_new 0 None 0 0 None Sort_shuffle) (packet_of [0, 0, 1, 0, 1]) = Some xs \<and>
      mset xs = mset (filter (wanted 0 0 0) (packet_records (packet_of [0, 0, 1, 0, 1]))))"
  using dns_rr_foreach_shuffle [of "packet_of [0, 0, 1, 0, 1]" 9 "\<lambda>_. 0" 0 0 0] packet_of_ok [of "[0, 0, 1, 0, 1]"] by auto

section \<open>Records of several types in \<open>dns_rr_i_order\<close>\<close>

text \<open>
  \<open>dns_rr_i_order\<close> compares records of one type by their data and records of two types by
  their offsets. Three records \<open>a\<close>, \<open>b\<close>, \<open>c\<close> of a section, in this order, where
  \<open>a\<close> and \<open>c\<close> have one type and \<open>c\<close> the smaller data, and \<open>b\<close> another type, are
  then in a cycle, and the iteration visits them for ever.
\<close>

lemma foreach_cycle:
  assumes "in_packet P" "iterates junk seed i P cmp [a, b, c]" "i_exec (i_state i) = 0" "i_sort i \<noteq> Sort_default"
    and "cmp a b < 0" "cmp b c < 0" "cmp c a < 0" "0 < cmp b a" "0 < cmp c b" "0 < cmp a c"
    and "cmp a a = 0" "cmp b b = 0" "cmp c c = 0"
  shows "dns_rr_foreach junk seed i P = None"
proof -
  let ?M = "[a, b, c]"
  note c = assms(5-)
  have nxt: "first cmp ?M = Some c" "first cmp (beyond cmp a ?M) = Some b" "first cmp (beyond cmp b ?M) = Some c"
    "first cmp (beyond cmp c ?M) = Some a"
    using c by (simp_all add: pick_def beyond_def)
  obtain j where j: "dns_rr_i_start junk seed i P = Some (dnp c, j)" "reseeded seed i j"
    using start_spec [OF assms(1,2)] nxt(1) by auto
  define k where "k = j\<lparr>i_state := (i_state j)\<lparr>i_next := dnp c, i_exec := 1\<rparr>\<rparr>"
  have k: "ready junk seed P cmp ?M (Some c) k"
    unfolding k_def by (intro ready_next iterates_reseeded [OF assms(2) j(2)]) simp_all
  have "dns_rr_grep junk seed 1 i P = dns_rr_grep junk seed 1 k P"
    using assms(3,4) j(1) by (simp add: dns_rr_grep_def k_def Let_def)
  then have "foreach_body junk seed P ([], i) = foreach_body junk seed P ([], k)" by (simp add: foreach_body_def)
  then have eq: "dns_rr_foreach junk seed i P = loop (foreach_body junk seed P) ([], k)"
    by (simp add: dns_rr_foreach_def loop.simps [of _ "([], i)"] loop.simps [of _ "([], k)"])
  define I where "I = (\<lambda>(seen :: dns_rr list, i). \<exists>r \<in> set ?M. ready junk seed P cmp ?M (Some r) i)"
  have "I ([], k)" using k by (auto simp: I_def)
  moreover have "\<exists>s'. foreach_body junk seed P s = Some (Inl s') \<and> I s'" if I: "I s" for s
  proof -
    obtain seen i' r where s: "s = (seen, i')" "r \<in> set ?M" "ready junk seed P cmp ?M (Some r) i'"
      using I by (auto simp: I_def)
    obtain j' where j': "dns_rr_grep junk seed 1 i' P = Some (None, [r], j')" "ready junk seed P cmp ?M (first cmp (beyond cmp r ?M)) j'"
      using grep_yields [OF assms(1) s(3,2)] by blast
    moreover have "\<exists>r' \<in> set ?M. first cmp (beyond cmp r ?M) = Some r'" using s(2) nxt by auto
    ultimately show ?thesis using s(1) by (auto simp: foreach_body_def I_def simp del: One_nat_def)
  qed
  ultimately have "loop (foreach_body junk seed P) ([], k) = None" by (rule loop_diverges)
  then show ?thesis using eq by simp
qed

end
