(* ===== verification/Dns_Push.thy ===== *)
theory Dns_Push
  imports Dns_Writers Dns_Iter
begin

unbundle bit_operations_syntax

text \<open>
  Whole records: \<open>dns_p_push\<close> appends a record to a section of a packet, \<open>dns_rr_copy\<close>
  copies one from another packet, \<open>dns_p_merge\<close> merges two packets, \<open>dns_d_cname\<close> follows
  a chain of aliases. The contract of \<open>dns_p_push\<close> rests on the \<open>writer\<close> interface of the
  record data and of names.
\<close>

section \<open>Pushing a record\<close>

definition memo_at :: "nat \<Rightarrow> dns_s_memo" where
  "memo_at e = \<lparr>base = e, mend = e\<rparr>"

definition study_if :: "bool \<Rightarrow> dns_packet \<Rightarrow> dns_packet option" where
  "study_if b P = (if b then dns_p_study P else Some P)"

definition count_up :: "nat \<Rightarrow> dns_packet \<Rightarrow> dns_packet" where
  "count_up k P = set_hdr16 k (u16 (hdr16 P k + 1)) P"

definition push_update :: "nat \<Rightarrow> dns_packet \<Rightarrow> (dns_error option \<times> dns_packet) option" where
  "push_update section P =
     (if section = DNS_S_QD then
        if dns_p_count P (DNS_S_AN OR DNS_S_NS OR DNS_S_AR) \<noteq> 0 then Some (Some DNS_EORDER, P)
        else do {
          P \<leftarrow> study_if (base (qd P) = 0) P;
          let P = count_up 4 P;
          let e = pend P;
          Some (None, P\<lparr>qd := (qd P)\<lparr>mend := e\<rparr>, an := memo_at e, ns := memo_at e, ar := memo_at e\<rparr>)
        }
      else if section = DNS_S_AN then
        if dns_p_count P (DNS_S_NS OR DNS_S_AR) \<noteq> 0 then Some (Some DNS_EORDER, P)
        else do {
          P \<leftarrow> study_if (base (an P) = 0) P;
          let P = count_up 6 P;
          let e = pend P;
          Some (None, P\<lparr>an := (an P)\<lparr>mend := e\<rparr>, ns := memo_at e, ar := memo_at e\<rparr>)
        }
      else if section = DNS_S_NS then
        if dns_p_count P DNS_S_AR \<noteq> 0 then Some (Some DNS_EORDER, P)
        else do {
          P \<leftarrow> study_if (base (ns P) = 0) P;
          let P = count_up 8 P;
          let e = pend P;
          Some (None, P\<lparr>ns := (ns P)\<lparr>mend := e\<rparr>, ar := memo_at e\<rparr>)
        }
      else if section = DNS_S_AR then do {
        P \<leftarrow> study_if (base (ar P) = 0) P;
        let P = count_up 10 P;
        Some (None, P\<lparr>ar := (ar P)\<lparr>mend := pend P\<rparr>\<rparr>)
      }
      else Some (Some DNS_ESECTION, P))"

definition restore_end :: "nat \<Rightarrow> dns_error option \<times> dns_packet \<Rightarrow> dns_error option \<times> dns_packet" where
  "restore_end e0 = (\<lambda>(err, P). (err, if err = None then P else P\<lparr>pend := e0\<rparr>))"

definition dns_p_push :: "dns_packet \<Rightarrow> nat \<Rightarrow> bytes \<Rightarrow> nat \<Rightarrow> nat \<Rightarrow> nat \<Rightarrow> dns_any
    \<Rightarrow> (dns_error option \<times> dns_packet) option" where
  "dns_p_push P section dn type class ttl any = do {
     let restore = restore_end (pend P);
     (err, P) \<leftarrow> dns_d_push P dn;
     if err \<noteq> None then Some (restore (err, P))
     else if room P < 4 then Some (restore (Some DNS_ENOBUFS, P))
     else do {
       P \<leftarrow> push_bytes (bytes16 type @ bytes16 class) P;
       if section = DNS_S_QD then map_option restore (push_update section P)
       else if room P < 6 then Some (restore (Some DNS_ENOBUFS, P))
       else do {
         P \<leftarrow> push_bytes [0x7f AND byte (ttl div 16777216), byte (ttl div 65536), byte (ttl div 256), byte ttl] P;
         (err, P) \<leftarrow> dns_any_push P any type;
         if err \<noteq> None then Some (restore (err, P))
         else map_option restore (push_update section P)
       }
     }
   }"

section \<open>Copying and merging\<close>

text \<open>The size that \<open>dns_any_init\<close> gives to the buffer of the union.\<close>
abbreviation (input) any_size :: nat where "any_size \<equiv> 1024"

definition dns_rr_copy :: "dns_packet \<Rightarrow> dns_rr \<Rightarrow> dns_packet \<Rightarrow> (dns_error option \<times> dns_packet) option" where
  "dns_rr_copy P rr Q = do {
     (err, len, dn) \<leftarrow> dns_d_expand (replicate 256 0) (dnp rr) Q;
     if err \<noteq> None then Some (err, P)
     else if 256 \<le> len then Some (Some DNS_EILLEGAL, P)
     else if rsection rr \<noteq> DNS_S_QD then do {
       a \<leftarrow> dns_any_parse any_size rr Q;
       case a of
         Inl e \<Rightarrow> Some (Some e, P)
       | Inr any \<Rightarrow> dns_p_push P (rsection rr) (take len dn) (rtype rr) (rclass rr) (rttl rr) any
     }
     else dns_p_push P (rsection rr) (take len dn) (rtype rr) (rclass rr) (rttl rr) (Any_a 0)
   }"

fun copy_all :: "dns_packet \<Rightarrow> dns_packet \<Rightarrow> dns_rr list \<Rightarrow> (dns_error option \<times> dns_packet) option" where
  "copy_all A M [] = Some (None, M)"
| "copy_all A M (rr # rrs) = do {
     (err, M) \<leftarrow> dns_rr_copy M rr A;
     if err \<noteq> None then Some (err, M) else copy_all A M rrs
   }"

fun copy_new :: "(nat \<Rightarrow> nat) \<Rightarrow> u32 \<Rightarrow> dns_packet \<Rightarrow> dns_packet \<Rightarrow> dns_rr list
    \<Rightarrow> (dns_error option \<times> dns_packet) option" where
  "copy_new junk seed B M [] = Some (None, M)"
| "copy_new junk seed B M (rr # rrs) = do {
     mrs \<leftarrow> dns_rr_foreach junk seed (dns_rr_i_new DNS_S_ALL None (rtype rr) 0 None Sort_default) M;
     same \<leftarrow> any_equal junk rr B M mrs;
     (err, M) \<leftarrow> (if same then Some (None, M) else dns_rr_copy M rr B);
     if err \<noteq> None then Some (err, M) else copy_new junk seed B M rrs
   }"

definition section_records :: "(nat \<Rightarrow> nat) \<Rightarrow> u32 \<Rightarrow> nat \<Rightarrow> dns_packet \<Rightarrow> dns_rr list option" where
  "section_records junk seed section P =
     dns_rr_foreach junk seed (dns_rr_i_new section None 0 0 None Sort_default) P"

definition merge_section :: "(nat \<Rightarrow> nat) \<Rightarrow> u32 \<Rightarrow> dns_packet option \<Rightarrow> nat \<Rightarrow> dns_packet option \<Rightarrow> nat
    \<Rightarrow> nat \<Rightarrow> dns_packet \<Rightarrow> (dns_error option \<times> dns_packet) option" where
  "merge_section junk seed A Amask B Bmask section M = do {
     (err, M) \<leftarrow>
       (case A of
          Some A \<Rightarrow>
            if section AND Amask \<noteq> 0
            then do { rrs \<leftarrow> section_records junk seed section A; copy_all A M rrs }
            else Some (None, M)
        | None \<Rightarrow> Some (None, M));
     if err \<noteq> None then Some (err, M)
     else case B of
       Some B \<Rightarrow>
         if section AND Bmask \<noteq> 0
         then do { rrs \<leftarrow> section_records junk seed section B; copy_new junk seed B M rrs }
         else Some (None, M)
     | None \<Rightarrow> Some (None, M)
   }"

fun merge_sections :: "(nat \<Rightarrow> nat) \<Rightarrow> u32 \<Rightarrow> dns_packet option \<Rightarrow> nat \<Rightarrow> dns_packet option \<Rightarrow> nat
    \<Rightarrow> nat list \<Rightarrow> dns_packet \<Rightarrow> (dns_error option \<times> dns_packet) option" where
  "merge_sections junk seed A Amask B Bmask [] M = Some (None, M)"
| "merge_sections junk seed A Amask B Bmask (s # ss) M = do {
     (err, M) \<leftarrow> merge_section junk seed A Amask B Bmask s M;
     if err \<noteq> None then Some (err, M) else merge_sections junk seed A Amask B Bmask ss M
   }"

definition merge_body :: "(nat \<Rightarrow> nat + bytes) \<Rightarrow> (nat \<Rightarrow> nat) \<Rightarrow> u32 \<Rightarrow> dns_packet option \<Rightarrow> nat
    \<Rightarrow> dns_packet option \<Rightarrow> nat \<Rightarrow> nat \<Rightarrow> (nat + (dns_error + dns_packet)) option" where
  "merge_body malloc junk seed A Amask B Bmask bufsiz = do {
     made \<leftarrow> dns_p_make malloc bufsiz;
     res \<leftarrow>
       (case made of
          Inl e \<Rightarrow> Some (Inl e)
        | Inr M \<Rightarrow> do {
            (err, M) \<leftarrow> merge_sections junk seed A Amask B Bmask [DNS_S_QD, DNS_S_AN, DNS_S_NS, DNS_S_AR] M;
            Some (case err of Some e \<Rightarrow> Inl e | None \<Rightarrow> Inr M)
          });
     Some (if res = Inl DNS_ENOBUFS \<and> bufsiz < 65535 then Inl (min 65535 (bufsiz * 2)) else Inr res)
   }"

definition packet_end :: "dns_packet option \<Rightarrow> nat" where
  "packet_end P = (case P of None \<Rightarrow> 0 | Some P \<Rightarrow> pend P)"

definition dns_p_merge :: "(nat \<Rightarrow> nat + bytes) \<Rightarrow> (nat \<Rightarrow> nat) \<Rightarrow> u32 \<Rightarrow> dns_packet option \<Rightarrow> nat
    \<Rightarrow> dns_packet option \<Rightarrow> nat \<Rightarrow> (dns_error + dns_packet) option" where
  "dns_p_merge malloc junk seed A Amask B Bmask =
     (let bufsiz = min 65535 (packet_end A + packet_end B);
          (A, Amask, B) = (if A = None \<and> B \<noteq> None then (B, Bmask, None) else (A, Amask, B))
      in loop (merge_body malloc junk seed A Amask B Bmask) bufsiz)"

section \<open>Following aliases\<close>

text \<open>\<open>host\<close> is the buffer of 256 bytes that is also read as a \<open>struct dns_cname\<close>.\<close>

fun cname_loop :: "(nat \<Rightarrow> nat) \<Rightarrow> u32 \<Rightarrow> dns_packet \<Rightarrow> nat \<Rightarrow> bytes \<Rightarrow> (dns_error + bytes) option" where
  "cname_loop junk seed P 0 host = Some (Inr host)"
| "cname_loop junk seed P (Suc depth) host = do {
     let i = dns_rr_i_new (DNS_S_ALL - DNS_S_QD) (Some host) DNS_T_CNAME 0 None Sort_default;
     (err, rrs, i) \<leftarrow> dns_rr_grep junk seed 1 i P;
     (case rrs of
        [] \<Rightarrow> Some (Inr host)
      | rr # _ \<Rightarrow> do {
          c \<leftarrow> dns_cname_parse \<lparr>ns_host = host\<rparr> rr P;
          (case c of Inl e \<Rightarrow> Some (Inl e) | Inr c \<Rightarrow> cname_loop junk seed P depth (ns_host c))
        })
   }"

definition dns_d_cname :: "(nat \<Rightarrow> nat) \<Rightarrow> u32 \<Rightarrow> bytes \<Rightarrow> bytes \<Rightarrow> dns_packet
    \<Rightarrow> (dns_error + (nat \<times> bytes)) option" where
  "dns_d_cname junk seed dst dn P =
     (let (len, host) = dns_d_anchor (replicate 256 0) dn
      in if 256 \<le> len then Some (Inl (SYS 36))
         else do {
           r \<leftarrow> cname_loop junk seed P 7 host;
           (case r of
              Inl e \<Rightarrow> Some (Inl e)
            | Inr host \<Rightarrow> map_option Inr (dns_strlcpy dst host))
         })"

section \<open>The contract of dns\_p\_push\<close>

abbreviation (input) sections :: "nat set" where "sections \<equiv> {DNS_S_QD, DNS_S_AN, DNS_S_NS, DNS_S_AR}"

definition memo_of :: "nat \<Rightarrow> dns_packet \<Rightarrow> dns_s_memo" where
  "memo_of s P = (if s = DNS_S_QD then qd P else if s = DNS_S_AN then an P else if s = DNS_S_NS then ns P else ar P)"

definition later_count :: "dns_packet \<Rightarrow> nat \<Rightarrow> nat" where
  "later_count P s = (\<Sum>k \<in> {k \<in> sections. s < k}. dns_p_count P k)"

definition header_at :: "nat \<Rightarrow> nat" where
  "header_at s = (if s = DNS_S_QD then 4 else if s = DNS_S_AN then 6 else if s = DNS_S_NS then 8 else 10)"

definition pushed :: "nat \<Rightarrow> dns_packet \<Rightarrow> dns_packet \<Rightarrow> bool" where
  "pushed s P P' \<longleftrightarrow> packet_ok P' \<and> dict_fin {..<12} P' \<and> psize P' = psize P \<and> pend P < pend P' \<and>
     (\<forall>j. 12 \<le> j \<longrightarrow> j < pend P \<longrightarrow> data P' ! j = data P ! j) \<and>
     (\<forall>k \<in> sections. dns_p_count P' k = (if k = s then u16 (dns_p_count P k + 1) else dns_p_count P k)) \<and>
     mend (memo_of s P') = pend P' \<and> (\<forall>k \<in> sections. s < k \<longrightarrow> memo_of k P' = memo_at (pend P'))"

lemma dns_p_count_at: "s \<in> sections \<Longrightarrow> dns_p_count P s = hdr16 P (header_at s)"
  by (auto simp: dns_p_count_def header_at_def)

lemma dns_p_count_later:
  "dns_p_count P (DNS_S_AN OR DNS_S_NS OR DNS_S_AR) = later_count P DNS_S_QD"
  "dns_p_count P (DNS_S_NS OR DNS_S_AR) = later_count P DNS_S_AN"
  "dns_p_count P DNS_S_AR = later_count P DNS_S_NS"
proof -
  have "{k \<in> sections. DNS_S_QD < k} = {DNS_S_AN, DNS_S_NS, DNS_S_AR}"
    "{k \<in> sections. DNS_S_AN < k} = {DNS_S_NS, DNS_S_AR}" "{k \<in> sections. DNS_S_NS < k} = {DNS_S_AR}"
    by auto
  then show "dns_p_count P (DNS_S_AN OR DNS_S_NS OR DNS_S_AR) = later_count P DNS_S_QD"
    "dns_p_count P (DNS_S_NS OR DNS_S_AR) = later_count P DNS_S_AN"
    "dns_p_count P DNS_S_AR = later_count P DNS_S_NS"
    by (simp_all add: later_count_def dns_p_count_def)
qed

lemma hdr16_set_same:
  assumes "k + 1 < length (data P)"
  shows "hdr16 (set_hdr16 k n P) k = n mod 65536"
proof -
  have "unat (byte (n div 256)) = n div 256 mod 256" "unat (byte n) = n mod 256"
    by (simp_all add: byte_def unat_of_nat)
  then show ?thesis
    using assms by (simp add: hdr16_def set_hdr16_def be16_eq mod_mult2_eq [of n 256 256, simplified])
qed

lemma hdr16_set_other: "j \<noteq> k \<Longrightarrow> j \<noteq> k + 1 \<Longrightarrow> j + 1 \<noteq> k \<Longrightarrow> hdr16 (set_hdr16 k n P) j = hdr16 P j"
  by (simp add: hdr16_def set_hdr16_def)

lemma count_up_props:
  assumes "packet_ok P" "dict_fin {..<12} P" "s \<in> sections"
  defines "Q \<equiv> count_up (header_at s) P"
  shows "packet_ok Q" "dict_fin {..<12} Q" "psize Q = psize P" "pend Q = pend P" "dict Q = dict P"
    "\<forall>j. 12 \<le> j \<longrightarrow> data Q ! j = data P ! j"
    "\<forall>k \<in> sections. dns_p_count Q k = (if k = s then u16 (dns_p_count P k + 1) else dns_p_count P k)"
    "qd Q = qd P" "an Q = an P" "ns Q = ns P" "ar Q = ar P"
proof -
  have len: "12 \<le> length (data P)" using assms(1) by (simp add: packet_ok_def psize_def)
  have h: "header_at s + 1 < 12" using assms(3) by (auto simp: header_at_def)
  show d: "\<forall>j. 12 \<le> j \<longrightarrow> data Q ! j = data P ! j"
    using h by (simp add: Q_def count_up_def set_hdr16_def)
  show "packet_ok Q" "psize Q = psize P" "pend Q = pend P" "dict Q = dict P"
    "qd Q = qd P" "an Q = an P" "ns Q = ns P" "ar Q = ar P"
    using assms(1) by (simp_all add: Q_def count_up_def set_hdr16_def packet_ok_def psize_def)
  show "dict_fin {..<12} Q"
    using assms(2) by (rule dict_finI) (use d in \<open>simp_all add: Q_def count_up_def set_hdr16_def\<close>)
  have "hdr16 Q (header_at k) = (if k = s then u16 (hdr16 P (header_at k) + 1) else hdr16 P (header_at k))"
    if "k \<in> sections" for k
    using assms(3) that len unfolding Q_def count_up_def
    by (auto simp: hdr16_set_same header_at_def hdr16_set_other)
  then show "\<forall>k \<in> sections. dns_p_count Q k = (if k = s then u16 (dns_p_count P k + 1) else dns_p_count P k)"
    by (metis dns_p_count_at)
qed

lemma study_if_memos: "packet_ok P \<Longrightarrow> \<exists>a b c d. study_if x P = Some (P\<lparr>qd := a, an := b, ns := c, ar := d\<rparr>)"
proof (cases x)
  case True
  moreover assume "packet_ok P"
  ultimately show ?thesis
    using study_memos [of P] by (simp add: study_if_def) blast
next
  case False
  moreover have "P = P\<lparr>qd := qd P, an := an P, ns := ns P, ar := ar P\<rparr>" by simp
  ultimately show ?thesis
    unfolding study_if_def by metis
qed

definition updated :: "nat \<Rightarrow> dns_packet \<Rightarrow> dns_packet \<Rightarrow> bool" where
  "updated s Q Q' \<longleftrightarrow> packet_ok Q' \<and> dict_fin {..<12} Q' \<and> psize Q' = psize Q \<and> pend Q' = pend Q \<and>
     (\<forall>j. 12 \<le> j \<longrightarrow> data Q' ! j = data Q ! j) \<and>
     (\<forall>k \<in> sections. dns_p_count Q' k = (if k = s then u16 (dns_p_count Q k + 1) else dns_p_count Q k)) \<and>
     mend (memo_of s Q') = pend Q' \<and> (\<forall>k \<in> sections. s < k \<longrightarrow> memo_of k Q' = memo_at (pend Q'))"

lemma memo_update_keeps:
  "packet_ok (P\<lparr>qd := a, an := b, ns := c, ar := d\<rparr>) = packet_ok P"
  "dict_fin H (P\<lparr>qd := a, an := b, ns := c, ar := d\<rparr>) = dict_fin H P"
  "dns_p_count (P\<lparr>qd := a, an := b, ns := c, ar := d\<rparr>) k = dns_p_count P k"
  "psize (P\<lparr>qd := a, an := b, ns := c, ar := d\<rparr>) = psize P"
  by (simp_all add: packet_ok_def psize_def dict_fin_def dns_p_count_def hdr16_def)

lemma updatedI:
  assumes "packet_ok Q" "dict_fin {..<12} Q" "s \<in> sections"
    and "Q1 = Q\<lparr>qd := a, an := b, ns := c, ar := d\<rparr>"
    and "Q' = (count_up (header_at s) Q1)\<lparr>qd := a', an := b', ns := c', ar := d'\<rparr>"
    and "mend (memo_of s Q') = pend Q" "\<forall>k \<in> sections. s < k \<longrightarrow> memo_of k Q' = memo_at (pend Q)"
  shows "updated s Q Q'"
proof -
  have "packet_ok Q1" "dict_fin {..<12} Q1"
    using assms(1,2,4) by (simp_all add: memo_update_keeps)
  note c = count_up_props [OF this assms(3)]
  have "\<forall>k \<in> sections. dns_p_count Q' k = (if k = s then u16 (dns_p_count Q k + 1) else dns_p_count Q k)"
    using c(7) unfolding assms(5) memo_update_keeps by (simp add: assms(4) memo_update_keeps)
  moreover have "packet_ok Q'" "dict_fin {..<12} Q'" "psize Q' = psize Q"
    using c(1-3) by (simp_all add: assms(4,5) memo_update_keeps)
  moreover have "pend Q' = pend Q" "\<forall>j. 12 \<le> j \<longrightarrow> data Q' ! j = data Q ! j"
    using c(4,6) by (simp_all add: assms(4,5))
  ultimately show ?thesis
    using assms(6,7) by (simp add: updated_def)
qed

lemma push_update_spec:
  assumes "packet_ok Q" "dict_fin {..<12} Q" "s \<in> sections"
  shows "if later_count Q s \<noteq> 0 then push_update s Q = Some (Some DNS_EORDER, Q)
    else \<exists>Q'. push_update s Q = Some (None, Q') \<and> updated s Q Q'"
proof (cases "later_count Q s = 0")
  case True
  obtain a b c d where st: "study_if (base (memo_of s Q) = 0) Q = Some (Q\<lparr>qd := a, an := b, ns := c, ar := d\<rparr>)"
    using study_if_memos [OF assms(1)] by blast
  define Q1 where "Q1 = Q\<lparr>qd := a, an := b, ns := c, ar := d\<rparr>"
  define R where "R = count_up (header_at s) Q1"
  have R: "pend R = pend Q" "qd R = a" "an R = b" "ns R = c" "ar R = d"
    by (simp_all add: R_def count_up_def set_hdr16_def Q1_def)
  define Q' where "Q' = R\<lparr>qd := (if s = DNS_S_QD then a\<lparr>mend := pend Q\<rparr> else a),
    an := (if s = DNS_S_AN then b\<lparr>mend := pend Q\<rparr> else if s < DNS_S_AN then memo_at (pend Q) else b),
    ns := (if s = DNS_S_NS then c\<lparr>mend := pend Q\<rparr> else if s < DNS_S_NS then memo_at (pend Q) else c),
    ar := (if s = DNS_S_AR then d\<lparr>mend := pend Q\<rparr> else memo_at (pend Q))\<rparr>"
  have "updated s Q Q'"
    using assms(3) by (intro updatedI [OF assms Q1_def]) (auto simp: Q'_def R_def memo_of_def)
  moreover have "s = DNS_S_QD \<Longrightarrow> count_up 4 Q1 = R" "s = DNS_S_AN \<Longrightarrow> count_up 6 Q1 = R"
    "s = DNS_S_NS \<Longrightarrow> count_up 8 Q1 = R" "s = DNS_S_AR \<Longrightarrow> count_up 10 Q1 = R"
    by (simp_all add: R_def header_at_def)
  then have "push_update s Q = Some (None, Q')"
    using assms(3) True st R unfolding push_update_def dns_p_count_later
    by (auto simp: memo_of_def Q1_def [symmetric] Q'_def Let_def simp del: One_nat_def)
  ultimately show ?thesis using True by auto
next
  case False
  moreover have "s \<noteq> DNS_S_AR"
  proof
    assume "s = DNS_S_AR"
    then have "{k \<in> sections. s < k} = {}" by auto
    with False show False by (simp only: later_count_def sum.empty)
  qed
  ultimately show ?thesis
    using assms(3) unfolding push_update_def dns_p_count_later by auto
qed

lemma kept_byte: "kept P Q \<Longrightarrow> j < pend P \<Longrightarrow> data Q ! j = data P ! j"
  unfolding kept_def by (metis nth_take)

lemma kept_count: "kept P Q \<Longrightarrow> packet_ok P \<Longrightarrow> dns_p_count Q k = dns_p_count P k"
  by (simp add: dns_p_count_def hdr16_def kept_byte packet_ok_def)

definition push_result :: "nat \<Rightarrow> dns_packet \<Rightarrow> dns_error option \<times> dns_packet \<Rightarrow> bool" where
  "push_result s P = (\<lambda>(err, P').
     (if err = None then pushed s P P' \<and> later_count P s = 0 else kept P P' \<and> pend P' = pend P))"

lemma push_fails: "kept P Q \<Longrightarrow> err \<noteq> None \<Longrightarrow> push_result s P (restore_end (pend P) (err, Q))"
  by (auto simp: push_result_def restore_end_def kept_def psize_def)

lemma push_finishes:
  assumes P: "packet_ok P" and Q: "packet_ok Q" "dict_fin {..<12} Q" "kept P Q" "pend P < pend Q"
    and s: "s \<in> sections"
  shows "\<exists>r. map_option (restore_end (pend P)) (push_update s Q) = Some r \<and> push_result s P r"
proof -
  have l: "later_count Q s = later_count P s"
    unfolding later_count_def using kept_count [OF Q(3) P] by simp
  show ?thesis
  proof (cases "later_count P s = 0")
    case True
    then obtain Q' where Q': "push_update s Q = Some (None, Q')" "updated s Q Q'"
      using push_update_spec [OF Q(1,2) s] l by auto
    have "pushed s P Q'"
      using Q'(2) Q(3,4) kept_byte [OF Q(3)] kept_count [OF Q(3) P]
      unfolding pushed_def updated_def by (simp add: kept_def [of P Q])
    with Q'(1) True show ?thesis
      by (simp add: push_result_def restore_end_def)
  next
    case False
    then have "push_update s Q = Some (Some DNS_EORDER, Q)"
      using push_update_spec [OF Q(1,2) s] l by simp
    then show ?thesis
      using push_fails [OF Q(3), of "Some DNS_EORDER" s] by simp
  qed
qed

lemma writes_after:
  assumes "writer w" "packet_ok Q" "dict_fin {..<12} Q" "kept P Q" "pend P \<le> pend Q"
  shows "\<exists>err R. w Q = Some (err, R) \<and> (err = None \<longrightarrow> packet_ok R \<and> dict_fin {..<12} R \<and> pend P < pend R) \<and>
    kept P R"
proof -
  obtain err R where r: "w Q = Some (err, R)" using writer.total [OF assms(1-3)] by auto
  have "kept Q R" "err = None \<longrightarrow> packet_ok R \<and> dict_fin {..<12} R \<and> pend Q < pend R"
    using writer.contract [OF assms(1-3) _ r] appends_ok [OF assms(2), of "{..<12}" R] by (auto simp: appends_def)
  with r assms(4,5) kept_trans show ?thesis by fastforce
qed

lemma bytes_after:
  assumes "packet_ok Q" "dict_fin {..<12} Q" "kept P Q" "pend P < pend Q" "\<not> room Q < length bs"
  shows "\<exists>R. push_bytes bs Q = Some R \<and> packet_ok R \<and> dict_fin {..<12} R \<and> kept P R \<and> pend P < pend R"
proof -
  have "pend Q + length bs \<le> psize Q" using assms(1,5) by (auto simp: packet_ok_def)
  from push_bytes_appends [OF assms(1,2) this] assms(3,4) kept_trans [of P Q] show ?thesis by fastforce
qed

lemma dns_p_push_result:
  assumes P: "packet_ok P" "dict_fin {..<12} P" and ls: "list_all valid_label ls"
    and any: "s \<noteq> DNS_S_QD \<Longrightarrow> any_ok type any" and s: "s \<in> sections"
  shows "\<exists>r. dns_p_push P s (name_text ls) type class ttl any = Some r \<and> push_result s P r"
proof -
  let ?e = "pend P"
  obtain e1 P1 where p1: "dns_d_push P (name_text ls) = Some (e1, P1)"
    "e1 = None \<longrightarrow> packet_ok P1 \<and> dict_fin {..<12} P1 \<and> pend P < pend P1" "kept P P1"
    using writes_after [OF writer_name [OF ls] P, of P] by auto
  note fails = push_fails [of P _ _ s]
  show ?thesis
  proof (cases "e1 \<noteq> None \<or> room P1 < 4")
    case True
    let ?err = "if e1 \<noteq> None then e1 else Some DNS_ENOBUFS"
    have "dns_p_push P s (name_text ls) type class ttl any = Some (restore_end ?e (?err, P1))"
      using p1(1) True by (cases e1) (simp_all add: dns_p_push_def del: room_ok)
    then show ?thesis
      using fails [OF p1(3), of ?err] by (simp split: if_splits)
  next
    case False
    then have ok1: "packet_ok P1" "dict_fin {..<12} P1" "pend P < pend P1" "e1 = None" "\<not> room P1 < 4"
      using p1(2) by auto
    then obtain P2 where p2: "push_bytes (bytes16 type @ bytes16 class) P1 = Some P2" "packet_ok P2"
      "dict_fin {..<12} P2" "kept P P2" "pend P < pend P2"
      using bytes_after [OF ok1(1,2) p1(3) ok1(3)] by force
    show ?thesis
    proof (cases "s = DNS_S_QD \<or> room P2 < 6")
      case True
      have "dns_p_push P s (name_text ls) type class ttl any =
          (if s = DNS_S_QD then map_option (restore_end ?e) (push_update s P2)
           else Some (restore_end ?e (Some DNS_ENOBUFS, P2)))"
        using p1(1) p2(1) ok1(4,5) True by (cases "s = DNS_S_QD") (simp_all add: dns_p_push_def del: room_ok)
      then show ?thesis
        using push_finishes [OF P(1) p2(2-5) s] fails [OF p2(4), of "Some DNS_ENOBUFS"]
        by (cases "s = DNS_S_QD") (simp_all del: split_paired_Ex)
    next
      case False
      let ?t = "[0x7f AND byte (ttl div 16777216), byte (ttl div 65536), byte (ttl div 256), byte ttl]"
      have "\<not> room P2 < length ?t" using False by simp
      then obtain P3 where p3: "push_bytes ?t P2 = Some P3" "packet_ok P3" "dict_fin {..<12} P3"
        "kept P P3" "pend P < pend P3"
        using bytes_after [OF p2(2-5)] by blast
      obtain e4 P4 where p4: "dns_any_push P3 any type = Some (e4, P4)"
        "e4 = None \<longrightarrow> packet_ok P4 \<and> dict_fin {..<12} P4 \<and> pend P < pend P4" "kept P P4"
        using writes_after [OF writer_any [OF any] p3(2-4)] p3(5) False by auto
      have eq: "dns_p_push P s (name_text ls) type class ttl any =
          (if e4 \<noteq> None then Some (restore_end ?e (e4, P4)) else map_option (restore_end ?e) (push_update s P4))"
        using p1(1) p2(1) p3(1) p4(1) ok1(4,5) False by (simp add: dns_p_push_def del: room_ok)
      show ?thesis
      proof (cases e4)
        case None
        then show ?thesis
          using eq p4 push_finishes [OF P(1), of P4 s] s by auto
      next
        case (Some e)
        then show ?thesis
          using eq fails [OF p4(3), of e4] by simp
      qed
    qed
  qed
qed

text \<open>C3: \<open>dns_p_push\<close> is a transaction. It always returns for a well-formed name and data. On
  success the packet has grown, its earlier records are unchanged, the counter of the section has
  gone up by one (modulo 65536) and no other, the remembered end of the section is the new end, and
  the later sections are empty and start there. On failure the end, every byte before it, the
  counters and the remembered offsets are as before. It fails whenever a later section already has
  records.\<close>
theorem dns_p_push_contract:
  assumes "packet_ok P" "dict_fin {..<12} P" "list_all valid_label ls"
    and "s \<noteq> DNS_S_QD \<Longrightarrow> any_ok type any" and "s \<in> {DNS_S_QD, DNS_S_AN, DNS_S_NS, DNS_S_AR}"
  shows "\<exists>err P'. dns_p_push P s (name_text ls) type class ttl any = Some (err, P') \<and>
    (if err = None then pushed s P P' \<and> later_count P s = 0 else kept P P' \<and> pend P' = pend P)"
  using dns_p_push_result [OF assms, of "class" ttl] by (auto simp: push_result_def)

theorem dns_p_push_contract_witness:
  "let P = \<lparr>dict = replicate 16 0, qd = no_memo, an = no_memo, ns = no_memo, ar = no_memo,
            pend = 12, data = replicate 64 0\<rparr>
   in packet_ok P \<and> dict_fin {..<12} P \<and>
      (\<exists>err P'. dns_p_push P DNS_S_QD (name_text [[97], [98]]) DNS_T_MX 1 0 (Any_a 0) = Some (err, P') \<and>
        (if err = None then pushed DNS_S_QD P P' else pend P' = 12))"
proof -
  define P where "P = \<lparr>dict = replicate 16 0, qd = no_memo, an = no_memo, ns = no_memo, ar = no_memo,
    pend = 12, data = replicate 64 (0::u8)\<rparr>"
  have P: "packet_ok P" "dict_fin {..<12} P" "list_all valid_label [[97], [98]]"
    by (simp_all add: P_def packet_ok_def psize_def valid_label_def dict_fin_def)
  have e: "pend P = 12" by (simp add: P_def)
  have "\<exists>err P'. dns_p_push P DNS_S_QD (name_text [[97], [98]]) DNS_T_MX 1 0 (Any_a 0) = Some (err, P') \<and>
    (if err = None then pushed DNS_S_QD P P' \<and> later_count P DNS_S_QD = 0 else kept P P' \<and> pend P' = pend P)"
    using dns_p_push_contract [OF P, where s = DNS_S_QD and any = "Any_a 0"] by (simp only: insert_iff simp_thms)
  then obtain err P' where r: "dns_p_push P DNS_S_QD (name_text [[97], [98]]) DNS_T_MX 1 0 (Any_a 0) = Some (err, P')"
    "if err = None then pushed DNS_S_QD P P' \<and> later_count P DNS_S_QD = 0 else kept P P' \<and> pend P' = pend P"
    by (elim exE conjE)
  from r(2) have "if err = None then pushed DNS_S_QD P P' else pend P' = 12"
    using e by (cases err) simp_all
  with r(1) have "\<exists>err P'. dns_p_push P DNS_S_QD (name_text [[97], [98]]) DNS_T_MX 1 0 (Any_a 0) = Some (err, P') \<and>
      (if err = None then pushed DNS_S_QD P P' else pend P' = 12)"
    by (intro exI conjI)
  with P(1,2) show ?thesis
    unfolding Let_def P_def [symmetric] by (intro conjI)
qed

section \<open>The retries of dns\_p\_merge\<close>

lemma bind_twice_out: "(x \<bind> (\<lambda>a. f a \<bind> (\<lambda>r. Some (g r)))) = Some out \<Longrightarrow> \<exists>r. out = g r"
  by (auto simp: bind_eq_Some_conv)

lemma merge_body_out:
  assumes "merge_body malloc junk seed A Amask B Bmask n = Some out"
  shows "\<exists>res. out = (if res = Inl DNS_ENOBUFS \<and> n < 65535 then Inl (min 65535 (n * 2)) else Inr res)"
  by (rule bind_twice_out [OF assms [unfolded merge_body_def]])

text \<open>The retries of \<open>dns_p_merge\<close> with doubled buffers end if each attempt returns (it is not shown that
  copying arbitrary records does), and an exhausted buffer is reported only after the largest packet
  of 65535 bytes was tried.\<close>

lemma merge_retries_end:
  assumes ne: "0 < pend P"
    and builds: "\<And>n. merge_body malloc junk seed (Some P) Amask B Bmask n \<noteq> None"
  shows "\<exists>res. dns_p_merge malloc junk seed (Some P) Amask B Bmask = Some res \<and>
    (res = Inl DNS_ENOBUFS \<longrightarrow>
      merge_body malloc junk seed (Some P) Amask B Bmask 65535 = Some (Inr (Inl DNS_ENOBUFS)))"
proof -
  let ?f = "merge_body malloc junk seed (Some P) Amask B Bmask"
  let ?n = "min 65535 (pend P + packet_end B)"
  have m: "dns_p_merge malloc junk seed (Some P) Amask B Bmask = loop ?f ?n"
    by (simp add: dns_p_merge_def packet_end_def)
  have step: "(\<exists>n'. ?f n = Some (Inl n') \<and> (0 < n' \<and> n' \<le> 65535) \<and> 65535 - n' < 65535 - n) \<or>
      (\<exists>r. ?f n = Some (Inr r) \<and> (r = Inl DNS_ENOBUFS \<longrightarrow> ?f 65535 = Some (Inr (Inl DNS_ENOBUFS))))"
    if n: "0 < n \<and> n \<le> 65535" for n
  proof -
    obtain out where out: "?f n = Some out" using builds by blast
    then obtain res where
      res: "out = (if res = Inl DNS_ENOBUFS \<and> n < 65535 then Inl (min 65535 (n * 2)) else Inr res)"
      using merge_body_out by blast
    show ?thesis
    proof (cases "res = Inl DNS_ENOBUFS \<and> n < 65535")
      case True
      have "0 < min 65535 (n * 2) \<and> min 65535 (n * 2) \<le> 65535 \<and> 65535 - min 65535 (n * 2) < 65535 - n"
        using n True unfolding min_def by (auto simp: diff_less_mono2)
      with out res True show ?thesis by (simp del: One_nat_def)
    next
      case False
      then have r: "?f n = Some (Inr res)" using out res by simp
      have "n = 65535" if "res = Inl DNS_ENOBUFS" using False n that by simp
      with r show ?thesis by blast
    qed
  qed
  have "0 < ?n \<and> ?n \<le> 65535" using ne by simp
  then have "\<exists>r. loop ?f ?n = Some r \<and> (r = Inl DNS_ENOBUFS \<longrightarrow> ?f 65535 = Some (Inr (Inl DNS_ENOBUFS)))"
    by (rule loop_total [where m = "\<lambda>n. 65535 - n"]) (rule step)
  then show ?thesis unfolding m .
qed

end
