(* ===== verification/Dns_Names.thy ===== *)
theory Dns_Names
  imports Dns_Push
begin

unbundle bit_operations_syntax

text \<open>
  The names of sections, classes, record types, opcodes and response codes: the tables of the last
  section of \<open>dns.c\<close>, printing a value and reading a name, and \<open>dns_rr_print\<close>, which prints
  a whole record with them. Printing and reading are inverse on the values the tables name.
\<close>

section \<open>Sections\<close>

definition dns_sections :: "(bytes \<times> nat) list" where
  "dns_sections =
     [(str ''QUESTION'', DNS_S_QD), (str ''QD'', DNS_S_QD), (str ''ANSWER'', DNS_S_AN), (str ''AN'', DNS_S_AN),
      (str ''AUTHORITY'', DNS_S_NS), (str ''NS'', DNS_S_NS), (str ''ADDITIONAL'', DNS_S_AR), (str ''AR'', DNS_S_AR)]"

text \<open>\<open>section &= ~type\<close> on the bits of a section mask.\<close>

definition clear_bits :: "nat \<Rightarrow> nat \<Rightarrow> nat" where
  "clear_bits s t = s - (s AND t)"

fun strsection_loop :: "(bytes \<times> nat) list \<Rightarrow> nat \<Rightarrow> nat \<Rightarrow> bytes \<Rightarrow> nat \<times> nat \<times> bytes" where
  "strsection_loop [] section p dst = (section, p, dst)"
| "strsection_loop ((name, type) # ts) section p dst =
     (if type AND section \<noteq> 0 then
        let (k, dst) = (if 0 < p then dns__printchar 124 dst p else (0, dst));
            p = p + k;
            (k, dst) = dns__printstring name dst p
        in strsection_loop ts (clear_bits section type) (p + k) dst
      else strsection_loop ts section p dst)"

definition dns_strsection :: "nat \<Rightarrow> bytes \<Rightarrow> bytes" where
  "dns_strsection section dst =
     (let (section, p, dst) = strsection_loop dns_sections section 0 dst;
          (p, dst) = (if p = 0 then dns__print10 (0xffff AND section) 0 dst 0 else (p, dst))
      in dns__printnul dst p)"

text \<open>\<open>strsep\<close> with the separators of \<open>dns_isection\<close>, called until it returns null.\<close>

definition is_sep :: "u8 \<Rightarrow> bool" where
  "is_sep c = (c \<in> set [124, 43, 44, 32, 9])"

fun strsep_all :: "bytes \<Rightarrow> bytes \<Rightarrow> bytes list" where
  "strsep_all tok [] = [tok]"
| "strsep_all tok (c # cs) = (if is_sep c then tok # strsep_all [] cs else strsep_all (tok @ [c]) cs)"

definition lookup_name :: "(bytes \<times> nat) list \<Rightarrow> bytes \<Rightarrow> nat option" where
  "lookup_name tbl name = map_option snd (find (\<lambda>(n, t). casecmp n name = 0) tbl)"

definition dns_isection :: "bytes \<Rightarrow> nat option" where
  "dns_isection src = do {
     (n, sbuf) \<leftarrow> dns_strlcpy (replicate 128 0) src;
     Some (foldl (\<lambda>s name. case lookup_name dns_sections name of Some t \<Rightarrow> s OR t | None \<Rightarrow> s) 0
             (strsep_all [] (cstr sbuf)))
   }"

section \<open>Classes and types\<close>

definition dns_classes :: "(bytes \<times> nat) list" where
  "dns_classes = [(str ''IN'', 1)]"

definition type_names :: "(bytes \<times> nat) list" where
  "type_names =
     [(str ''A'', DNS_T_A), (str ''AAAA'', DNS_T_AAAA), (str ''MX'', DNS_T_MX), (str ''NS'', DNS_T_NS),
      (str ''CNAME'', DNS_T_CNAME), (str ''SOA'', DNS_T_SOA), (str ''SRV'', DNS_T_SRV), (str ''PTR'', DNS_T_PTR),
      (str ''TXT'', DNS_T_TXT), (str ''SPF'', DNS_T_SPF), (str ''SSHFP'', DNS_T_SSHFP)]"

definition print_named :: "(bytes \<times> nat) list \<Rightarrow> nat \<Rightarrow> bytes \<Rightarrow> nat \<Rightarrow> nat \<times> bytes" where
  "print_named tbl t =
     (case find (\<lambda>(n, t'). t' = t) tbl of
        Some (n, _) \<Rightarrow> dns__printstring n
      | None \<Rightarrow> dns__print10 (0xffff AND t) 0)"

definition dns_strclass :: "nat \<Rightarrow> bytes \<Rightarrow> bytes" where
  "dns_strclass t dst = snd (closep (print_named dns_classes t) dst)"

definition dns_iclass :: "bytes \<Rightarrow> nat" where
  "dns_iclass name = (case lookup_name dns_classes (cstr name) of Some t \<Rightarrow> t | None \<Rightarrow> 0)"

definition dns_strtype :: "nat \<Rightarrow> bytes \<Rightarrow> bytes" where
  "dns_strtype t dst = snd (closep (print_named type_names t) dst)"

definition dns_itype :: "bytes \<Rightarrow> nat" where
  "dns_itype name = (case lookup_name type_names (cstr name) of Some t \<Rightarrow> t | None \<Rightarrow> 0)"

section \<open>Opcodes and response codes\<close>

text \<open>The two tables are static arrays of sixteen strings of sixteen bytes, and printing a code without
  a name stores its decimal form there.\<close>

definition entry :: "string \<Rightarrow> bytes" where
  "entry s = str s @ replicate (16 - length s) 0"

definition dns_opcodes :: "bytes list" where
  "dns_opcodes = map entry
     [''QUERY'', ''IQUERY'', ''STATUS'', '''', ''NOTIFY'', ''UPDATE'', '''', '''', '''', '''', '''', '''', '''', '''', '''', '''']"

definition dns_rcodes :: "bytes list" where
  "dns_rcodes = map entry
     [''NOERROR'', ''FORMERR'', ''SERVFAIL'', ''NXDOMAIN'', ''NOTIMP'', ''REFUSED'', ''YXDOMAIN'', ''YXRRSET'',
      ''NXRRSET'', ''NOTAUTH'', ''NOTZONE'', '''', '''', '''', '''', '''']"

definition strcode :: "bytes list \<Rightarrow> nat \<Rightarrow> bytes list \<times> bytes" where
  "strcode tbl code =
     (let c = code AND 0xf;
          tbl = (if tbl ! c ! 0 = 0 then tbl[c := snd (closep (dns__print10 c 0) (tbl ! c))] else tbl)
      in (tbl, tbl ! c))"

fun icode :: "bytes list \<Rightarrow> nat \<Rightarrow> bytes \<Rightarrow> nat" where
  "icode [] c name = c - 1"
| "icode (e # es) c name = (if strcasecmp name e = 0 then c else icode es (Suc c) name)"

definition dns_stropcode :: "bytes list \<Rightarrow> nat \<Rightarrow> bytes list \<times> bytes" where
  "dns_stropcode = strcode"

definition dns_iopcode :: "bytes list \<Rightarrow> bytes \<Rightarrow> nat" where
  "dns_iopcode tbl name = icode tbl 0 name"

definition dns_strrcode :: "bytes list \<Rightarrow> nat \<Rightarrow> bytes list \<times> bytes" where
  "dns_strrcode = strcode"

definition dns_ircode :: "bytes list \<Rightarrow> bytes \<Rightarrow> nat" where
  "dns_ircode tbl name = icode tbl 0 name"

section \<open>Printing a record\<close>

text \<open>\<open>dns_d_expand\<close> and \<open>dns_any_print\<close> write at the position \<open>cp\<close> of the buffer, into what is
  left of it.\<close>

definition strbuf :: bytes where
  "strbuf = replicate 48 0"

definition dns_rr_print :: "bytes \<Rightarrow> bytes \<Rightarrow> dns_rr \<Rightarrow> dns_packet \<Rightarrow> (dns_error option \<times> nat \<times> bytes) option" where
  "dns_rr_print ntop dst rr P = do {
     let q = (rsection rr = DNS_S_QD);
     let (cp, dst) = (if q then dns__printchar 59 dst 0 else (0, dst));
     (err, n, name) \<leftarrow> dns_d_expand (drop cp dst) (dnp rr) P;
     let dst = take cp dst @ name;
     if n = 0 then Some (err, 0, dst)
     else do {
       let cp = cp + n;
       let (k, dst) = (if q then (0, dst) else seqp (dns__printchar 32) (dns__print10 (rttl rr) 0) dst cp);
       let cp = cp + k;
       let (k, dst) = seqp (dns__printchar 32) (seqp (dns__printstring (cstr (dns_strclass (rclass rr) strbuf)))
                        (seqp (dns__printchar 32) (dns__printstring (cstr (dns_strtype (rtype rr) strbuf))))) dst cp;
       let cp = cp + k;
       if q then Some (None, cp, dns__printnul dst cp)
       else do {
         let (k, dst) = dns__printchar 32 dst cp;
         let cp = cp + k;
         a \<leftarrow> dns_any_parse any_size rr P;
         case a of
           Inl e \<Rightarrow> Some (Some e, 0, dst)
         | Inr any \<Rightarrow> do {
             (k, rest) \<leftarrow> dns_any_print ntop (drop cp dst) any (rtype rr);
             let dst = take cp dst @ rest;
             Some (None, cp + k, dns__printnul dst (cp + k))
           }
       }
     }
   }"

text \<open>\<open>strcode\<close> with the decimal number written out, for evaluation.\<close>

definition strcode_dec :: "bytes list \<Rightarrow> nat \<Rightarrow> bytes list \<times> bytes" where
  "strcode_dec tbl c =
     (let tbl = (if tbl ! c ! 0 = 0 then tbl[c := snd (closep (dns__printstring (decimal c)) (tbl ! c))] else tbl)
      in (tbl, tbl ! c))"

section \<open>Reading back what was printed\<close>

lemma strsection_named:
  "list_all (\<lambda>s. dns_isection (dns_strsection s strbuf) = Some s) [1, 2, 3, 4, 5, 6, 7, 8, 9, 10, 11, 12, 13, 14, 15]"
  by code_simp

lemma strtype_named:
  "list_all (\<lambda>(n, t). dns_itype (dns_strtype t strbuf) = t) type_names"
  by code_simp

lemma print10_zero: "dns__print10 0 0 dst off = dns__printchar 48 dst off"
proof -
  have "print10_digits 1000000000 0 [] = []"
    using print10_digits_decimal [of 0 9] by simp
  moreover have "print10_pad 0 1 dst off = (off + 1, put dst off 48)"
    by (simp add: print10_pad.simps [of 0 "Suc 0"] print10_pad.simps [of 0 0] dns__printchar_def)
  ultimately show ?thesis
    by (simp add: dns__print10_def dns__printstring_def dns__printchar_def blit_def)
qed

lemma print10_decimal:
  assumes "0 < n" "n < 4294967296"
  shows "dns__print10 n 0 dst off = dns__printstring (decimal n) dst off"
proof -
  have "print10_digits 1000000000 n [] = decimal n"
    using print10_digits_decimal [of n 9] assms by simp
  moreover have "print10_pad (length (decimal n)) 1 dst off = (off, dst)"
    by (simp add: print10_pad.simps [of _ "Suc 0"])
  ultimately show ?thesis
    using assms by (simp add: dns__print10_def dns__printstring_def Let_def)
qed

lemma strcode_dec_eq:
  assumes "0 < c" "c < 16"
  shows "strcode tbl c = strcode_dec tbl c"
proof -
  have "c AND 0xf = c"
    using assms take_bit_nat_eq_self [of c 4] take_bit_eq_mask [of 4 c] by (simp add: mask_eq_exp_minus_1)
  moreover have "closep (dns__print10 c 0) dst = closep (dns__printstring (decimal c)) dst" for dst
    using assms print10_decimal [of c] by (simp add: closep_def)
  ultimately show ?thesis
    by (simp add: strcode_def strcode_dec_def)
qed

lemma codes_named:
  "list_all (\<lambda>c. let (tbl, name) = strcode_dec dns_opcodes c in icode tbl 0 name = c) [1, 2, 3, 4, 5, 6, 7, 8, 9, 10, 11, 12, 13, 14, 15]"
  "list_all (\<lambda>c. let (tbl, name) = strcode_dec dns_rcodes c in icode tbl 0 name = c) [1, 2, 3, 4, 5, 6, 7, 8, 9, 10, 11, 12, 13, 14, 15]"
  by code_simp+

lemma casecmp_refl: "casecmp xs xs = 0"
  by (induction xs) auto

lemma codes_zero: "strcode dns_opcodes 0 = (dns_opcodes, entry ''QUERY'')" "strcode dns_rcodes 0 = (dns_rcodes, entry ''NOERROR'')"
  "icode dns_opcodes 0 (entry ''QUERY'') = 0" "icode dns_rcodes 0 (entry ''NOERROR'') = 0"
  by (simp_all add: strcode_def dns_opcodes_def dns_rcodes_def entry_def str_def Let_def of_char_def strcasecmp_def casecmp_refl)

lemma upto15: "[0..<16] = [0, 1, 2, 3, 4, 5, 6, 7, 8, 9, 10, 11, 12, 13, 14, 15 :: nat]"
  by code_simp

lemma section_zero: "dns_isection (dns_strsection 0 strbuf) = Some 0"
proof -
  have "strsection_loop dns_sections 0 0 strbuf = (0, 0, strbuf)" by code_simp
  then have "dns_strsection 0 strbuf = dns__printnul (put strbuf 0 48) 1"
    by (simp add: dns_strsection_def print10_zero dns__printchar_def)
  moreover have "dns_isection (dns__printnul (put strbuf 0 48) 1) = Some 0" by code_simp
  ultimately show ?thesis by simp
qed

text \<open>C29: What the library prints it reads back: every combination of the four sections, every record
  type and class with a name, and all sixteen opcodes and response codes, where printing a code
  without a name stores its decimal form in the table that is searched when reading.\<close>
theorem dns_names_roundtrip:
  "list_all (\<lambda>s. dns_isection (dns_strsection s strbuf) = Some s) [0..<16] \<and>
   list_all (\<lambda>(n, t). dns_itype (dns_strtype t strbuf) = t) type_names \<and>
   list_all (\<lambda>(n, t). dns_iclass (dns_strclass t strbuf) = t) dns_classes \<and>
   list_all (\<lambda>c. case dns_stropcode dns_opcodes c of (tbl, name) \<Rightarrow> dns_iopcode tbl name = c) [0..<16] \<and>
   list_all (\<lambda>c. case dns_strrcode dns_rcodes c of (tbl, name) \<Rightarrow> dns_ircode tbl name = c) [0..<16]"
proof -
  have "list_all (\<lambda>s. dns_isection (dns_strsection s strbuf) = Some s) [0..<16]"
    unfolding upto15 using strsection_named section_zero by (simp only: list_all_iff list.set ball_simps simp_thms)
  moreover have "list_all (\<lambda>c. case dns_stropcode dns_opcodes c of (tbl, name) \<Rightarrow> dns_iopcode tbl name = c) [0..<16]"
    unfolding upto15 dns_stropcode_def dns_iopcode_def using codes_named(1) codes_zero
    by (simp add: strcode_dec_eq)
  moreover have "list_all (\<lambda>c. case dns_strrcode dns_rcodes c of (tbl, name) \<Rightarrow> dns_ircode tbl name = c) [0..<16]"
    unfolding upto15 dns_strrcode_def dns_ircode_def using codes_named(2) codes_zero
    by (simp add: strcode_dec_eq)
  moreover have "list_all (\<lambda>(n, t). dns_iclass (dns_strclass t strbuf) = t) dns_classes"
    by code_simp
  ultimately show ?thesis
    using strtype_named by blast
qed

end
