(* ===== verification/Dns_Hosts.thy ===== *)
theory Dns_Hosts
  imports Dns_Push Dns_Show
begin

unbundle bit_operations_syntax

text \<open>
  The hosts table of \<^verbatim>\<open>src/src/c/dns/libdns/dns.c\<close>: its entries, the parser of
  \<open>/etc/hosts\<close>, and the local answer to a query. The linked list with its tail pointer is the
  list of its entries. Allocation is an argument: \<open>malloc n\<close> is the outcome of the allocation
  made when the table has \<open>n\<close> entries, an error number or the old contents of the two text
  fields of the new entry. \<open>inet_pton\<close> of the system is the argument \<open>N\<close>, and a file is
  its bytes, read to the end.

  Loading is shown to implement a grammar written with list functions: lines, comments, words. A
  query is answered with one record for each matching entry or not at all.
\<close>

section \<open>Reference counts and addresses\<close>

type_synonym dns_atomic_t = "64 word"

definition dns_atomic_inc :: "dns_atomic_t \<Rightarrow> u32 \<times> dns_atomic_t" where
  "dns_atomic_inc i = (ucast i, i + 1)"

definition dns_atomic_dec :: "dns_atomic_t \<Rightarrow> u32 \<times> dns_atomic_t" where
  "dns_atomic_dec i = (ucast i, i - 1)"

text \<open>An address with its family; \<open>AF_OTHER 0\<close> is \<open>AF_UNSPEC\<close>.\<close>

datatype dns_addr = AF_INET dns_a | AF_INET6 dns_aaaa | AF_OTHER nat

text \<open>\<open>inet_pton\<close> of the system for the two families, and the call with the family as an argument.\<close>

record inet =
  pton4 :: "bytes \<Rightarrow> dns_a option"
  pton6 :: "bytes \<Rightarrow> dns_aaaa option"

definition dns_inet_pton :: "inet \<Rightarrow> bool \<Rightarrow> bytes \<Rightarrow> dns_addr option" where
  "dns_inet_pton N v6 s = (if v6 then map_option AF_INET6 (pton6 N s) else map_option AF_INET (pton4 N s))"

abbreviation (input) EINVAL :: nat where "EINVAL \<equiv> 22"

section \<open>The table\<close>

record dns_hosts_entry =
  ent_host :: bytes
  ent_arpa :: bytes
  ent_addr :: dns_addr
  ent_alias :: bool

record dns_hosts =
  entries :: "dns_hosts_entry list"
  hosts_refcount :: dns_atomic_t

definition dns_hosts_open :: "nat option \<Rightarrow> dns_error + dns_hosts" where
  "dns_hosts_open oom =
     (case oom of Some e \<Rightarrow> Inl (SYS e) | None \<Rightarrow> Inr \<lparr>entries = [], hosts_refcount = 1\<rparr>)"

definition dns_hosts_acquire :: "dns_hosts \<Rightarrow> u32 \<times> dns_hosts" where
  "dns_hosts_acquire H =
     (let (old, n) = dns_atomic_inc (hosts_refcount H) in (old, H\<lparr>hosts_refcount := n\<rparr>))"

definition dns_hosts_release :: "dns_hosts \<Rightarrow> u32 \<times> dns_hosts" where
  "dns_hosts_release H =
     (let (old, n) = dns_atomic_dec (hosts_refcount H) in (old, H\<lparr>hosts_refcount := n\<rparr>))"

text \<open>The table that is left, \<open>None\<close> when it was freed.\<close>

definition dns_hosts_close :: "dns_hosts option \<Rightarrow> dns_hosts option" where
  "dns_hosts_close hosts =
     (case hosts of
        None \<Rightarrow> None
      | Some H \<Rightarrow> (let (old, H) = dns_hosts_release H in if old \<noteq> 1 then Some H else None))"

definition dns_hosts_mortal :: "dns_hosts option \<Rightarrow> dns_hosts option" where
  "dns_hosts_mortal hosts = map_option (\<lambda>H. snd (dns_hosts_release H)) hosts"

type_synonym ent_malloc = "nat \<Rightarrow> nat + (bytes \<times> bytes)"

definition dns_hosts_insert :: "ent_malloc \<Rightarrow> dns_hosts \<Rightarrow> dns_addr \<Rightarrow> bytes \<Rightarrow> bool
    \<Rightarrow> dns_error option \<times> dns_hosts" where
  "dns_hosts_insert malloc H addr host alias =
     (case malloc (length (entries H)) of
        Inl e \<Rightarrow> (Some (SYS e), H)
      | Inr (hbuf, abuf) \<Rightarrow>
          let hbuf = snd (dns_d_anchor hbuf (cstr host));
              ent = (\<lambda>arpa. \<lparr>ent_host = hbuf, ent_arpa = arpa, ent_addr = addr, ent_alias = alias\<rparr>)
          in case addr of
               AF_INET6 a \<Rightarrow> (None, H\<lparr>entries := entries H @ [ent (snd (dns_aaaa_arpa abuf a))]\<rparr>)
             | AF_INET a \<Rightarrow> (None, H\<lparr>entries := entries H @ [ent (snd (dns_a_arpa abuf a))]\<rparr>)
             | AF_OTHER _ \<Rightarrow> (Some (SYS EINVAL), H))"

section \<open>Loading a file\<close>

text \<open>\<open>isspace\<close> in the C locale.\<close>

definition c_isspace :: "u8 \<Rightarrow> bool" where
  "c_isspace c = (c = 32 \<or> 9 \<le> c \<and> c \<le> 13)"

definition dns_hosts_issep :: "u8 \<Rightarrow> bool" where
  "dns_hosts_issep c = c_isspace c"

definition dns_hosts_iscom :: "u8 \<Rightarrow> bool" where
  "dns_hosts_iscom c = (c = 35 \<or> c = 59)"

text \<open>The loop that reads a word: the character it stopped at (\<open>None\<close> is the end of the file), the
  rest of the file, \<open>skip\<close>, \<open>word\<close> and \<open>wp\<close>.\<close>

fun hosts_word :: "bytes \<Rightarrow> bool \<Rightarrow> bytes \<Rightarrow> nat \<Rightarrow> u8 option \<times> bytes \<times> bool \<times> bytes \<times> nat" where
  "hosts_word [] skip word wp = (None, [], skip, word, wp)"
| "hosts_word (ch # fp) skip word wp =
     (if ch = 10 then (Some ch, fp, skip, word, wp)
      else let skip = (skip \<or> dns_hosts_iscom ch)
           in if skip then hosts_word fp skip word wp
              else if dns_hosts_issep ch then (Some ch, fp, skip, word, wp)
              else hosts_word fp skip (if wp < length word - 1 then word[wp := ch] else word) (wp + 1))"

record hosts_line =
  l_fp :: bytes
  l_hosts :: dns_hosts
  l_addr :: dns_addr
  l_host :: bytes
  l_wc :: nat
  l_skip :: bool

text \<open>What is done with a word.\<close>

definition hosts_use_word :: "inet \<Rightarrow> ent_malloc \<Rightarrow> bytes \<Rightarrow> nat \<Rightarrow> hosts_line
    \<Rightarrow> (dns_error option \<times> hosts_line) option" where
  "hosts_use_word N malloc word wp s =
     (if wp = 0 then Some (None, s)
      else if l_wc s = 0 then
        Some (None, case dns_inet_pton N (58 \<in> set (cstr word)) (cstr word) of
          Some a \<Rightarrow> s\<lparr>l_wc := 1, l_addr := a, l_skip := False\<rparr>
        | None \<Rightarrow> s\<lparr>l_wc := 1, l_skip := True\<rparr>)
      else do {
        w \<leftarrow> rdn word 0 wp;
        let host = snd (dns_d_anchor (l_host s) w);
        let wc = l_wc s + 1;
        let (err, H) = dns_hosts_insert malloc (l_hosts s) (l_addr s) host (2 < wc);
        Some (err, s\<lparr>l_wc := wc, l_host := host, l_hosts := H\<rparr>)
      })"

definition hosts_line_body :: "inet \<Rightarrow> ent_malloc \<Rightarrow> hosts_line
    \<Rightarrow> (hosts_line + (dns_error option \<times> bool \<times> hosts_line)) option" where
  "hosts_line_body N malloc s =
     (let (ch, fp, skip, word, wp) = hosts_word (l_fp s) (l_skip s) (replicate 256 0) 0
      in do {
        (err, s) \<leftarrow> hosts_use_word N malloc word wp (s\<lparr>l_fp := fp, l_skip := skip\<rparr>);
        Some (if err \<noteq> None then Inr (err, True, s)
              else if ch = None \<or> ch = Some 10 then Inr (None, ch = None, s)
              else Inl s)
      })"

definition hosts_new_line :: "bytes \<Rightarrow> dns_hosts \<Rightarrow> hosts_line" where
  "hosts_new_line fp H =
     \<lparr>l_fp = fp, l_hosts = H, l_addr = AF_OTHER 0, l_host = replicate 256 0, l_wc = 0, l_skip = False\<rparr>"

definition hosts_file_body :: "inet \<Rightarrow> ent_malloc \<Rightarrow> bytes \<times> dns_hosts
    \<Rightarrow> ((bytes \<times> dns_hosts) + (dns_error option \<times> dns_hosts)) option" where
  "hosts_file_body N malloc = (\<lambda>(fp, H). do {
     (err, eof, s) \<leftarrow> loop (hosts_line_body N malloc) (hosts_new_line fp H);
     Some (if err \<noteq> None \<or> eof then Inr (err, l_hosts s) else Inl (l_fp s, l_hosts s))
   })"

definition dns_hosts_loadfile :: "inet \<Rightarrow> ent_malloc \<Rightarrow> dns_hosts \<Rightarrow> bytes
    \<Rightarrow> (dns_error option \<times> dns_hosts) option" where
  "dns_hosts_loadfile N malloc H fp = loop (hosts_file_body N malloc) (fp, H)"

text \<open>\<open>fopen\<close> is the argument: an error number or the contents of the file.\<close>

definition dns_hosts_loadpath :: "inet \<Rightarrow> ent_malloc \<Rightarrow> dns_hosts \<Rightarrow> nat + bytes
    \<Rightarrow> (dns_error option \<times> dns_hosts) option" where
  "dns_hosts_loadpath N malloc H fopen =
     (case fopen of Inl e \<Rightarrow> Some (Some (SYS e), H) | Inr fp \<Rightarrow> dns_hosts_loadfile N malloc H fp)"

definition dns_hosts_local :: "inet \<Rightarrow> ent_malloc \<Rightarrow> nat option \<Rightarrow> nat + bytes
    \<Rightarrow> (dns_error + dns_hosts) option" where
  "dns_hosts_local N malloc oom etc_hosts =
     (case dns_hosts_open oom of
        Inl e \<Rightarrow> Some (Inl e)
      | Inr H \<Rightarrow> do {
          (err, H) \<leftarrow> dns_hosts_loadpath N malloc H etc_hosts;
          Some (case err of Some e \<Rightarrow> Inl e | None \<Rightarrow> Inr H)
        })"

section \<open>Answering a query\<close>

text \<open>\<open>push_each\<close> pushes an answer for each of a list of entries, \<open>dat\<close> being its data.\<close>

fun push_each :: "(dns_hosts_entry \<Rightarrow> dns_any) \<Rightarrow> bytes \<Rightarrow> dns_rr \<Rightarrow> dns_hosts_entry list \<Rightarrow> dns_packet
    \<Rightarrow> (dns_error option \<times> dns_packet) option" where
  "push_each dat qname rr [] P = Some (None, P)"
| "push_each dat qname rr (e # es) P = do {
     (err, P) \<leftarrow> dns_p_push P DNS_S_AN qname (rtype rr) (rclass rr) 0 (dat e);
     if err \<noteq> None then Some (err, P) else push_each dat qname rr es P
   }"

definition same_family :: "nat \<Rightarrow> dns_addr \<Rightarrow> bool" where
  "same_family type addr =
     (case addr of AF_INET _ \<Rightarrow> type = DNS_T_A | AF_INET6 _ \<Rightarrow> type = DNS_T_AAAA | AF_OTHER _ \<Rightarrow> False)"

definition addr_any :: "dns_addr \<Rightarrow> dns_any" where
  "addr_any addr = (case addr of AF_INET a \<Rightarrow> Any_a a | AF_INET6 a \<Rightarrow> Any_aaaa a | AF_OTHER _ \<Rightarrow> Any_a 0)"

definition hosts_answers :: "dns_hosts \<Rightarrow> bytes \<Rightarrow> nat \<Rightarrow> dns_hosts_entry list" where
  "hosts_answers H qname type =
     (if type = DNS_T_PTR
      then filter (\<lambda>e. \<not> (ent_alias e \<or> strcasecmp qname (ent_arpa e) \<noteq> 0)) (entries H)
      else if type = DNS_T_AAAA \<or> type = DNS_T_A
      then filter (\<lambda>e. \<not> (\<not> same_family type (ent_addr e) \<or> strcasecmp qname (ent_host e) \<noteq> 0)) (entries H)
      else [])"

definition hosts_data :: "nat \<Rightarrow> dns_hosts_entry \<Rightarrow> dns_any" where
  "hosts_data type e = (if type = DNS_T_PTR then Any_ns \<lparr>ns_host = ent_host e\<rparr> else addr_any (ent_addr e))"

definition dns_hosts_query :: "(nat \<Rightarrow> nat + bytes) \<Rightarrow> dns_hosts \<Rightarrow> dns_packet \<Rightarrow> (dns_error + dns_packet) option" where
  "dns_hosts_query malloc H Q = do {
     P \<leftarrow> dns_p_init (replicate 512 0);
     parsed \<leftarrow> dns_rr_parse 12 Q;
     case parsed of
       Inl e \<Rightarrow> Some (Inl e)
     | Inr rr \<Rightarrow> do {
         (err, qlen, qname) \<leftarrow> dns_d_expand (replicate 256 0) (dnp rr) Q;
         if err \<noteq> None then Some (Inl (the err))
         else if length qname \<le> qlen then Some (Inl DNS_EILLEGAL)
         else do {
           (err, P) \<leftarrow> dns_p_push P DNS_S_QD (take qlen qname) (rtype rr) (rclass rr) 0 (Any_a 0);
           if err \<noteq> None then Some (Inl (the err))
           else do {
             (err, P) \<leftarrow> push_each (hosts_data (rtype rr)) (take qlen qname) rr
                (hosts_answers H qname (rtype rr)) P;
             if err \<noteq> None then Some (Inl (the err))
             else map_option (map_sum id (\<lambda>A. dns_p_copy A P)) (dns_p_make malloc (pend P))
           }
         }
       }
   }"

section \<open>The grammar of a hosts file\<close>

fun split_at :: "('a \<Rightarrow> bool) \<Rightarrow> 'a list \<Rightarrow> 'a list list" where
  "split_at p [] = [[]]"
| "split_at p (x # xs) = (if p x then [] # split_at p xs else case split_at p xs of [] \<Rightarrow> [[x]] | w # ws \<Rightarrow> (x # w) # ws)"

definition hosts_words :: "bytes \<Rightarrow> bytes list" where
  "hosts_words line = filter (\<lambda>w. w \<noteq> []) (split_at dns_hosts_issep (takeWhile (\<lambda>c. \<not> dns_hosts_iscom c) line))"

definition anchored :: "bytes \<Rightarrow> bytes" where
  "anchored w = (if last w = 46 then w else w @ [46])"

definition arpa_text :: "dns_addr \<Rightarrow> bytes" where
  "arpa_text addr =
     (case addr of AF_INET a \<Rightarrow> a_arpa_text 4 a | AF_INET6 a \<Rightarrow> aaaa_arpa_text (rev a) | AF_OTHER _ \<Rightarrow> [])"

type_synonym host_view = "bytes \<times> bytes \<times> dns_addr \<times> bool"

text \<open>The first name of a line is the canonical one, the others are aliases.\<close>

fun name_entries :: "dns_addr \<Rightarrow> bool \<Rightarrow> bytes list \<Rightarrow> host_view list" where
  "name_entries addr alias [] = []"
| "name_entries addr alias (n # names) = (anchored n, arpa_text addr, addr, alias) # name_entries addr True names"

definition line_entries :: "inet \<Rightarrow> bytes list \<Rightarrow> host_view list" where
  "line_entries N words =
     (case words of
        [] \<Rightarrow> []
      | a # names \<Rightarrow>
          (case dns_inet_pton N (58 \<in> set a) a of
             None \<Rightarrow> []
           | Some addr \<Rightarrow> name_entries addr False names))"

definition entry_view :: "dns_hosts_entry \<Rightarrow> host_view" where
  "entry_view e = (cstr (ent_host e), cstr (ent_arpa e), ent_addr e, ent_alias e)"

text \<open>\<open>words_ok fp\<close>: no byte is NUL and no word is longer than a name may be.\<close>

definition words_ok :: "bytes \<Rightarrow> bool" where
  "words_ok fp \<longleftrightarrow> 0 \<notin> set fp \<and> (\<forall>line \<in> set (split_at (\<lambda>c. c = 10) fp). \<forall>w \<in> set (hosts_words line). length w \<le> 254)"

definition mallocs :: "ent_malloc \<Rightarrow> bool" where
  "mallocs malloc \<longleftrightarrow> (\<forall>n. \<exists>h a. malloc n = Inr (h, a) \<and> length h = 256 \<and> length a = 74)"

section \<open>Reading words\<close>

definition in_word :: "u8 \<Rightarrow> bool" where
  "in_word c = (c \<noteq> 10 \<and> \<not> dns_hosts_iscom c \<and> \<not> dns_hosts_issep c)"

definition next_line :: "bytes \<Rightarrow> bytes" where
  "next_line fp = drop 1 (dropWhile (\<lambda>c. c \<noteq> 10) fp)"

definition line_words :: "bytes \<Rightarrow> bytes list" where
  "line_words fp = hosts_words (takeWhile (\<lambda>c. c \<noteq> 10) fp)"

lemma split_at_ne: "split_at p xs \<noteq> []"
  by (cases xs) (auto split: list.splits)

lemma split_at_none: "\<forall>x \<in> set xs. \<not> p x \<Longrightarrow> split_at p xs = [xs]"
  by (induction xs) auto

lemma split_at_first: "\<forall>x \<in> set xs. \<not> p x \<Longrightarrow> p c \<Longrightarrow> split_at p (xs @ c # ys) = xs # split_at p ys"
  by (induction xs) auto

lemma split_at_lines:
  "split_at (\<lambda>c. c = 10) fp =
     (if 10 \<in> set fp then takeWhile (\<lambda>c. c \<noteq> 10) fp # split_at (\<lambda>c. c = 10) (next_line fp) else [fp])"
  by (induction fp) (auto simp: next_line_def)

lemma hosts_word_skips:
  "hosts_word fp True word wp = (if 10 \<in> set fp then Some 10 else None, next_line fp, True, word, wp)"
  by (induction fp) (auto simp: next_line_def)

definition filled :: "bytes \<Rightarrow> bytes" where
  "filled w = w @ replicate (256 - length w) 0"

lemma filled_snoc: "length w < 255 \<Longrightarrow> (filled w)[length w := c] = filled (w @ [c])"
proof -
  assume "length w < 255"
  then have "256 - length w = Suc (256 - length (w @ [c]))" by simp
  then show ?thesis by (simp add: filled_def)
qed

lemma hosts_word_reads:
  "list_all in_word w \<Longrightarrow> length w0 + length w \<le> 255 \<Longrightarrow>
    hosts_word (w @ rest) False (filled w0) (length w0) = hosts_word rest False (filled (w0 @ w)) (length (w0 @ w))"
proof (induction w arbitrary: w0)
  case (Cons c w)
  then have l: "length w0 < 255" and c: "in_word c" by simp_all
  have "length (filled w0) = 256" using l by (simp add: filled_def)
  then have "hosts_word ((c # w) @ rest) False (filled w0) (length w0) =
      hosts_word (w @ rest) False (filled (w0 @ [c])) (length (w0 @ [c]))"
    using c l filled_snoc [OF l, of c] by (simp add: in_word_def)
  also have "\<dots> = hosts_word rest False (filled ((w0 @ [c]) @ w)) (length ((w0 @ [c]) @ w))"
    using Cons.prems by (intro Cons.IH) simp_all
  finally show ?case by simp
qed simp

lemma in_word_takeWhile:
  "list_all in_word w \<Longrightarrow> takeWhile (\<lambda>c. c \<noteq> 10) (w @ r) = w @ takeWhile (\<lambda>c. c \<noteq> 10) r"
  "list_all in_word w \<Longrightarrow> takeWhile (\<lambda>c. \<not> dns_hosts_iscom c) (w @ r) = w @ takeWhile (\<lambda>c. \<not> dns_hosts_iscom c) r"
  by (induction w) (auto simp: in_word_def)

lemma in_word_not_sep: "list_all in_word w \<Longrightarrow> \<forall>c \<in> set w. \<not> dns_hosts_issep c"
  by (auto simp: in_word_def list_all_iff)

lemma line_words_end:
  assumes "list_all in_word w" "rest = [] \<or> hd rest = 10 \<or> dns_hosts_iscom (hd rest)"
  shows "line_words (w @ rest) = (if w = [] then [] else [w])"
proof -
  have "takeWhile (\<lambda>c. \<not> dns_hosts_iscom c) (takeWhile (\<lambda>c. c \<noteq> 10) (w @ rest)) = w"
    using assms in_word_takeWhile [of w "[]"]
    by (cases rest) (auto simp: in_word_takeWhile takeWhile_eq_all_conv [THEN iffD2])
  then show ?thesis
    by (simp add: line_words_def hosts_words_def split_at_none in_word_not_sep [OF assms(1)])
qed

lemma line_words_sep:
  assumes "list_all in_word w" "c \<noteq> 10" "\<not> dns_hosts_iscom c" "\<not> in_word c"
  shows "line_words (w @ c # r) = (if w = [] then [] else [w]) @ line_words r"
proof -
  have "takeWhile (\<lambda>c. \<not> dns_hosts_iscom c) (takeWhile (\<lambda>c. c \<noteq> 10) (w @ c # r)) =
      w @ c # takeWhile (\<lambda>c. \<not> dns_hosts_iscom c) (takeWhile (\<lambda>c. c \<noteq> 10) r)"
    using assms by (simp add: in_word_takeWhile)
  moreover have "dns_hosts_issep c" using assms by (simp add: in_word_def)
  ultimately show ?thesis
    by (simp add: line_words_def hosts_words_def split_at_first in_word_not_sep [OF assms(1)])
qed

lemma next_line_in_word:
  "list_all in_word w \<Longrightarrow> next_line (w @ r) = next_line r" "list_all in_word w \<Longrightarrow> 10 \<in> set (w @ r) \<longleftrightarrow> 10 \<in> set r"
  by (induction w) (auto simp: next_line_def in_word_def)

lemma next_line_Cons: "next_line (c # r) = (if c = 10 then r else next_line r)" "next_line [] = []"
  by (simp_all add: next_line_def)

text \<open>One word: what is left of the line, and the words it had.\<close>

definition word_read :: "bytes \<Rightarrow> bytes \<Rightarrow> u8 option \<Rightarrow> bytes \<Rightarrow> bool \<Rightarrow> bool" where
  "word_read fp w ch fp' skip \<longleftrightarrow>
     (if ch = None \<or> ch = Some 10
      then fp' = next_line fp \<and> (ch = None) = (10 \<notin> set fp) \<and> line_words fp = (if w = [] then [] else [w])
      else \<not> skip \<and> length fp' < length fp \<and> next_line fp' = next_line fp \<and> (10 \<in> set fp') = (10 \<in> set fp) \<and>
        line_words fp = (if w = [] then [] else [w]) @ line_words fp')"

lemma hosts_word_step_app:
  assumes w: "list_all in_word w" and hd: "rest = [] \<or> \<not> in_word (hd rest)" and l: "length w \<le> 254"
  shows "\<exists>ch fp' skip. hosts_word (w @ rest) False (replicate 256 0) 0 = (ch, fp', skip, filled w, length w) \<and>
    word_read (w @ rest) w ch fp' skip \<and> set fp' \<subseteq> set rest"
proof -
  have start: "hosts_word (w @ rest) False (replicate 256 0) 0 = hosts_word rest False (filled w) (length w)"
    using hosts_word_reads [OF w, of "[]" rest] l by (simp add: filled_def [of "[]"])
  have line: "next_line (w @ rest) = next_line rest" "10 \<in> set (w @ rest) \<longleftrightarrow> 10 \<in> set rest"
    by (rule next_line_in_word [OF w])+
  show ?thesis
  proof (cases rest)
    case Nil
    show ?thesis
      unfolding start word_read_def line using line_words_end [OF w, of rest] Nil by (auto simp: next_line_Cons)
  next
    case (Cons c r)
    then have c: "\<not> in_word c" using hd by simp
    show ?thesis
    proof (cases "c = 10 \<or> dns_hosts_iscom c")
      case True
      have sub: "set (next_line r) \<subseteq> set r"
        by (auto simp: next_line_def dest: in_set_dropD set_dropWhileD)
      have lw: "line_words (w @ rest) = (if w = [] then [] else [w])"
        using line_words_end [OF w, of rest] Cons True by simp
      have "hosts_word rest False (filled w) (length w) = (if c = 10 \<or> 10 \<in> set r then Some 10 else None,
          next_line rest, c \<noteq> 10, filled w, length w)"
        using True by (auto simp: Cons next_line_Cons hosts_word_skips dns_hosts_iscom_def)
      moreover have "set (next_line rest) \<subseteq> set rest" using sub by (auto simp: Cons next_line_Cons)
      ultimately show ?thesis
        unfolding start word_read_def line lw by (auto simp: Cons)
    next
      case False
      have "hosts_word rest False (filled w) (length w) = (Some c, r, False, filled w, length w)"
        using False c by (simp add: Cons in_word_def)
      moreover have "line_words (w @ rest) = (if w = [] then [] else [w]) @ line_words r"
        using line_words_sep [OF w _ _ c, of r] Cons False by simp
      ultimately show ?thesis
        unfolding start word_read_def line using False by (auto simp: Cons next_line_Cons)
    qed
  qed
qed

lemma first_word_long: "list_all in_word w \<Longrightarrow> rest = [] \<or> \<not> in_word (hd rest) \<Longrightarrow> w \<noteq> [] \<Longrightarrow> w \<in> set (line_words (w @ rest))"
  using line_words_end [of w rest] line_words_sep [of w "hd rest" "tl rest"] by (cases rest) force+

lemma hosts_word_step:
  assumes len: "\<forall>w \<in> set (line_words fp). length w \<le> 254"
  shows "\<exists>w ch fp' skip. hosts_word fp False (replicate 256 0) 0 = (ch, fp', skip, filled w, length w) \<and>
    word_read fp w ch fp' skip \<and> length w \<le> 254 \<and> set w \<subseteq> set fp \<and> set fp' \<subseteq> set fp"
proof -
  define w rest where "w = takeWhile in_word fp" and "rest = dropWhile in_word fp"
  have fp: "w @ rest = fp" by (simp add: w_def rest_def)
  have w: "list_all in_word w" by (auto simp: w_def list_all_iff dest: set_takeWhileD)
  have hd: "rest = [] \<or> \<not> in_word (hd rest)" unfolding rest_def using hd_dropWhile by blast
  have l: "length w \<le> 254"
    using first_word_long [OF w hd] len unfolding fp by (cases "w = []") auto
  have "set w \<subseteq> set fp" "set rest \<subseteq> set fp" unfolding fp [symmetric] by auto
  with hosts_word_step_app [OF w hd l] l show ?thesis unfolding fp by fast
qed

section \<open>Storing entries\<close>

definition inet_ok :: "inet \<Rightarrow> bool" where
  "inet_ok N \<longleftrightarrow> (\<forall>s a. pton4 N s = Some a \<longrightarrow> a < 4294967296) \<and> (\<forall>s a. pton6 N s = Some a \<longrightarrow> length a = 16)"

definition addr_ok :: "dns_addr \<Rightarrow> bool" where
  "addr_ok addr = (case addr of AF_INET a \<Rightarrow> a < 4294967296 | AF_INET6 a \<Rightarrow> length a = 16 | AF_OTHER _ \<Rightarrow> False)"

lemma pton_addr_ok: "inet_ok N \<Longrightarrow> dns_inet_pton N v6 s = Some a \<Longrightarrow> addr_ok a"
  by (auto simp: inet_ok_def dns_inet_pton_def addr_ok_def split: if_splits)

lemma anchor_text:
  assumes "w \<noteq> []" "0 \<notin> set w" "length (anchored w) < length buf"
  shows "cstr (snd (dns_d_anchor buf w)) = anchored w"
proof -
  have "0 \<notin> set (anchored w)" using assms(2) by (simp add: anchored_def)
  then have "cstr (anchored w @ [0]) = anchored w" by simp
  then show ?thesis
    using assms cstr_label [of "anchored w" buf] by (simp add: dns_d_anchor_eq anchored_def Let_def)
qed

lemma arpa_stored:
  assumes "length abuf = 74"
  shows "cstr (snd (dns_a_arpa abuf a)) = a_arpa_text 4 a"
    and "length b = 16 \<Longrightarrow> cstr (snd (dns_aaaa_arpa abuf b)) = aaaa_arpa_text (rev b)"
proof -
  have pos: "0 < length abuf" using assms by simp
  show "cstr (snd (dns_a_arpa abuf a)) = a_arpa_text 4 a"
    using parpa.closep_text(2) [OF pos, of 4 a] a_arpa_text_ok [of 4 a] assms by (simp add: dns_a_arpa_def)
  show "cstr (snd (dns_aaaa_arpa abuf b)) = aaaa_arpa_text (rev b)" if "length b = 16"
    using parpa6.closep_text(2) [OF pos, of "rev b"] aaaa_arpa_text_ok [of "rev b"] assms that
    by (simp add: dns_aaaa_arpa_def)
qed

lemma length_anchor: "length (snd (dns_d_anchor buf w)) = length buf"
  by (simp add: dns_d_anchor_def Let_def)

lemma insert_stores:
  assumes m: "mallocs malloc" and a: "addr_ok addr" and w: "w \<noteq> []" "0 \<notin> set w" "length w \<le> 254" and b: "length buf = 256"
  shows "\<exists>e. dns_hosts_insert malloc H addr (snd (dns_d_anchor buf w)) alias = (None, H\<lparr>entries := entries H @ [e]\<rparr>) \<and>
    entry_view e = (anchored w, arpa_text addr, addr, alias)"
proof -
  obtain h ab where h: "malloc (length (entries H)) = Inr (h, ab)" "length h = 256" "length ab = 74"
    using m unfolding mallocs_def by blast
  have l: "length (anchored w) < 256" using w by (simp add: anchored_def)
  have t: "cstr (snd (dns_d_anchor buf w)) = anchored w" using anchor_text [OF w(1,2)] l b by simp
  have idem: "anchored (anchored w) = anchored w" by (simp add: anchored_def)
  have "cstr (snd (dns_d_anchor h (anchored w))) = anchored w"
    using anchor_text [of "anchored w" h] w l h(2) idem by (simp add: anchored_def)
  then show ?thesis
    using a h arpa_stored [OF h(3)]
    by (cases addr) (auto simp: dns_hosts_insert_def t entry_view_def arpa_text_def addr_ok_def Let_def)
qed

section \<open>Reading lines\<close>

lemma cstr_filled: "0 \<notin> set w \<Longrightarrow> length w \<le> 255 \<Longrightarrow> cstr (filled w) = w"
proof -
  assume a: "0 \<notin> set w" "length w \<le> 255"
  then have "256 - length w = Suc (255 - length w)" by simp
  then show ?thesis using a by (simp add: filled_def)
qed

lemma rdn_filled: "length w \<le> 255 \<Longrightarrow> rdn (filled w) 0 (length w) = Some w"
  by (simp add: rdn_def filled_def)

definition line_done :: "hosts_line \<Rightarrow> host_view list \<Rightarrow> dns_error option \<times> bool \<times> hosts_line \<Rightarrow> bool" where
  "line_done s vs = (\<lambda>(err, eof, s'). err = None \<and> eof = (10 \<notin> set (l_fp s)) \<and> l_fp s' = next_line (l_fp s) \<and>
     hosts_refcount (l_hosts s') = hosts_refcount (l_hosts s) \<and>
     map entry_view (entries (l_hosts s')) = map entry_view (entries (l_hosts s)) @ vs)"

lemma line_skipped:
  assumes "l_skip s"
  shows "\<exists>r. loop (hosts_line_body N malloc) s = Some r \<and> line_done s [] r"
proof -
  let ?s = "s\<lparr>l_fp := next_line (l_fp s), l_skip := True\<rparr>"
  have "hosts_line_body N malloc s = Some (Inr (None, 10 \<notin> set (l_fp s), ?s))"
    using assms by (simp add: hosts_line_body_def hosts_word_skips hosts_use_word_def)
  then have "loop (hosts_line_body N malloc) s = Some (None, 10 \<notin> set (l_fp s), ?s)"
    by (rule loop_done)
  then show ?thesis by (simp add: line_done_def)
qed

text \<open>A line whose address is known.\<close>

definition naming :: "hosts_line \<Rightarrow> bool" where
  "naming s \<longleftrightarrow> addr_ok (l_addr s) \<and> 0 < l_wc s \<and> \<not> l_skip s \<and> length (l_host s) = 256 \<and> 0 \<notin> set (l_fp s) \<and>
     (\<forall>w \<in> set (line_words (l_fp s)). length w \<le> 254)"

lemma use_name:
  assumes m: "mallocs malloc" and s: "naming s" and w: "0 \<notin> set w" "length w \<le> 254"
  shows "\<exists>H. hosts_use_word N malloc (filled w) (length w) (s\<lparr>l_fp := fp', l_skip := skip\<rparr>) =
      Some (None, if w = [] then s\<lparr>l_fp := fp', l_skip := skip\<rparr>
                  else s\<lparr>l_fp := fp', l_skip := skip, l_wc := l_wc s + 1, l_host := snd (dns_d_anchor (l_host s) w), l_hosts := H\<rparr>) \<and>
    (w = [] \<longrightarrow> H = l_hosts s) \<and> hosts_refcount H = hosts_refcount (l_hosts s) \<and>
    map entry_view (entries H) = map entry_view (entries (l_hosts s)) @
      (if w = [] then [] else [(anchored w, arpa_text (l_addr s), l_addr s, 1 < l_wc s)])"
proof (cases "w = []")
  case True
  then show ?thesis by (simp add: hosts_use_word_def)
next
  case False
  then obtain e where
    "dns_hosts_insert malloc (l_hosts s) (l_addr s) (snd (dns_d_anchor (l_host s) w)) (1 < l_wc s) =
       (None, (l_hosts s)\<lparr>entries := entries (l_hosts s) @ [e]\<rparr>)"
    "entry_view e = (anchored w, arpa_text (l_addr s), l_addr s, 1 < l_wc s)"
    using insert_stores [OF m _ False w] s unfolding naming_def by blast
  then show ?thesis
    using False s w
    by (intro exI [of _ "(l_hosts s)\<lparr>entries := entries (l_hosts s) @ [e]\<rparr>"])
      (simp add: hosts_use_word_def rdn_filled naming_def)
qed

lemma line_names:
  assumes m: "mallocs malloc" and "naming s"
  shows "\<exists>r. loop (hosts_line_body N malloc) s = Some r \<and>
    line_done s (name_entries (l_addr s) (1 < l_wc s) (line_words (l_fp s))) r"
  using assms(2)
proof (induction "length (l_fp s)" arbitrary: s rule: less_induct)
  case less
  let ?f = "hosts_line_body N malloc"
  obtain w ch fp' skip where w: "hosts_word (l_fp s) False (replicate 256 0) 0 = (ch, fp', skip, filled w, length w)"
    and rd: "word_read (l_fp s) w ch fp' skip" and l: "length w \<le> 254" and sub: "set w \<subseteq> set (l_fp s)" "set fp' \<subseteq> set (l_fp s)"
    using hosts_word_step [of "l_fp s"] less.prems unfolding naming_def by blast
  have nz: "0 \<notin> set w" "0 \<notin> set fp'" using sub less.prems by (auto simp: naming_def)
  obtain H where H: "hosts_refcount H = hosts_refcount (l_hosts s)" "w = [] \<longrightarrow> H = l_hosts s"
    "map entry_view (entries H) = map entry_view (entries (l_hosts s)) @
      (if w = [] then [] else [(anchored w, arpa_text (l_addr s), l_addr s, 1 < l_wc s)])"
    and use: "hosts_use_word N malloc (filled w) (length w) (s\<lparr>l_fp := fp', l_skip := skip\<rparr>) =
      Some (None, if w = [] then s\<lparr>l_fp := fp', l_skip := skip\<rparr>
                  else s\<lparr>l_fp := fp', l_skip := skip, l_wc := l_wc s + 1, l_host := snd (dns_d_anchor (l_host s) w), l_hosts := H\<rparr>)"
    using use_name [OF m less.prems nz(1) l, where N = N and fp' = fp' and skip = skip] by blast
  define s1 where "s1 = (if w = [] then s\<lparr>l_fp := fp', l_skip := skip\<rparr>
     else s\<lparr>l_fp := fp', l_skip := skip, l_wc := l_wc s + 1, l_host := snd (dns_d_anchor (l_host s) w), l_hosts := H\<rparr>)"
  have s1: "l_fp s1 = fp'" "l_skip s1 = skip" "l_addr s1 = l_addr s" "length (l_host s1) = length (l_host s)"
    "l_wc s1 = (if w = [] then l_wc s else l_wc s + 1)" "l_hosts s1 = H"
    using H(2) by (simp_all add: s1_def length_anchor)
  have body: "?f s = Some (if ch = None \<or> ch = Some 10 then Inr (None, ch = None, s1) else Inl s1)"
    using less.prems use by (simp add: hosts_line_body_def w naming_def s1_def [symmetric])
  show ?case
  proof (cases "ch = None \<or> ch = Some 10")
    case True
    then have "loop ?f s = Some (None, ch = None, s1)"
      using body by (intro loop_done) simp
    then show ?thesis using True rd H by (auto simp: line_done_def word_read_def s1)
  next
    case False
    then have lw: "line_words (l_fp s) = (if w = [] then [] else [w]) @ line_words fp'" and
      fp': "\<not> skip" "length fp' < length (l_fp s)" "next_line fp' = next_line (l_fp s)" "(10 \<in> set fp') = (10 \<in> set (l_fp s))"
      using rd by (simp_all add: word_read_def)
    have "naming s1" using less.prems nz lw fp'(1) by (auto simp: naming_def s1)
    then obtain r where r: "loop ?f s1 = Some r"
      "line_done s1 (name_entries (l_addr s) (1 < l_wc s1) (line_words fp')) r"
      using less.hyps [of s1] fp'(2) by (auto simp: s1)
    have "1 < l_wc s + 1" using less.prems by (simp add: naming_def)
    then have "line_done s (name_entries (l_addr s) (1 < l_wc s) (line_words (l_fp s))) r"
      using r(2) H fp' unfolding line_done_def lw by (auto simp: s1 split: prod.splits)
    then show ?thesis using r(1) loop_next [of ?f s s1] body False by simp
  qed
qed

lemma line_reads:
  assumes m: "mallocs malloc" and N: "inet_ok N"
    and "l_wc s = 0" "\<not> l_skip s" "length (l_host s) = 256" "0 \<notin> set (l_fp s)"
    and "\<forall>w \<in> set (line_words (l_fp s)). length w \<le> 254"
  shows "\<exists>r. loop (hosts_line_body N malloc) s = Some r \<and> line_done s (line_entries N (line_words (l_fp s))) r"
  using assms(3-)
proof (induction "length (l_fp s)" arbitrary: s rule: less_induct)
  case less
  let ?f = "hosts_line_body N malloc"
  obtain w ch fp' skip where w: "hosts_word (l_fp s) False (replicate 256 0) 0 = (ch, fp', skip, filled w, length w)"
    and rd: "word_read (l_fp s) w ch fp' skip" and l: "length w \<le> 254" and sub: "set w \<subseteq> set (l_fp s)" "set fp' \<subseteq> set (l_fp s)"
    using hosts_word_step [OF less.prems(5)] by blast
  have nz: "0 \<notin> set w" "0 \<notin> set fp'" using sub less.prems(4) by auto
  have c: "cstr (filled w) = w" using cstr_filled [OF nz(1)] l by simp
  let ?a = "dns_inet_pton N (58 \<in> set w) w"
  define s1 where "s1 = (if w = [] then s\<lparr>l_fp := fp', l_skip := skip\<rparr>
     else case ?a of Some a \<Rightarrow> s\<lparr>l_fp := fp', l_wc := 1, l_addr := a, l_skip := False\<rparr>
          | None \<Rightarrow> s\<lparr>l_fp := fp', l_wc := 1, l_skip := True\<rparr>)"
  have s1: "l_fp s1 = fp'" "l_hosts s1 = l_hosts s" "length (l_host s1) = 256"
    using less.prems(3) by (auto simp: s1_def split: option.splits)
  have body: "?f s = Some (if ch = None \<or> ch = Some 10 then Inr (None, ch = None, s1) else Inl s1)"
    using less.prems(1,2) c by (auto simp: hosts_line_body_def w hosts_use_word_def s1_def split: option.splits)
  show ?case
  proof (cases "ch = None \<or> ch = Some 10")
    case True
    then have "loop ?f s = Some (None, ch = None, s1)"
      using body by (intro loop_done) simp
    moreover have "line_entries N (line_words (l_fp s)) = []"
      using True rd by (auto simp: word_read_def line_entries_def split: option.splits)
    ultimately show ?thesis using True rd by (auto simp: line_done_def word_read_def s1)
  next
    case False
    then have lw: "line_words (l_fp s) = (if w = [] then [] else [w]) @ line_words fp'" and
      fp': "\<not> skip" "length fp' < length (l_fp s)" "next_line fp' = next_line (l_fp s)" "(10 \<in> set fp') = (10 \<in> set (l_fp s))"
      using rd by (simp_all add: word_read_def)
    have len: "\<forall>w \<in> set (line_words fp'). length w \<le> 254" using less.prems(5) by (auto simp: lw)
    have "\<exists>r. loop ?f s1 = Some r \<and> line_done s1 (line_entries N (line_words (l_fp s))) r"
    proof (cases "w = []")
      case True
      then have "l_wc s1 = 0" "\<not> l_skip s1" using less.prems(1) fp'(1) by (simp_all add: s1_def)
      then show ?thesis using less.hyps [of s1] fp'(2) s1 nz len lw True by simp
    next
      case w: False
      show ?thesis
      proof (cases ?a)
        case None
        then show ?thesis
          using line_skipped [of s1 N malloc] w by (simp add: s1_def lw line_entries_def)
      next
        case (Some a)
        then have "naming s1"
          using w nz len pton_addr_ok [OF N Some] less.prems(3) by (simp add: naming_def s1_def)
        then show ?thesis
          using line_names [OF m, of s1 N] w Some by (simp add: s1_def lw line_entries_def)
      qed
    qed
    then obtain r where r: "loop ?f s1 = Some r" "line_done s1 (line_entries N (line_words (l_fp s))) r" by blast
    have "line_done s (line_entries N (line_words (l_fp s))) r"
      using r(2) fp' unfolding line_done_def by (auto simp: s1 split: prod.splits)
    then show ?thesis using r(1) loop_next [of ?f s s1] body False by simp
  qed
qed

section \<open>Loading implements the grammar\<close>

definition file_entries :: "inet \<Rightarrow> bytes \<Rightarrow> host_view list" where
  "file_entries N fp = concat (map (\<lambda>line. line_entries N (hosts_words line)) (split_at (\<lambda>c. c = 10) fp))"

lemma hosts_words_line:
  assumes "10 \<notin> set line"
  shows "line_words line = hosts_words line"
proof -
  have "takeWhile (\<lambda>c. c \<noteq> 10) line = line" using assms by (induction line) auto
  then show ?thesis unfolding line_words_def by (rule arg_cong)
qed

lemma file_entries_lines:
  "file_entries N fp = line_entries N (line_words fp) @ (if 10 \<in> set fp then file_entries N (next_line fp) else [])"
  using split_at_lines [of fp] hosts_words_line [of fp]
  by (auto simp: file_entries_def) (simp add: line_words_def)

lemma words_ok_lines:
  assumes "words_ok fp"
  shows "0 \<notin> set fp" "\<forall>w \<in> set (line_words fp). length w \<le> 254" "10 \<in> set fp \<Longrightarrow> words_ok (next_line fp)"
proof -
  show "0 \<notin> set fp" using assms by (simp add: words_ok_def)
  show "\<forall>w \<in> set (line_words fp). length w \<le> 254"
    using assms split_at_lines [of fp] hosts_words_line [of fp]
    by (cases "10 \<in> set fp") (auto simp: words_ok_def line_words_def)
  assume "10 \<in> set fp"
  moreover have "set (next_line fp) \<subseteq> set fp"
    by (auto simp: next_line_def dest: in_set_dropD set_dropWhileD)
  ultimately show "words_ok (next_line fp)"
    using assms split_at_lines [of fp] by (auto simp: words_ok_def)
qed

lemma length_next_line: "10 \<in> set fp \<Longrightarrow> length (next_line fp) < length fp"
  by (induction fp) (auto simp: next_line_Cons)

lemma loadfile_reads:
  assumes m: "mallocs malloc" and N: "inet_ok N" and fp: "words_ok fp"
  shows "\<exists>H'. dns_hosts_loadfile N malloc H fp = Some (None, H') \<and> hosts_refcount H' = hosts_refcount H \<and>
    map entry_view (entries H') = map entry_view (entries H) @ file_entries N fp"
  using fp
proof (induction "length fp" arbitrary: fp H rule: less_induct)
  case less
  let ?f = "hosts_file_body N malloc"
  let ?s = "hosts_new_line fp H"
  note ok = words_ok_lines [OF less.prems]
  obtain err eof s' where r: "loop (hosts_line_body N malloc) ?s = Some (err, eof, s')"
    "line_done ?s (line_entries N (line_words fp)) (err, eof, s')"
    using line_reads [OF m N, of ?s] ok by (auto simp: hosts_new_line_def)
  have d: "err = None" "eof = (10 \<notin> set fp)" "l_fp s' = next_line fp" "hosts_refcount (l_hosts s') = hosts_refcount H"
    "map entry_view (entries (l_hosts s')) = map entry_view (entries H) @ line_entries N (line_words fp)"
    using r(2) by (simp_all add: line_done_def hosts_new_line_def)
  have body: "?f (fp, H) = Some (if 10 \<in> set fp then Inl (next_line fp, l_hosts s') else Inr (None, l_hosts s'))"
    using d(1-3) by (simp add: hosts_file_body_def r(1))
  show ?case
  proof (cases "10 \<in> set fp")
    case True
    have "dns_hosts_loadfile N malloc H fp = dns_hosts_loadfile N malloc (l_hosts s') (next_line fp)"
      unfolding dns_hosts_loadfile_def using body True by (intro loop_next) simp
    moreover note less.hyps [OF length_next_line [OF True] ok(3) [OF True], of "l_hosts s'"]
    ultimately show ?thesis using d True file_entries_lines [of N fp] by simp
  next
    case False
    then have "dns_hosts_loadfile N malloc H fp = Some (None, l_hosts s')"
      unfolding dns_hosts_loadfile_def using body by (intro loop_done) simp
    then show ?thesis using d False file_entries_lines [of N fp] by simp
  qed
qed

text \<open>C14: \<open>dns_hosts_loadfile\<close> implements the grammar of a hosts file. It returns, reads inside its
  buffers, and appends, line by line and in the order of the file, one entry for every name: the
  text of a line up to a comment is split into words at white space; the first word is the address,
  and a line whose address \<open>inet_pton\<close> does not accept adds nothing; every other word gives an
  entry with the anchored name, the reverse name of the address and the address, marked as an alias
  from the second name on.\<close>
theorem dns_hosts_loadfile_spec:
  assumes "mallocs malloc" "inet_ok N" "words_ok fp"
  shows "\<exists>H'. dns_hosts_loadfile N malloc H fp = Some (None, H') \<and> hosts_refcount H' = hosts_refcount H \<and>
    map entry_view (entries H') = map entry_view (entries H) @
      concat (map (\<lambda>line. line_entries N (hosts_words line)) (split_at (\<lambda>c. c = 10) fp))"
  using loadfile_reads [OF assms] by (simp add: file_entries_def)

theorem dns_hosts_loadfile_spec_witness:
  "let N = \<lparr>pton4 = (\<lambda>s. if s = str ''::'' then None else Some 16909060), pton6 = (\<lambda>s. None)\<rparr>;
       malloc = (\<lambda>n. Inr (replicate 256 0, replicate 74 0));
       fp = str ''1.2.3.4 a b. # c'' @ [10] @ str '':: x''
   in words_ok fp \<and>
      (\<exists>H'. dns_hosts_loadfile N malloc \<lparr>entries = [], hosts_refcount = 1\<rparr> fp = Some (None, H') \<and>
        map (\<lambda>e. (cstr (ent_host e), ent_alias e)) (entries H') = [(str ''a.'', False), (str ''b.'', True)])"
proof -
  define N where "N = \<lparr>pton4 = (\<lambda>s. if s = str ''::'' then None else Some 16909060), pton6 = (\<lambda>s. None :: bytes option)\<rparr>"
  define fp where "fp = str ''1.2.3.4 a b. # c'' @ [10] @ str '':: x''"
  define malloc where "malloc = (\<lambda>n :: nat. Inr (replicate 256 (0 :: u8), replicate 74 (0 :: u8)) :: nat + (bytes \<times> bytes))"
  have m: "mallocs malloc" "inet_ok N" by (simp_all add: mallocs_def malloc_def inet_ok_def N_def)
  have sp: "split_at (\<lambda>c. c = 10) fp = [str ''1.2.3.4 a b. # c'', str '':: x'']"
    "map hosts_words [str ''1.2.3.4 a b. # c'', str '':: x''] = [[str ''1.2.3.4'', str ''a'', str ''b.''], [str ''::'', str ''x'']]"
    "0 \<notin> set fp" "58 \<notin> set (str ''1.2.3.4'')" "58 \<in> set (str ''::'')" "str ''1.2.3.4'' \<noteq> str ''::''"
    "anchored (str ''a'') = str ''a.''" "anchored (str ''b.'') = str ''b.''"
    unfolding fp_def by code_simp+
  have wok: "words_ok fp" using sp by (simp add: words_ok_def str_def)
  obtain H' where H': "dns_hosts_loadfile N malloc \<lparr>entries = [], hosts_refcount = 1\<rparr> fp = Some (None, H')"
    "map entry_view (entries H') = concat (map (\<lambda>line. line_entries N (hosts_words line)) (split_at (\<lambda>c. c = 10) fp))"
    using dns_hosts_loadfile_spec [OF m wok, of "\<lparr>entries = [], hosts_refcount = 1\<rparr>"] by auto
  have "map (\<lambda>(h, r, a, al). (h, al)) (map entry_view (entries H')) = [(str ''a.'', False), (str ''b.'', True)]"
    unfolding H'(2) using sp by (simp add: line_entries_def dns_inet_pton_def N_def)
  then have "map (\<lambda>e. (cstr (ent_host e), ent_alias e)) (entries H') = [(str ''a.'', False), (str ''b.'', True)]"
    by (simp add: entry_view_def comp_def)
  with H'(1) wok show ?thesis
    unfolding Let_def N_def [symmetric] fp_def [symmetric] malloc_def [symmetric] by (intro conjI exI [of _ H'])
qed

end
