(* ===== verification/Dns_Resconf.thy ===== *)
theory Dns_Resconf
  imports Dns_Hosts
begin

unbundle bit_operations_syntax

text \<open>
  The resolver configuration of \<^verbatim>\<open>src/src/c/dns/libdns/dns.c\<close>: its defaults, the
  parser of \<open>/etc/resolv.conf\<close>, and \<open>dns_resconf_search\<close>, which makes one name to try
  after the other out of a name and the search list. A file is its bytes; \<open>inet_pton\<close> and
  \<open>gethostname\<close> of the system are arguments. The array of words of a line is one buffer of
  \<open>6 * 256\<close> bytes, as in memory, so that a word without a closing NUL runs into the next one.
\<close>

section \<open>The configuration\<close>

record sockaddr =
  sa_addr :: dns_addr
  sa_port :: nat

datatype dns_resconf_tcp = DNS_RESCONF_TCP_ENABLE | DNS_RESCONF_TCP_ONLY | DNS_RESCONF_TCP_DISABLE

record dns_resolv_conf =
  nameserver :: "sockaddr list"
  search :: "bytes list"
  lookup :: bytes
  edns0 :: bool
  ndots :: nat
  timeout :: nat
  attempts :: nat
  rotate :: bool
  recurse :: bool
  smart :: bool
  tcp :: dns_resconf_tcp
  iface :: sockaddr
  resconf_refcount :: dns_atomic_t

definition no_sockaddr :: sockaddr where
  "no_sockaddr = \<lparr>sa_addr = AF_OTHER 0, sa_port = 0\<rparr>"

definition dns_resconf_acquire :: "dns_resolv_conf \<Rightarrow> u32 \<times> dns_resolv_conf" where
  "dns_resconf_acquire rc =
     (let (old, n) = dns_atomic_inc (resconf_refcount rc) in (old, rc\<lparr>resconf_refcount := n\<rparr>))"

definition dns_resconf_release :: "dns_resolv_conf \<Rightarrow> u32 \<times> dns_resolv_conf" where
  "dns_resconf_release rc =
     (let (old, n) = dns_atomic_dec (resconf_refcount rc) in (old, rc\<lparr>resconf_refcount := n\<rparr>))"

definition dns_resconf_close :: "dns_resolv_conf option \<Rightarrow> dns_resolv_conf option" where
  "dns_resconf_close resconf =
     (case resconf of
        None \<Rightarrow> None
      | Some rc \<Rightarrow> (let (old, rc) = dns_resconf_release rc in if old \<noteq> 1 then Some rc else None))"

definition dns_resconf_mortal :: "dns_resolv_conf option \<Rightarrow> dns_resolv_conf option" where
  "dns_resconf_mortal resconf = map_option (\<lambda>rc. snd (dns_resconf_release rc)) resconf"

text \<open>\<open>oom\<close> is the error number of a failed \<open>malloc\<close>; \<open>gethostname\<close> an error number or the
  256 bytes it leaves in the buffer.\<close>

definition dns_resconf_open :: "nat option \<Rightarrow> nat + bytes \<Rightarrow> dns_error + dns_resolv_conf" where
  "dns_resconf_open oom gethostname =
     (case (oom, gethostname) of
        (Some e, _) \<Rightarrow> Inl (SYS e)
      | (None, Inl e) \<Rightarrow> Inl (SYS e)
      | (None, Inr name) \<Rightarrow>
          let name = snd (dns_d_anchor name (cstr name));
              name = snd (dns_d_cleave name (cstr name));
              rc = \<lparr>nameserver = [\<lparr>sa_addr = AF_INET 0, sa_port = 53\<rparr>, no_sockaddr, no_sockaddr],
                    search = name # replicate 3 (replicate 256 0), lookup = str ''bf'' @ [0],
                    edns0 = False, ndots = 1, timeout = 5, attempts = 2, rotate = False, recurse = False,
                    smart = False, tcp = DNS_RESCONF_TCP_ENABLE,
                    iface = \<lparr>sa_addr = AF_INET 0, sa_port = 0\<rparr>, resconf_refcount = 0\<rparr>
          in Inr (snd (dns_resconf_acquire rc)))"

section \<open>Keywords\<close>

datatype dns_resconf_keyword = DNS_RESCONF_NAMESERVER | DNS_RESCONF_DOMAIN | DNS_RESCONF_SEARCH | DNS_RESCONF_LOOKUP
  | DNS_RESCONF_FILE | DNS_RESCONF_BIND | DNS_RESCONF_CACHE | DNS_RESCONF_OPTIONS | DNS_RESCONF_EDNS0 | DNS_RESCONF_NDOTS
  | DNS_RESCONF_TIMEOUT | DNS_RESCONF_ATTEMPTS | DNS_RESCONF_ROTATE | DNS_RESCONF_RECURSE | DNS_RESCONF_SMART | DNS_RESCONF_TCP
  | DNS_RESCONF_TCPx | DNS_RESCONF_INTERFACE | DNS_RESCONF_ZERO | DNS_RESCONF_ONE | DNS_RESCONF_ENABLE | DNS_RESCONF_ONLY
  | DNS_RESCONF_DISABLE

definition resconf_words :: "(string \<times> dns_resconf_keyword) list" where
  "resconf_words =
     [(''nameserver'', DNS_RESCONF_NAMESERVER), (''domain'', DNS_RESCONF_DOMAIN), (''search'', DNS_RESCONF_SEARCH),
      (''lookup'', DNS_RESCONF_LOOKUP), (''file'', DNS_RESCONF_FILE), (''bind'', DNS_RESCONF_BIND), (''cache'', DNS_RESCONF_CACHE),
      (''options'', DNS_RESCONF_OPTIONS), (''edns0'', DNS_RESCONF_EDNS0), (''rotate'', DNS_RESCONF_ROTATE),
      (''recurse'', DNS_RESCONF_RECURSE), (''smart'', DNS_RESCONF_SMART), (''tcp'', DNS_RESCONF_TCP),
      (''interface'', DNS_RESCONF_INTERFACE), (''0'', DNS_RESCONF_ZERO), (''1'', DNS_RESCONF_ONE),
      (''enable'', DNS_RESCONF_ENABLE), (''only'', DNS_RESCONF_ONLY), (''disable'', DNS_RESCONF_DISABLE)]"

text \<open>\<open>strncasecmp\<close> with the length of the literal.\<close>

definition has_prefix :: "bytes \<Rightarrow> string \<Rightarrow> bool" where
  "has_prefix word s = (casecmp (take (length s) word) (str s) = 0)"

definition dns_resconf_keyword :: "bytes \<Rightarrow> dns_resconf_keyword option" where
  "dns_resconf_keyword word =
     (case find (\<lambda>(s, k). casecmp (str s) word = 0) resconf_words of
        Some (s, k) \<Rightarrow> Some k
      | None \<Rightarrow>
          if has_prefix word ''ndots:'' then Some DNS_RESCONF_NDOTS
          else if has_prefix word ''timeout:'' then Some DNS_RESCONF_TIMEOUT
          else if has_prefix word ''attempts:'' then Some DNS_RESCONF_ATTEMPTS
          else if has_prefix word ''tcp:'' then Some DNS_RESCONF_TCPx
          else None)"

section \<open>Addresses and numbers\<close>

definition c_isdigit :: "u8 \<Rightarrow> bool" where
  "c_isdigit c = (48 \<le> c \<and> c \<le> 57)"

text \<open>The digits after the bracket; other characters are passed over. \<open>port\<close> is an unsigned short.\<close>

fun pton_port :: "bytes \<Rightarrow> nat \<Rightarrow> nat" where
  "pton_port [] prt = prt"
| "pton_port (ch # src) prt =
     pton_port src (if c_isdigit ch then u16 (u16 (prt * 10) + (unat ch - 48)) else prt)"

fun pton_scan :: "bytes \<Rightarrow> bytes \<Rightarrow> bool \<Rightarrow> bytes \<times> bool \<times> nat" where
  "pton_scan [] buf v6 = (buf, v6, 0)"
| "pton_scan (ch # src) buf v6 =
     (if ch = 32 \<or> ch = 9 \<or> ch = 91 then pton_scan src buf v6
      else if ch = 93 then (buf, v6, pton_port src 0)
      else pton_scan src (if length buf < 127 then buf @ [ch] else buf) (v6 \<or> ch = 58))"

definition dns_pton :: "inet \<Rightarrow> bool \<Rightarrow> bytes \<Rightarrow> dns_error + dns_addr" where
  "dns_pton N v6 s = (case dns_inet_pton N v6 s of Some a \<Rightarrow> Inr a | None \<Rightarrow> Inl DNS_EADDRESS)"

definition dns_resconf_pton :: "inet \<Rightarrow> bytes \<Rightarrow> dns_error + sockaddr" where
  "dns_resconf_pton N src =
     (let (buf, v6, prt) = pton_scan src [] False
      in map_sum id (\<lambda>a. \<lparr>sa_addr = a, sa_port = (if prt = 0 then 53 else prt)\<rparr>) (dns_pton N v6 buf))"

definition dns_resconf_setiface :: "inet \<Rightarrow> dns_resolv_conf \<Rightarrow> bytes \<Rightarrow> nat \<Rightarrow> dns_error option \<times> dns_resolv_conf" where
  "dns_resconf_setiface N rc addr prt =
     (case dns_pton N (58 \<in> set addr) addr of
        Inl e \<Rightarrow> (Some e, rc)
      | Inr a \<Rightarrow> (None, rc\<lparr>iface := \<lparr>sa_addr = a, sa_port = prt\<rparr>\<rparr>))"

text \<open>\<open>n *= 10; n += c - '0'\<close> over the leading digits, in an \<open>unsigned\<close>.\<close>

definition resconf_number :: "bytes \<Rightarrow> nat" where
  "resconf_number s = foldl (\<lambda>n c. (n * 10 + (unat c - 48)) mod 4294967296) 0 (takeWhile c_isdigit s)"

section \<open>Loading a file\<close>

definition dns_resconf_issep :: "u8 \<Rightarrow> bool" where
  "dns_resconf_issep c = (c_isspace c \<or> c = 44)"

definition dns_resconf_iscom :: "u8 \<Rightarrow> bool" where
  "dns_resconf_iscom c = (c = 35 \<or> c = 59)"

definition skip_line :: "bytes \<Rightarrow> u8 option \<times> bytes" where
  "skip_line fp = (case dropWhile (\<lambda>c. c \<noteq> 10) fp of [] \<Rightarrow> (None, []) | c # r \<Rightarrow> (Some c, r))"

text \<open>The loop over a line: the last character read, the rest of the file, \<open>words\<close>, \<open>wp\<close>, \<open>wc\<close>. A
  store outside of \<open>words\<close> is undefined.\<close>

fun resconf_line :: "bytes \<Rightarrow> bytes \<Rightarrow> nat \<Rightarrow> nat \<Rightarrow> (u8 option \<times> bytes \<times> bytes \<times> nat \<times> nat) option" where
  "resconf_line [] words wp wc = Some (None, [], words, wp, wc)"
| "resconf_line (ch # fp) words wp wc =
     (if ch = 10 then Some (Some ch, fp, words, wp, wc)
      else if dns_resconf_issep ch then
        if 0 < wp then
          if 6 \<le> wc + 1 then (let (ch, fp) = skip_line fp in Some (ch, fp, words, 0, wc + 1))
          else resconf_line fp words 0 (wc + 1)
        else resconf_line fp words wp wc
      else if dns_resconf_iscom ch then (let (ch, fp) = skip_line fp in Some (ch, fp, words, wp, wc))
      else do {
        words \<leftarrow> (if wp < 256 then wr words (256 * wc + wp) ch else Some words);
        resconf_line fp words (wp + 1) wc
      })"

definition word_at :: "bytes \<Rightarrow> nat \<Rightarrow> bytes option" where
  "word_at words i = (if 0 \<in> set (drop (256 * i) words) then Some (cstr (drop (256 * i) words)) else None)"

definition words_from :: "bytes \<Rightarrow> nat \<Rightarrow> nat \<Rightarrow> bytes list option" where
  "words_from words i wc = those (map (word_at words) [i..<wc])"

fun resconf_search_list :: "bytes list \<Rightarrow> bytes list \<Rightarrow> bytes list" where
  "resconf_search_list (s # ss) (w # ws) = snd (dns_d_anchor s w) # resconf_search_list ss ws"
| "resconf_search_list ss ws = ss"

fun resconf_lookup :: "bytes list \<Rightarrow> nat \<Rightarrow> bytes \<Rightarrow> bytes option" where
  "resconf_lookup [] j lk = Some lk"
| "resconf_lookup (w # ws) j lk =
     (if j < length lk then
        case dns_resconf_keyword w of
          Some DNS_RESCONF_FILE \<Rightarrow> do { lk \<leftarrow> wr lk j 102; resconf_lookup ws (j + 1) lk }
        | Some DNS_RESCONF_BIND \<Rightarrow> do { lk \<leftarrow> wr lk j 98; resconf_lookup ws (j + 1) lk }
        | Some DNS_RESCONF_CACHE \<Rightarrow> do { lk \<leftarrow> wr lk j 99; resconf_lookup ws (j + 1) lk }
        | _ \<Rightarrow> resconf_lookup ws j lk
      else Some lk)"

definition resconf_tcp :: "bytes \<Rightarrow> dns_resolv_conf \<Rightarrow> dns_resolv_conf" where
  "resconf_tcp w rc =
     (case dns_resconf_keyword w of
        Some DNS_RESCONF_ENABLE \<Rightarrow> rc\<lparr>tcp := DNS_RESCONF_TCP_ENABLE\<rparr>
      | Some DNS_RESCONF_ONE \<Rightarrow> rc\<lparr>tcp := DNS_RESCONF_TCP_ONLY\<rparr>
      | Some DNS_RESCONF_ONLY \<Rightarrow> rc\<lparr>tcp := DNS_RESCONF_TCP_ONLY\<rparr>
      | Some DNS_RESCONF_ZERO \<Rightarrow> rc\<lparr>tcp := DNS_RESCONF_TCP_DISABLE\<rparr>
      | Some DNS_RESCONF_DISABLE \<Rightarrow> rc\<lparr>tcp := DNS_RESCONF_TCP_DISABLE\<rparr>
      | _ \<Rightarrow> rc)"

definition resconf_option :: "bytes \<Rightarrow> dns_resolv_conf \<Rightarrow> dns_resolv_conf" where
  "resconf_option w rc =
     (case dns_resconf_keyword w of
        Some DNS_RESCONF_EDNS0 \<Rightarrow> rc\<lparr>edns0 := True\<rparr>
      | Some DNS_RESCONF_NDOTS \<Rightarrow> rc\<lparr>ndots := resconf_number (drop 6 w)\<rparr>
      | Some DNS_RESCONF_TIMEOUT \<Rightarrow> rc\<lparr>timeout := resconf_number (drop 8 w)\<rparr>
      | Some DNS_RESCONF_ATTEMPTS \<Rightarrow> rc\<lparr>attempts := resconf_number (drop 9 w)\<rparr>
      | Some DNS_RESCONF_ROTATE \<Rightarrow> rc\<lparr>rotate := True\<rparr>
      | Some DNS_RESCONF_RECURSE \<Rightarrow> rc\<lparr>recurse := True\<rparr>
      | Some DNS_RESCONF_SMART \<Rightarrow> rc\<lparr>smart := True\<rparr>
      | Some DNS_RESCONF_TCP \<Rightarrow> rc\<lparr>tcp := DNS_RESCONF_TCP_ONLY\<rparr>
      | Some DNS_RESCONF_TCPx \<Rightarrow> resconf_tcp (drop 4 w) rc
      | _ \<Rightarrow> rc)"

text \<open>What a line with \<open>wc\<close> words does; \<open>sa\<close> counts the name servers.\<close>

definition set_nameserver :: "nat \<Rightarrow> sockaddr \<Rightarrow> dns_resolv_conf \<Rightarrow> dns_resolv_conf option" where
  "set_nameserver i ss rc =
     (if i < length (nameserver rc) then Some (rc\<lparr>nameserver := (nameserver rc)[i := ss]\<rparr>) else None)"

definition resconf_apply :: "inet \<Rightarrow> bytes \<Rightarrow> nat \<Rightarrow> nat \<times> dns_resolv_conf \<Rightarrow> (nat \<times> dns_resolv_conf) option" where
  "resconf_apply N words wc = (\<lambda>(sa, rc).
     if wc < 2 then Some (sa, rc)
     else do {
       w0 \<leftarrow> word_at words 0;
       case dns_resconf_keyword w0 of
         Some DNS_RESCONF_NAMESERVER \<Rightarrow>
           if length (nameserver rc) \<le> sa then Some (sa, rc)
           else do {
             w1 \<leftarrow> word_at words 1;
             case dns_resconf_pton N w1 of
               Inl e \<Rightarrow> Some (sa, rc)
             | Inr ss \<Rightarrow> do { rc \<leftarrow> set_nameserver sa ss rc; Some (sa + 1, rc) }
           }
       | Some DNS_RESCONF_DOMAIN \<Rightarrow> do {
           ws \<leftarrow> words_from words 1 (min wc 5);
           Some (sa, rc\<lparr>search := resconf_search_list (replicate 4 (replicate 256 0)) ws\<rparr>)
         }
       | Some DNS_RESCONF_SEARCH \<Rightarrow> do {
           ws \<leftarrow> words_from words 1 (min wc 5);
           Some (sa, rc\<lparr>search := resconf_search_list (replicate 4 (replicate 256 0)) ws\<rparr>)
         }
       | Some DNS_RESCONF_LOOKUP \<Rightarrow> do {
           ws \<leftarrow> words_from words 1 wc;
           lk \<leftarrow> resconf_lookup ws 0 (lookup rc);
           Some (sa, rc\<lparr>lookup := lk\<rparr>)
         }
       | Some DNS_RESCONF_OPTIONS \<Rightarrow> do {
           ws \<leftarrow> words_from words 1 wc;
           Some (sa, fold resconf_option ws rc)
         }
       | Some DNS_RESCONF_INTERFACE \<Rightarrow> do {
           w1 \<leftarrow> word_at words 1;
           w2 \<leftarrow> word_at words 2;
           Some (sa, snd (dns_resconf_setiface N rc w1 (u16 (resconf_number w2))))
         }
       | _ \<Rightarrow> Some (sa, rc)
     })"

definition resconf_body :: "inet \<Rightarrow> bytes \<times> nat \<times> dns_resolv_conf
    \<Rightarrow> ((bytes \<times> nat \<times> dns_resolv_conf) + dns_resolv_conf) option" where
  "resconf_body N = (\<lambda>(fp, sa, rc).
     do {
       (ch, fp, words, wp, wc) \<leftarrow> resconf_line fp (replicate 1536 0) 0 0;
       (sa, rc) \<leftarrow> resconf_apply N words (if 0 < wp then wc + 1 else wc) (sa, rc);
       Some (if ch = None then Inr rc else Inl (fp, sa, rc))
     })"

definition dns_resconf_loadfile :: "inet \<Rightarrow> dns_resolv_conf \<Rightarrow> bytes \<Rightarrow> dns_resolv_conf option" where
  "dns_resconf_loadfile N rc fp = loop (resconf_body N) (fp, 0, rc)"

definition dns_resconf_loadpath :: "inet \<Rightarrow> dns_resolv_conf \<Rightarrow> nat + bytes \<Rightarrow> (dns_error option \<times> dns_resolv_conf) option" where
  "dns_resconf_loadpath N rc fopen =
     (case fopen of
        Inl e \<Rightarrow> Some (Some (SYS e), rc)
      | Inr fp \<Rightarrow> map_option (Pair None) (dns_resconf_loadfile N rc fp))"

definition dns_resconf_local :: "inet \<Rightarrow> nat option \<Rightarrow> nat + bytes \<Rightarrow> nat + bytes \<Rightarrow> (dns_error + dns_resolv_conf) option" where
  "dns_resconf_local N oom gethostname etc =
     (case dns_resconf_open oom gethostname of
        Inl e \<Rightarrow> Some (Inl e)
      | Inr rc \<Rightarrow> do {
          (err, rc) \<leftarrow> dns_resconf_loadpath N rc etc;
          Some (case err of Some e \<Rightarrow> Inl e | None \<Rightarrow> Inr rc)
        })"

definition dns_resconf_root :: "inet \<Rightarrow> nat option \<Rightarrow> nat + bytes \<Rightarrow> nat + bytes \<Rightarrow> (dns_error + dns_resolv_conf) option" where
  "dns_resconf_root N oom gethostname etc =
     map_option (map_sum id (\<lambda>rc. rc\<lparr>recurse := True\<rparr>)) (dns_resconf_local N oom gethostname etc)"

section \<open>The search list\<close>

text \<open>
  \<open>dns_resconf_search\<close> keeps its position in three bytes of \<open>*state\<close>: the case to go on with,
  the index in the search list and the number of dots of the name. The cases fall through, so each
  is a definition that ends in the next one. A case leaves the state, the index, the number of dots,
  the length and the buffer.
\<close>

type_synonym search_result = "(nat \<times> nat \<times> nat \<times> nat \<times> bytes) option"

definition search_last :: "bytes \<Rightarrow> bytes \<Rightarrow> dns_resolv_conf \<Rightarrow> nat \<Rightarrow> nat \<Rightarrow> nat \<Rightarrow> search_result" where
  "search_last dst qname rc st srchi dots =
     (if dots < ndots rc then let (len, dst) = dns_d_anchor dst qname in Some (st + 1, srchi, dots, len, dst)
      else Some (st + 1, srchi, dots, 0, dst))"

definition search_next :: "bytes \<Rightarrow> bytes \<Rightarrow> dns_resolv_conf \<Rightarrow> nat \<Rightarrow> nat \<Rightarrow> nat \<Rightarrow> search_result" where
  "search_next dst qname rc st srchi dots =
     (if srchi < length (search rc) \<and> cstr (search rc ! srchi) \<noteq> [] then do {
        let (len, dst) = dns__printstring qname dst 0;
        s \<leftarrow> rdn dst 0 len;
        let (len, dst) = dns_d_anchor dst s;
        let (n, dst) = dns__printstring (cstr (search rc ! srchi)) dst len;
        Some (st, srchi + 1, dots, len + n, dst)
      }
      else search_last dst qname rc (st + 1) srchi dots)"

definition search_first :: "bytes \<Rightarrow> bytes \<Rightarrow> dns_resolv_conf \<Rightarrow> nat \<Rightarrow> nat \<Rightarrow> nat \<Rightarrow> search_result" where
  "search_first dst qname rc st srchi dots =
     (let dots = dots + count_list qname 46
      in if ndots rc \<le> dots then let (len, dst) = dns_d_anchor dst qname in Some (st + 1, srchi, dots, len, dst)
         else search_next dst qname rc (st + 1) srchi dots)"

definition dns_resconf_search :: "bytes \<Rightarrow> bytes \<Rightarrow> dns_resolv_conf \<Rightarrow> nat \<Rightarrow> (nat \<times> bytes \<times> nat) option" where
  "dns_resconf_search dst qname rc state =
     (let srchi = 0xff AND drop_bit 8 state;
          dots = 0xff AND drop_bit 16 state;
          st = 0xff AND state
      in do {
        (st, srchi, dots, len, dst) \<leftarrow>
          (if st = 0 then search_first dst qname rc st srchi dots
           else if st = 1 then search_next dst qname rc st srchi dots
           else if st = 2 then search_last dst qname rc st srchi dots
           else Some (st, srchi, dots, 0, dst));
        Some (len, dns__printnul dst len,
          (0xff AND st) OR push_bit 8 (0xff AND srchi) OR push_bit 16 (0xff AND dots))
      })"

section \<open>The names the search list gives\<close>

definition domains :: "dns_resolv_conf \<Rightarrow> bytes list" where
  "domains rc = takeWhile (\<lambda>s. s \<noteq> []) (map cstr (search rc))"

definition candidates :: "dns_resolv_conf \<Rightarrow> bytes \<Rightarrow> bytes list" where
  "candidates rc q =
     (let ds = map (\<lambda>s. anchored q @ s) (domains rc)
      in if ndots rc \<le> count_list q 46 then anchored q # ds else ds @ [anchored q])"

text \<open>Calling \<open>dns_resconf_search\<close> with a buffer of \<open>lim\<close> bytes until it returns 0.\<close>

definition search_body :: "dns_resolv_conf \<Rightarrow> bytes \<Rightarrow> nat \<Rightarrow> bytes list \<times> nat \<Rightarrow> ((bytes list \<times> nat) + bytes list) option" where
  "search_body rc q lim = (\<lambda>(acc, state). do {
     (len, dst, state) \<leftarrow> dns_resconf_search (replicate lim 0) q rc state;
     Some (if len = 0 then Inr acc else Inl (acc @ [cstr dst], state))
   })"

definition pack :: "nat \<Rightarrow> nat \<Rightarrow> nat \<Rightarrow> nat" where
  "pack st i d = (0xff AND st) OR push_bit 8 (0xff AND i) OR push_bit 16 (0xff AND d)"

lemma and_ff: "0xff AND n = n mod (256 :: nat)"
  using take_bit_eq_mask [of 8 n] by (simp add: take_bit_eq_mod mask_eq_exp_minus_1 and.commute)

lemma pack_fields:
  assumes "st < 256" "i < 256" "d < 256"
  shows "0xff AND pack st i d = st" "0xff AND drop_bit 8 (pack st i d) = i" "0xff AND drop_bit 16 (pack st i d) = d"
proof -
  have "push_bit 8 i OR st = i * 256 + st" using push_bit_or_add [of st 8 i] assms by simp
  moreover have "push_bit 16 d OR (i * 256 + st) = d * 65536 + (i * 256 + st)"
    using push_bit_or_add [of "i * 256 + st" 16 d] assms by simp
  moreover have "pack st i d = push_bit 16 d OR (push_bit 8 i OR st)"
    using assms by (simp add: pack_def and_ff or.commute or.left_commute)
  ultimately have p: "pack st i d = (d * 256 + i) * 256 + st"
    by simp
  have m: "(x * 256 + r) mod 256 = r" "(x * 256 + r) div 256 = x" if "r < 256" for x r :: nat using that by simp_all
  show "0xff AND pack st i d = st" "0xff AND drop_bit 8 (pack st i d) = i"
    unfolding p and_ff drop_bit_eq_div by (simp_all only: m assms power_numeral Num.pow.simps Num.sqr.simps)
  have "((d * 256 + i) * 256 + st) div 65536 = ((d * 256 + i) * 256 + st) div 256 div 256" by (simp flip: div_mult2_eq)
  then show "0xff AND drop_bit 16 (pack st i d) = d"
    unfolding p and_ff drop_bit_eq_div using m [of st "d * 256 + i"] m [of i d] assms by simp
qed

lemma search_packed:
  assumes "st < 256" "i < 256" "d < 256"
  shows "dns_resconf_search dst q rc (pack st i d) = do {
     (st, i, d, len, dst) \<leftarrow>
          (if st = 0 then search_first dst q rc st i d
           else if st = 1 then search_next dst q rc st i d
           else if st = 2 then search_last dst q rc st i d
           else Some (st, i, d, 0, dst));
     Some (len, dns__printnul dst len, pack st i d)
   }"
  unfolding dns_resconf_search_def Let_def pack_fields [OF assms] pack_def [symmetric] by (rule refl)

lemma nul_nul: "nul (nul buf i) i = nul buf i"
  by (simp add: nul_def)

lemma anchor_name:
  assumes "q \<noteq> []" "0 \<notin> set q" "length (anchored q) < length dst"
  shows "fst (dns_d_anchor dst q) = length (anchored q)"
    and "cstr (dns__printnul (snd (dns_d_anchor dst q)) (length (anchored q))) = anchored q"
    and "holds (snd (dns_d_anchor dst q)) (anchored q)" "length (snd (dns_d_anchor dst q)) = length dst"
proof -
  have a: "dns_d_anchor dst q = (length (anchored q), nul (blit dst 0 (anchored q)) (length (anchored q)))"
    using assms(1) by (simp add: dns_d_anchor_eq anchored_def Let_def)
  then show "fst (dns_d_anchor dst q) = length (anchored q)" "length (snd (dns_d_anchor dst q)) = length dst" by simp_all
  show "cstr (dns__printnul (snd (dns_d_anchor dst q)) (length (anchored q))) = anchored q"
    using anchor_text [OF assms] a by (simp add: dns__printnul_def nul_nul)
  show "holds (snd (dns_d_anchor dst q)) (anchored q)"
    using assms(3) holds_blit0 [of dst "anchored q"] unfolding a by (cases "dst = []") (simp_all add: holds_def nul_def)
qed

lemma name_in_domain:
  assumes q: "q \<noteq> []" "0 \<notin> set q" and s: "0 \<notin> set s" "length (anchored q @ s) < length dst"
    and i: "i < length (search rc)" "cstr (search rc ! i) = s" "s \<noteq> []"
  shows "\<exists>dst'. search_next dst q rc st i d = Some (st, i + 1, d, length (anchored q @ s), dst') \<and>
    cstr (dns__printnul dst' (length (anchored q @ s))) = anchored q @ s"
proof -
  let ?b = "blit dst 0 q"
  have lq: "length q \<le> length (anchored q)" by (simp add: anchored_def)
  have ne: "dst \<noteq> []" using s(2) by auto
  then have r: "rdn ?b 0 (length q) = Some q"
    using s(2) lq by (simp add: rdn_in blit_def)
  have l: "length (anchored q) < length ?b" using s(2) by simp
  note a = anchor_name [OF q l]
  let ?c = "snd (dns_d_anchor ?b q)"
  have "holds (blit ?c (length (anchored q)) s) (anchored q @ s)" by (rule holds_blit [OF a(3)])
  moreover have "0 \<notin> set (anchored q @ s)" using q s by (simp add: anchored_def)
  ultimately have "cstr (nul (blit ?c (length (anchored q)) s) (length (anchored q @ s))) = anchored q @ s"
    using holds_nul_cstr [of "blit ?c (length (anchored q)) s" "anchored q @ s"] s(2) a(4) ne by simp
  moreover have "search_next dst q rc st i d = Some (st, i + 1, d, length (anchored q @ s), blit ?c (length (anchored q)) s)"
    using i r a(1) by (simp add: search_next_def dns__printstring_def case_prod_beta Let_def)
  ultimately show ?thesis by (auto simp: dns__printnul_def)
qed

lemma domain_index:
  assumes "i < length (domains rc)"
  shows "i < length (search rc)" "cstr (search rc ! i) = domains rc ! i" "domains rc ! i \<noteq> []" "0 \<notin> set (domains rc ! i)"
proof -
  have l: "i < length (map cstr (search rc))"
    using assms length_takeWhile_le [of "\<lambda>s. s \<noteq> []" "map cstr (search rc)"] unfolding domains_def by linarith
  then show "i < length (search rc)" by simp
  show e: "cstr (search rc ! i) = domains rc ! i"
    using assms l unfolding domains_def by (subst takeWhile_nth) simp_all
  show "domains rc ! i \<noteq> []"
    using nth_mem [OF assms] set_takeWhileD [of _ "\<lambda>s. s \<noteq> []" "map cstr (search rc)"] unfolding domains_def by blast
  show "0 \<notin> set (domains rc ! i)" unfolding e [symmetric] by (rule cstr_no_nul)
qed

lemma domains_end: "\<not> (length (domains rc) < length (search rc) \<and> cstr (search rc ! length (domains rc)) \<noteq> [])"
proof
  assume a: "length (domains rc) < length (search rc) \<and> cstr (search rc ! length (domains rc)) \<noteq> []"
  then show False
    using nth_length_takeWhile [of "\<lambda>s. s \<noteq> []" "map cstr (search rc)"] by (simp add: domains_def)
qed

lemma search_rest:
  assumes q: "q \<noteq> []" "0 \<notin> set q" and rc: "length (search rc) \<le> 4" and d: "d < 256"
    and lim: "length (anchored q) < lim" "\<forall>s \<in> set (domains rc). length (anchored q @ s) < lim"
  shows "i \<le> length (domains rc) \<Longrightarrow> loop (search_body rc q lim) (acc, pack 1 i d) =
    Some (acc @ map (\<lambda>s. anchored q @ s) (drop i (domains rc)) @ (if d < ndots rc then [anchored q] else []))"
proof (induction "length (domains rc) - i" arbitrary: i acc)
  case (Suc n)
  then have i: "i < length (domains rc)" by simp
  let ?s = "domains rc ! i"
  note x = domain_index [OF i]
  have i4: "i < 256" "i + 1 < 256" using x(1) rc by simp_all
  have "length (anchored q @ ?s) < length (replicate lim (0::u8))" using lim(2) nth_mem [OF i] by simp
  then obtain dst where dst: "search_next (replicate lim 0) q rc 1 i d = Some (1, i + 1, d, length (anchored q @ ?s), dst)"
    "cstr (dns__printnul dst (length (anchored q @ ?s))) = anchored q @ ?s"
    using name_in_domain [OF q x(4) _ x(1-3)] by blast
  have "search_body rc q lim (acc, pack 1 i d) = Some (Inl (acc @ [anchored q @ ?s], pack 1 (i + 1) d))"
    using search_packed [of 1 i d "replicate lim 0" q rc] i4 d dst x(3) by (simp add: search_body_def)
  then have "loop (search_body rc q lim) (acc, pack 1 i d) = loop (search_body rc q lim) (acc @ [anchored q @ ?s], pack 1 (i + 1) d)"
    by (rule loop_next)
  also have "\<dots> = Some ((acc @ [anchored q @ ?s]) @ map (\<lambda>s. anchored q @ s) (drop (i + 1) (domains rc)) @
      (if d < ndots rc then [anchored q] else []))"
    using Suc i by (intro Suc.hyps(1)) simp_all
  finally show ?case unfolding Cons_nth_drop_Suc [OF i, symmetric] by simp
next
  case 0
  then have i: "i = length (domains rc)" by simp
  have i4: "i < 256" using rc length_takeWhile_le [of "\<lambda>s. s \<noteq> []" "map cstr (search rc)"] by (simp add: i domains_def)
  have nx: "search_next (replicate lim 0) q rc 1 i d = search_last (replicate lim 0) q rc 2 i d"
    unfolding search_next_def i if_not_P [OF domains_end] by (simp add: numeral_2_eq_2)
  have end3: "search_body rc q lim (acc', pack 3 i d) = Some (Inr acc')" for acc'
    using search_packed [of 3 i d "replicate lim 0" q rc] i4 d by (simp add: search_body_def)
  show ?case
  proof (cases "d < ndots rc")
    case True
    let ?a = "dns_d_anchor (replicate lim 0) q"
    have l: "length (anchored q) < length (replicate lim (0::u8))" using lim(1) by simp
    note a = anchor_name [OF q l]
    have "length (anchored q) \<noteq> 0" using q(1) by (simp add: anchored_def)
    then have "search_body rc q lim (acc, pack 1 i d) = Some (Inl (acc @ [anchored q], pack 3 i d))"
      using search_packed [of 1 i d "replicate lim 0" q rc] i4 d nx True a(1,2)
      by (simp add: search_body_def search_last_def case_prod_beta)
    from loop_next [of "search_body rc q lim", OF this] loop_done [of "search_body rc q lim", OF end3] show ?thesis
      using True i by simp
  next
    case False
    then have "search_body rc q lim (acc, pack 1 i d) = Some (Inr acc)"
      using search_packed [of 1 i d "replicate lim 0" q rc] i4 d nx by (simp add: search_body_def search_last_def)
    then show ?thesis using False i by (simp add: loop_done)
  qed
qed

text \<open>C16: Called until it returns 0, \<open>dns_resconf_search\<close> gives exactly the names to try, in order,
  and then stops: a name with at least \<open>ndots\<close> dots is tried as it is first and then with each
  domain of the search list; a name with fewer dots is tried with each domain first and as it is
  last.\<close>
theorem dns_resconf_search_spec:
  assumes "q \<noteq> []" "0 \<notin> set q" "count_list q 46 < 256" "length (search rc) \<le> 4"
    and "\<forall>c \<in> set (candidates rc q). length c < lim"
  shows "loop (search_body rc q lim) ([], 0) = Some (candidates rc q)"
proof -
  let ?d = "count_list q 46"
  have lim: "length (anchored q) < lim" "\<forall>s \<in> set (domains rc). length (anchored q @ s) < lim"
    using assms(5) by (auto simp: candidates_def Let_def split: if_splits)
  note rest = search_rest [OF assms(1,2,4,3) lim]
  have z: "pack 0 0 0 = 0" by (simp add: pack_def)
  show ?thesis
  proof (cases "ndots rc \<le> ?d")
    case True
    have l: "length (anchored q) < length (replicate lim (0::u8))" using lim(1) by simp
    note a = anchor_name [OF assms(1,2) l]
    have "length (anchored q) \<noteq> 0" using assms(1) by (simp add: anchored_def)
    then have "search_body rc q lim ([], pack 0 0 0) = Some (Inl ([anchored q], pack 1 0 ?d))"
      using search_packed [of 0 0 0 "replicate lim 0" q rc] True a(1,2)
      by (simp add: search_body_def search_first_def case_prod_beta)
    then show ?thesis
      using rest [of 0 "[anchored q]"] True z by (simp add: loop_next [of _ "([], 0)"] candidates_def)
  next
    case False
    have "search_first (replicate lim 0) q rc 0 0 0 = search_next (replicate lim 0) q rc 1 0 ?d"
      using False by (simp add: search_first_def)
    then have "search_body rc q lim ([], pack 0 0 0) = search_body rc q lim ([], pack 1 0 ?d)"
      using search_packed [of 0 0 0 "replicate lim 0" q rc] search_packed [of 1 0 ?d "replicate lim 0" q rc] assms(3)
      by (simp add: search_body_def)
    then have "loop (search_body rc q lim) ([], 0) = loop (search_body rc q lim) ([], pack 1 0 ?d)"
      unfolding z by (subst (1 2) loop.simps) simp
    then show ?thesis
      using rest [of 0 "[]"] False by (simp add: candidates_def Let_def)
  qed
qed

theorem dns_resconf_search_spec_witness:
  "let rc = \<lparr>nameserver = [], search = [str ''x.'' @ [0], str ''y.'' @ [0], [0], [0]], lookup = [], edns0 = False,
             ndots = 1, timeout = 5, attempts = 2, rotate = False, recurse = False, smart = False,
             tcp = DNS_RESCONF_TCP_ENABLE, iface = no_sockaddr, resconf_refcount = 1\<rparr>
   in loop (search_body rc (str ''a'') 16) ([], 0) = Some [str ''a.x.'', str ''a.y.'', str ''a.''] \<and>
      loop (search_body rc (str ''a.b'') 16) ([], 0) = Some [str ''a.b.'', str ''a.b.x.'', str ''a.b.y.'']"
proof -
  define rc where "rc = \<lparr>nameserver = [], search = [str ''x.'' @ [0], str ''y.'' @ [0], [0], [0]], lookup = [], edns0 = False,
             ndots = 1, timeout = 5, attempts = 2, rotate = False, recurse = False, smart = False,
             tcp = DNS_RESCONF_TCP_ENABLE, iface = no_sockaddr, resconf_refcount = 1\<rparr>"
  have c: "candidates rc (str ''a'') = [str ''a.x.'', str ''a.y.'', str ''a.'']"
    "candidates rc (str ''a.b'') = [str ''a.b.'', str ''a.b.x.'', str ''a.b.y.'']"
    unfolding rc_def by code_simp+
  have l: "length (search rc) \<le> 4" by (simp add: rc_def)
  have w: "\<forall>x \<in> set (candidates rc (str ''a'')). length x < 16" "\<forall>x \<in> set (candidates rc (str ''a.b'')). length x < 16"
    unfolding c by (simp_all add: str_def)
  have "loop (search_body rc (str ''a'') 16) ([], 0) = Some (candidates rc (str ''a''))"
    by (rule dns_resconf_search_spec [OF _ _ _ l w(1)]) (simp_all add: str_def of_char_def)
  moreover have "loop (search_body rc (str ''a.b'') 16) ([], 0) = Some (candidates rc (str ''a.b''))"
    by (rule dns_resconf_search_spec [OF _ _ _ l w(2)]) (simp_all add: str_def of_char_def)
  ultimately show ?thesis
    unfolding Let_def rc_def [symmetric] c by (rule conjI)
qed

section \<open>A loaded configuration is well formed\<close>

definition sockaddr_ok :: "sockaddr \<Rightarrow> bool" where
  "sockaddr_ok sa \<longleftrightarrow> (addr_ok (sa_addr sa) \<or> sa_addr sa = AF_OTHER 0) \<and> sa_port sa < 65536"

definition resconf_ok :: "dns_resolv_conf \<Rightarrow> bool" where
  "resconf_ok rc \<longleftrightarrow> length (nameserver rc) = 3 \<and> list_all sockaddr_ok (nameserver rc) \<and> sockaddr_ok (iface rc) \<and>
     length (search rc) = 4 \<and> (\<forall>s \<in> set (search rc). length s = 256 \<and> 0 \<in> set s) \<and>
     length (lookup rc) = 3 \<and> set (lookup rc) \<subseteq> set (str ''fbc'') \<union> {0} \<and>
     ndots rc < 4294967296 \<and> timeout rc < 4294967296 \<and> attempts rc < 4294967296"

definition short_words :: "bytes \<Rightarrow> bool" where
  "short_words fp \<longleftrightarrow> (\<forall>w \<in> set (split_at dns_resconf_issep fp). length w < 256)"

text \<open>Every word of the buffer is closed with a NUL.\<close>

definition words_closed :: "bytes \<Rightarrow> bool" where
  "words_closed words \<longleftrightarrow> length words = 1536 \<and> (\<forall>i < 6. words ! (256 * i + 255) = 0)"

lemma cstr_cut:
  assumes "i < length d" "d ! i = 0"
  shows "length (cstr d) \<le> i"
proof (rule ccontr)
  assume "\<not> length (cstr d) \<le> i"
  then have i: "i < length (cstr d)" by simp
  then have "cstr d ! i = 0" using assms by (simp add: cstr_def takeWhile_nth)
  then show False using nth_mem [OF i] cstr_no_nul [of d] by simp
qed

lemma word_at_closed:
  assumes w: "words_closed words" and i: "i < 6"
  shows "\<exists>w. word_at words i = Some w \<and> 0 \<notin> set w \<and> length w \<le> 255"
proof -
  let ?d = "drop (256 * i) words"
  have l: "255 < length ?d" "?d ! 255 = 0" using w i by (auto simp: words_closed_def)
  have "0 \<in> set ?d" using nth_mem [OF l(1)] l(2) by simp
  then show ?thesis using cstr_cut [OF l] by (simp add: word_at_def cstr_no_nul)
qed

lemma words_from_closed: "words_closed words \<Longrightarrow> j \<le> 6 \<Longrightarrow> \<exists>ws. words_from words i j = Some ws \<and> (\<forall>w \<in> set ws. 0 \<notin> set w \<and> length w \<le> 255)"
proof -
  assume w: "words_closed words" and j: "j \<le> 6"
  have "\<exists>ws. those (map (word_at words) is) = Some ws \<and> (\<forall>w \<in> set ws. 0 \<notin> set w \<and> length w \<le> 255)" if "\<forall>i \<in> set is. i < 6" for "is"
    using that
  proof (induction "is")
    case (Cons i "is")
    then show ?case using word_at_closed [OF w, of i] by fastforce
  qed simp
  then show ?thesis unfolding words_from_def using j by auto
qed

lemma skip_line_next: "skip_line fp = (if 10 \<in> set fp then Some 10 else None, next_line fp)"
  by (induction fp) (auto simp: skip_line_def next_line_def)

definition line_read :: "bytes \<Rightarrow> u8 option \<times> bytes \<times> bytes \<times> nat \<times> nat \<Rightarrow> bool" where
  "line_read fp = (\<lambda>(ch, fp', words, wp, wc). words_closed words \<and> (if 0 < wp then wc + 1 else wc) \<le> 6 \<and>
     fp' = next_line fp \<and> (ch = None) = (10 \<notin> set fp))"

lemma line_read_Cons: "ch \<noteq> 10 \<Longrightarrow> line_read (ch # fp) r = line_read fp r"
  by (cases r) (auto simp: line_read_def next_line_def)

lemma resconf_line_reads:
  assumes "words_closed words" "wc < 6" "wp + length (hd (split_at dns_resconf_issep fp)) \<le> 255" "short_words fp"
  shows "\<exists>r. resconf_line fp words wp wc = Some r \<and> line_read fp r"
  using assms
proof (induction fp arbitrary: words wp wc)
  case (Cons ch fp)
  obtain w ws where sp: "split_at dns_resconf_issep fp = w # ws" using split_at_ne by (metis neq_Nil_conv)
  consider (nl) "ch = 10" | (sep) "ch \<noteq> 10" "dns_resconf_issep ch" | (com) "ch \<noteq> 10" "\<not> dns_resconf_issep ch" "dns_resconf_iscom ch"
    | (char) "ch \<noteq> 10" "\<not> dns_resconf_issep ch" "\<not> dns_resconf_iscom ch" by blast
  then show ?case
  proof cases
    case nl
    then show ?thesis using Cons.prems(1,2) by (simp add: line_read_def next_line_def)
  next
    case sep
    then have w: "length w \<le> 255" "short_words fp" using Cons.prems(4) sp by (auto simp: short_words_def)
    have "\<exists>r. resconf_line (ch # fp) words wp wc = Some r \<and> line_read fp r"
    proof (cases "0 < wp \<and> 6 \<le> wc + 1")
      case True
      then show ?thesis using sep Cons.prems(1,2) by (simp add: line_read_def skip_line_next)
    next
      case False
      then have "resconf_line (ch # fp) words wp wc = (if 0 < wp then resconf_line fp words 0 (wc + 1) else resconf_line fp words 0 wc)"
        using sep by (cases "wp = 0") simp_all
      then show ?thesis
        using False Cons.IH [OF Cons.prems(1), of "if 0 < wp then wc + 1 else wc" 0] w sp Cons.prems(2) by (simp split: if_splits)
    qed
    then show ?thesis using line_read_Cons [OF sep(1)] by simp
  next
    case com
    then have "\<exists>r. resconf_line (ch # fp) words wp wc = Some r \<and> line_read fp r"
      using Cons.prems(1,2) by (simp add: line_read_def skip_line_next)
    then show ?thesis using line_read_Cons [OF com(1)] by simp
  next
    case char
    have w: "wp + 1 + length w \<le> 255" "short_words fp" using char(2) Cons.prems(3,4) sp by (auto simp: short_words_def)
    have "256 * wc + wp \<noteq> 256 * i + 255" for i
    proof
      assume "256 * wc + wp = 256 * i + 255"
      then have "(256 * wc + wp) mod 256 = (256 * i + 255) mod 256" by (rule arg_cong)
      then show False using w(1) by simp
    qed
    then have "words_closed (words[256 * wc + wp := ch])" using Cons.prems(1) by (simp add: words_closed_def)
    then have "\<exists>r. resconf_line fp (words[256 * wc + wp := ch]) (wp + 1) wc = Some r \<and> line_read fp r"
      using Cons.IH [of "words[256 * wc + wp := ch]" wc "wp + 1"] w sp Cons.prems(2) by simp
    moreover have "wr words (256 * wc + wp) ch = Some (words[256 * wc + wp := ch])"
      using Cons.prems(1,2) w(1) by (simp add: wr_def words_closed_def)
    ultimately show ?thesis using line_read_Cons [OF char(1)] char w(1) by simp
  qed
qed (simp add: line_read_def next_line_def)

lemma pton_port_less: "prt < 65536 \<Longrightarrow> pton_port src prt < 65536"
  by (induction src arbitrary: prt) auto

lemma pton_scan_port: "snd (snd (pton_scan src buf v6)) < 65536"
  by (induction src arbitrary: buf v6) (auto simp: pton_port_less)

lemma pton_sockaddr: "inet_ok N \<Longrightarrow> dns_resconf_pton N w = Inr ss \<Longrightarrow> sockaddr_ok ss"
  using pton_scan_port [of w "[]" False] pton_addr_ok [of N]
  by (cases "pton_scan w [] False") (auto simp: dns_resconf_pton_def dns_pton_def sockaddr_ok_def split: option.splits)

lemma anchor_closed: "length s = 256 \<Longrightarrow> 0 \<in> set s \<Longrightarrow> length (snd (dns_d_anchor s w)) = 256 \<and> 0 \<in> set (snd (dns_d_anchor s w))"
proof -
  assume s: "length s = 256" "0 \<in> set s"
  show ?thesis
  proof (cases "w = []")
    case True
    then show ?thesis using s by (simp add: dns_d_anchor_def)
  next
    case False
    have "0 \<in> set (nul buf i)" if "length buf = 256" for buf i
      using that by (auto simp: nul_def intro!: set_update_memI)
    then show ?thesis using False s by (simp add: dns_d_anchor_eq Let_def)
  qed
qed

lemma search_list_closed:
  "\<forall>s \<in> set ss. length s = 256 \<and> 0 \<in> set s \<Longrightarrow>
    length (resconf_search_list ss ws) = length ss \<and> (\<forall>s \<in> set (resconf_search_list ss ws). length s = 256 \<and> 0 \<in> set s)"
  by (induction ss ws rule: resconf_search_list.induct) (use anchor_closed in auto)

lemma lookup_letters:
  "\<exists>lk'. resconf_lookup ws j lk = Some lk' \<and> length lk' = length lk \<and> set lk' \<subseteq> set lk \<union> set (str ''fbc'')"
proof (induction ws arbitrary: j lk)
  case (Cons w ws)
  have f: "set (str ''fbc'') = {102, 98, 99}" by code_simp
  have "\<exists>lk'. resconf_lookup ws (j + 1) (lk[j := c]) = Some lk' \<and> length lk' = length lk \<and> set lk' \<subseteq> set lk \<union> set (str ''fbc'')"
    if "c \<in> set (str ''fbc'')" for c
    using Cons.IH [of "j + 1" "lk[j := c]"] set_update_subset_insert [of lk j c] that by fastforce
  note step = this [of 102] this [of 98] this [of 99]
  show ?case
    using Cons.IH [of j lk] step by (auto simp: wr_def f split: option.splits dns_resconf_keyword.splits)
qed simp

lemma number_less: "resconf_number s < 4294967296"
proof -
  have "foldl (\<lambda>n c. (n * 10 + (unat c - 48)) mod 4294967296) 0 (ds :: bytes) < 4294967296" for ds
    by (induction ds rule: rev_induct) auto
  then show ?thesis unfolding resconf_number_def .
qed

lemma option_ok: "resconf_ok rc \<Longrightarrow> resconf_ok (resconf_option w rc)"
  using number_less by (auto simp: resconf_ok_def resconf_option_def resconf_tcp_def split: option.splits dns_resconf_keyword.splits)

lemma options_ok: "resconf_ok rc \<Longrightarrow> resconf_ok (fold resconf_option ws rc)"
  by (induction ws arbitrary: rc) (auto simp: option_ok)

lemma setiface_ok:
  assumes "inet_ok N" "resconf_ok rc" "prt < 65536"
  shows "resconf_ok (snd (dns_resconf_setiface N rc w prt))"
  using assms pton_addr_ok [OF assms(1)]
  by (auto simp: dns_resconf_setiface_def dns_pton_def resconf_ok_def sockaddr_ok_def split: sum.splits option.splits)

lemma apply_ok:
  assumes N: "inet_ok N" and w: "words_closed words" and wc: "wc \<le> 6" and rc: "resconf_ok rc"
  shows "\<exists>sa' rc'. resconf_apply N words wc (sa, rc) = Some (sa', rc') \<and> resconf_ok rc'"
proof (cases "wc < 2")
  case False
  obtain w0 w1 w2 where ws: "word_at words 0 = Some w0" "word_at words 1 = Some w1" "word_at words 2 = Some w2"
    using word_at_closed [OF w, of 0] word_at_closed [OF w, of 1] word_at_closed [OF w, of 2] by auto
  have m: "min wc 5 \<le> 6" using wc by simp
  obtain ws4 ws6 where wf: "words_from words 1 (min wc 5) = Some ws4" "words_from words 1 wc = Some ws6"
    using words_from_closed [OF w m, of 1] words_from_closed [OF w wc, of 1] by blast
  have z: "\<forall>s \<in> set (replicate 4 (replicate 256 (0::u8))). length s = 256 \<and> 0 \<in> set s" by simp
  have sl: "resconf_ok (rc\<lparr>search := resconf_search_list (replicate 4 (replicate 256 0)) ws4\<rparr>)"
    using rc search_list_closed [OF z, of ws4] by (simp add: resconf_ok_def)
  obtain l where lk: "resconf_lookup ws6 0 (lookup rc) = Some l" "resconf_ok (rc\<lparr>lookup := l\<rparr>)"
    using rc lookup_letters [of ws6 0 "lookup rc"] by (auto simp: resconf_ok_def)
  have nsv: "\<exists>rc'. set_nameserver sa ss rc = Some rc' \<and> resconf_ok rc'"
    if "\<not> length (nameserver rc) \<le> sa" "dns_resconf_pton N w1 = Inr ss" for ss
    using rc that(1) pton_sockaddr [OF N that(2)] set_update_subset_insert [of "nameserver rc" sa ss]
    by (auto simp: set_nameserver_def resconf_ok_def list_all_iff)
  note iface = setiface_ok [OF N rc, of "u16 (resconf_number w2)" w1]
  show ?thesis
    using False ws wf rc sl lk nsv iface options_ok [OF rc, of ws6]
    by (auto simp: resconf_apply_def split: option.splits dns_resconf_keyword.splits sum.splits)
qed (use rc in \<open>simp add: resconf_apply_def\<close>)

lemma short_next: "short_words fp \<Longrightarrow> 10 \<in> set fp \<Longrightarrow> short_words (next_line fp)"
proof (induction fp)
  case (Cons c fp)
  have t: "dns_resconf_issep 10" by (simp add: dns_resconf_issep_def c_isspace_def)
  obtain w ws where sp: "split_at dns_resconf_issep fp = w # ws" using split_at_ne by (metis neq_Nil_conv)
  have "short_words fp" using Cons.prems(1) sp by (auto simp: short_words_def split: if_splits)
  then show ?case using Cons t by (auto simp: next_line_Cons)
qed simp

text \<open>C31: Whatever a configuration file holds, as long as no word is longer than 255 bytes,
  \<open>dns_resconf_loadfile\<close> returns, stays inside its buffers and leaves a well-formed configuration:
  three name servers with addresses and ports in range, four search domains closed by a NUL, and only
  known letters in the lookup order.\<close>
theorem dns_resconf_loadfile_typed:
  assumes "inet_ok N" "resconf_ok rc" "short_words fp"
  shows "\<exists>rc'. dns_resconf_loadfile N rc fp = Some rc' \<and> resconf_ok rc'"
proof -
  have z: "words_closed (replicate 1536 0)" by (simp add: words_closed_def)
  have step: "(\<exists>s'. resconf_body N s = Some (Inl s') \<and> (short_words (fst s') \<and> resconf_ok (snd (snd s'))) \<and> length (fst s') < length (fst s)) \<or>
      (\<exists>r. resconf_body N s = Some (Inr r) \<and> resconf_ok r)"
    if s: "short_words (fst s) \<and> resconf_ok (snd (snd s))" for s
  proof -
    obtain fp sa rc where s': "s = (fp, sa, rc)" by (cases s) auto
    have "length (hd (split_at dns_resconf_issep fp)) \<le> 255"
      using s s' split_at_ne [of dns_resconf_issep fp] hd_in_set by (fastforce simp: short_words_def)
    then obtain ch fp' words wp wc where l: "resconf_line fp (replicate 1536 0) 0 0 = Some (ch, fp', words, wp, wc)"
      and "line_read fp (ch, fp', words, wp, wc)"
      using resconf_line_reads [OF z, of 0 0 fp] s s' by auto
    then have r: "words_closed words" "(if 0 < wp then wc + 1 else wc) \<le> 6" "fp' = next_line fp" "(ch = None) = (10 \<notin> set fp)"
      by (simp_all add: line_read_def)
    obtain sa' rc' where "resconf_apply N words (if 0 < wp then wc + 1 else wc) (sa, rc) = Some (sa', rc')" "resconf_ok rc'"
      using apply_ok [OF assms(1) r(1,2), of rc sa] s s' by auto
    then show ?thesis
      using s s' l r(3,4) short_next [of fp] length_next_line [of fp] by (auto simp: resconf_body_def)
  qed
  have "short_words (fst (fp, 0 :: nat, rc)) \<and> resconf_ok (snd (snd (fp, 0 :: nat, rc)))" using assms by simp
  then show ?thesis
    unfolding dns_resconf_loadfile_def by (rule loop_total [where m = "\<lambda>s. length (fst s)"]) (rule step)
qed

theorem dns_resconf_loadfile_typed_witness:
  "let N = \<lparr>pton4 = (\<lambda>s. Some 1), pton6 = (\<lambda>s. None)\<rparr>;
       rc = \<lparr>nameserver = replicate 3 no_sockaddr, search = replicate 4 (replicate 256 0), lookup = [98, 102, 0], edns0 = False,
             ndots = 1, timeout = 5, attempts = 2, rotate = False, recurse = False, smart = False,
             tcp = DNS_RESCONF_TCP_ENABLE, iface = no_sockaddr, resconf_refcount = 1\<rparr>
   in \<exists>rc'. dns_resconf_loadfile N rc (str ''nameserver 1.2.3.4 # x'') = Some rc' \<and> resconf_ok rc'"
proof -
  define N where "N = \<lparr>pton4 = (\<lambda>s. Some 1), pton6 = (\<lambda>s. None :: bytes option)\<rparr>"
  define rc where "rc = \<lparr>nameserver = replicate 3 no_sockaddr, search = replicate 4 (replicate 256 0), lookup = [98, 102, 0], edns0 = False,
             ndots = 1, timeout = 5, attempts = 2, rotate = False, recurse = False, smart = False,
             tcp = DNS_RESCONF_TCP_ENABLE, iface = no_sockaddr, resconf_refcount = 1\<rparr>"
  have N: "inet_ok N" by (simp add: inet_ok_def N_def)
  have "set (str ''fbc'') = {102, 98, 99}" by code_simp
  then have rc: "resconf_ok rc" by (simp add: resconf_ok_def rc_def sockaddr_ok_def no_sockaddr_def list_all_iff)
  have w: "short_words (str ''nameserver 1.2.3.4 # x'')" unfolding short_words_def by code_simp
  show ?thesis
    unfolding Let_def N_def [symmetric] rc_def [symmetric] by (rule dns_resconf_loadfile_typed [OF N rc w])
qed

section \<open>The default search list\<close>

text \<open>The comment in \<open>dns_resconf_open\<close> expects an empty search list when the host name has no dot;
  the root is left there, and a name is tried with two dots at its end.\<close>
lemma open_without_domain:
  "\<exists>rc. dns_resconf_open None (Inr (str ''h'' @ replicate 8 0)) = Inr rc \<and> candidates rc (str ''a'') = [str ''a..'', str ''a.'']"
  by (intro exI conjI, simp only: dns_resconf_open_def option.case sum.case prod.case Let_def) code_simp

end
