(* ===== verification/Dns_Hints.thy ===== *)
theory Dns_Hints
  imports Dns_Resconf Dns_Iter_Spec
begin

unbundle bit_operations_syntax

text \<open>
  The hints of \<^verbatim>\<open>src/src/c/dns/libdns/dns.c\<close>: the tables of name servers from which
  the resolver starts, one for each zone, filled from the resolver configuration or from the built-in
  list of root servers, and the iterator that hands the addresses of a zone out by priority and, for
  the same priority, in a random order. \<open>malloc\<close>, \<open>inet_pton\<close> and the values \<open>dns_random\<close> returns
  are arguments. A pointer to a zone is its position in the list of zones.
\<close>

section \<open>Socket addresses\<close>

definition dns_af_len :: "dns_addr \<Rightarrow> nat" where
  "dns_af_len addr = (case addr of AF_INET6 _ \<Rightarrow> 28 | AF_INET _ \<Rightarrow> 16 | AF_OTHER f \<Rightarrow> if f = 1 then 110 else 0)"

definition dns_sa_len :: "sockaddr \<Rightarrow> nat" where
  "dns_sa_len sa = dns_af_len (sa_addr sa)"

definition dns_sa_port :: "sockaddr \<Rightarrow> nat" where
  "dns_sa_port sa = (case sa_addr sa of AF_OTHER _ \<Rightarrow> 0 | _ \<Rightarrow> sa_port sa)"

section \<open>The tables\<close>

record dns_hints_addr =
  h_ss :: sockaddr
  h_priority :: u32

record dns_hints_soa =
  soa_zone :: bytes
  addrs :: "dns_hints_addr list"
  soa_count :: nat

record dns_hints =
  hints_refcount :: dns_atomic_t
  soas :: "dns_hints_soa list"

definition dns_hints_acquire :: "dns_hints \<Rightarrow> u32 \<times> dns_hints" where
  "dns_hints_acquire H =
     (let (old, n) = dns_atomic_inc (hints_refcount H) in (old, H\<lparr>hints_refcount := n\<rparr>))"

definition dns_hints_release :: "dns_hints \<Rightarrow> u32 \<times> dns_hints" where
  "dns_hints_release H =
     (let (old, n) = dns_atomic_dec (hints_refcount H) in (old, H\<lparr>hints_refcount := n\<rparr>))"

definition dns_hints_close :: "dns_hints option \<Rightarrow> dns_hints option" where
  "dns_hints_close hints =
     (case hints of
        None \<Rightarrow> None
      | Some H \<Rightarrow> (let (old, H) = dns_hints_release H in if old \<noteq> 1 then Some H else None))"

definition dns_hints_mortal :: "dns_hints option \<Rightarrow> dns_hints option" where
  "dns_hints_mortal hints = map_option (\<lambda>H. snd (dns_hints_release H)) hints"

definition dns_hints_open :: "nat option \<Rightarrow> dns_error + dns_hints" where
  "dns_hints_open oom =
     (case oom of
        Some e \<Rightarrow> Inl (SYS e)
      | None \<Rightarrow> Inr (snd (dns_hints_acquire \<lparr>hints_refcount = 0, soas = []\<rparr>)))"

fun fetch_from :: "nat \<Rightarrow> dns_hints_soa list \<Rightarrow> bytes \<Rightarrow> nat option" where
  "fetch_from k [] zone = None"
| "fetch_from k (s # ss) zone = (if strcasecmp zone (soa_zone s) = 0 then Some k else fetch_from (k + 1) ss zone)"

definition dns_hints_fetch :: "dns_hints \<Rightarrow> bytes \<Rightarrow> nat option" where
  "dns_hints_fetch H zone = fetch_from 0 (soas H) zone"

definition new_soa :: "bytes \<Rightarrow> dns_hints_soa" where
  "new_soa zone =
     \<lparr>soa_zone = snd (dns__printstring (cstr zone) (replicate 256 0) 0),
      addrs = replicate 16 \<lparr>h_ss = no_sockaddr, h_priority = 0\<rparr>, soa_count = 0\<rparr>"

text \<open>The address is copied over the slot; of a family without addresses no byte is copied.\<close>

definition soa_add :: "sockaddr \<Rightarrow> u32 \<Rightarrow> dns_hints_soa \<Rightarrow> dns_hints_soa" where
  "soa_add sa prio soa =
     (let i = soa_count soa mod 16;
          ss = (if dns_sa_len sa = 0 then h_ss (addrs soa ! i) else sa)
      in soa\<lparr>addrs := (addrs soa)[i := \<lparr>h_ss = ss, h_priority = max 1 prio\<rparr>],
             soa_count := (if soa_count soa < 16 then soa_count soa + 1 else soa_count soa)\<rparr>)"

definition dns_hints_insert :: "nat option \<Rightarrow> dns_hints \<Rightarrow> bytes \<Rightarrow> sockaddr \<Rightarrow> u32 \<Rightarrow> dns_error option \<times> dns_hints" where
  "dns_hints_insert oom H zone sa prio =
     (case (dns_hints_fetch H zone, oom) of
        (Some s, _) \<Rightarrow> (None, H\<lparr>soas := (soas H)[s := soa_add sa prio (soas H ! s)]\<rparr>)
      | (None, Some e) \<Rightarrow> (Some (SYS e), H)
      | (None, None) \<Rightarrow> (None, H\<lparr>soas := soa_add sa prio (new_soa zone) # soas H\<rparr>))"

text \<open>The loop of \<open>dns_hints_insert_resconf\<close>, with the number inserted and the priority.\<close>

fun insert_servers :: "(nat \<Rightarrow> nat option) \<Rightarrow> bytes \<Rightarrow> bool \<Rightarrow> sockaddr list \<Rightarrow> nat \<Rightarrow> u32 \<Rightarrow> dns_hints
    \<Rightarrow> dns_error option \<times> nat \<times> dns_hints" where
  "insert_servers oom zone rot [] n p H = (None, n, H)"
| "insert_servers oom zone rot (sa # sas) n p H =
     (if sa_addr sa = AF_OTHER 0 then (None, n, H)
      else case dns_hints_insert (oom n) H zone sa p of
             (Some e, H) \<Rightarrow> (Some e, n, H)
           | (None, H) \<Rightarrow> insert_servers oom zone rot sas (n + 1) (p + (if rot then 0 else 1)) H)"

definition dns_hints_insert_resconf :: "(nat \<Rightarrow> nat option) \<Rightarrow> dns_hints \<Rightarrow> bytes \<Rightarrow> dns_resolv_conf
    \<Rightarrow> dns_error option \<times> nat \<times> dns_hints" where
  "dns_hints_insert_resconf oom H zone rc = insert_servers oom zone (rotate rc) (nameserver rc) 0 1 H"

text \<open>\<open>loaded\<close> is what \<open>dns_resconf_local\<close> returns; it is called when there is no configuration. The
  configuration is closed at the end, which undoes the acquisition of one that was given.\<close>

definition dns_hints_local :: "nat option \<Rightarrow> (nat \<Rightarrow> nat option) \<Rightarrow> dns_error + dns_resolv_conf \<Rightarrow> dns_resolv_conf option
    \<Rightarrow> (dns_error + dns_hints) \<times> dns_resolv_conf option" where
  "dns_hints_local oom oom_soa loaded resconf =
     (case (case resconf of Some rc \<Rightarrow> Inr (snd (dns_resconf_acquire rc)) | None \<Rightarrow> loaded) of
        Inl e \<Rightarrow> (Inl e, dns_resconf_close None)
      | Inr rc \<Rightarrow>
          (case dns_hints_open oom of
             Inl e \<Rightarrow> Inl e
           | Inr H \<Rightarrow>
               (case dns_hints_insert_resconf oom_soa H [46, 0] rc of
                  (Some e, n, H) \<Rightarrow> if n = 0 then Inl e else Inr H
                | (None, n, H) \<Rightarrow> Inr H),
           dns_resconf_close (Some rc)))"

definition root_hints :: "(bool \<times> string) list" where
  "root_hints =
     [(False, ''198.41.0.4''), (True, ''2001:503:ba3e::2:30''), (False, ''192.228.79.201''), (False, ''192.33.4.12''),
      (False, ''128.8.10.90''), (False, ''192.203.230.10''), (False, ''192.5.5.241''), (True, ''2001:500:2f::f''),
      (False, ''192.112.36.4''), (False, ''128.63.2.53''), (True, ''2001:500:1::803f:235''), (False, ''192.36.148.17''),
      (False, ''192.58.128.30''), (True, ''2001:503:c27::2:30'')]"

fun insert_root :: "inet \<Rightarrow> nat option \<Rightarrow> (bool \<times> string) list \<Rightarrow> dns_hints \<Rightarrow> dns_error option \<times> dns_hints" where
  "insert_root N oom [] H = (None, H)"
| "insert_root N oom ((v6, s) # hs) H =
     (case dns_pton N v6 (str s) of
        Inl e \<Rightarrow> (Some e, H)
      | Inr a \<Rightarrow> (case dns_hints_insert oom H [46, 0] \<lparr>sa_addr = a, sa_port = 53\<rparr> 1 of
                   (Some e, H) \<Rightarrow> (Some e, H)
                 | (None, H) \<Rightarrow> insert_root N oom hs H))"

definition dns_hints_root :: "inet \<Rightarrow> nat option \<Rightarrow> nat option \<Rightarrow> dns_error + dns_hints" where
  "dns_hints_root N oom oom_soa =
     (case dns_hints_open oom of
        Inl e \<Rightarrow> Inl e
      | Inr H \<Rightarrow> (case insert_root N oom_soa root_hints H of (Some e, H) \<Rightarrow> Inl e | (None, H) \<Rightarrow> Inr H))"

section \<open>The iterator\<close>

record dns_hints_i =
  hi_zone :: bytes
  hi_next :: nat
  hi_seed :: u32

text \<open>The difference of two unsigned priorities, converted to \<open>int\<close>.\<close>

definition dns_hints_i_cmp :: "nat \<Rightarrow> nat \<Rightarrow> u32 \<Rightarrow> dns_hints_soa \<Rightarrow> int" where
  "dns_hints_i_cmp a b seed soa =
     (let cmp = sint (h_priority (addrs soa ! a) - h_priority (addrs soa ! b))
      in if cmp \<noteq> 0 then cmp else int (shuffled a seed) - int (shuffled b seed))"

definition dns_hints_i_start :: "u32 \<Rightarrow> dns_hints_soa \<Rightarrow> nat" where
  "dns_hints_i_start seed soa =
     foldl (\<lambda>p0 p. if dns_hints_i_cmp p p0 seed soa < 0 then p else p0) 0 [1..<soa_count soa]"

definition dns_hints_i_skip :: "nat \<Rightarrow> u32 \<Rightarrow> dns_hints_soa \<Rightarrow> nat" where
  "dns_hints_i_skip p0 seed soa =
     (case find (\<lambda>pZ. 0 < dns_hints_i_cmp pZ p0 seed soa) [0..<soa_count soa] of
        None \<Rightarrow> soa_count soa
      | Some pZ \<Rightarrow>
          foldl (\<lambda>pZ p. if dns_hints_i_cmp p p0 seed soa \<le> 0 then pZ
                        else if 0 \<le> dns_hints_i_cmp p pZ seed soa then pZ else p)
            pZ [pZ + 1..<soa_count soa])"

text \<open>\<open>rnd\<close> are the next values of \<open>dns_random\<close>; the loop draws until one is not zero.\<close>

definition dns_hints_i_init :: "u32 list \<Rightarrow> bytes \<Rightarrow> dns_hints \<Rightarrow> (dns_hints_i \<times> u32 list) option" where
  "dns_hints_i_init rnd zone H =
     (case dropWhile (\<lambda>s. s = 0) rnd of
        [] \<Rightarrow> None
      | seed # rnd \<Rightarrow>
          Some (\<lparr>hi_zone = zone, hi_next = (case dns_hints_fetch H zone of None \<Rightarrow> 0 | Some s \<Rightarrow> dns_hints_i_start seed (soas H ! s)),
                 hi_seed = seed\<rparr>, rnd))"

fun hints_grep_loop :: "nat \<Rightarrow> dns_hints_i \<Rightarrow> dns_hints_soa \<Rightarrow> (sockaddr \<times> nat) list \<times> dns_hints_i" where
  "hints_grep_loop 0 i soa = ([], i)"
| "hints_grep_loop (Suc lim) i soa =
     (if hi_next i < soa_count soa then
        let sa = h_ss (addrs soa ! hi_next i);
            (sas, i) = hints_grep_loop lim (i\<lparr>hi_next := dns_hints_i_skip (hi_next i) (hi_seed i) soa\<rparr>) soa
        in ((sa, dns_sa_len sa) # sas, i)
      else ([], i))"

definition dns_hints_grep :: "nat \<Rightarrow> dns_hints_i \<Rightarrow> dns_hints \<Rightarrow> (sockaddr \<times> nat) list \<times> dns_hints_i" where
  "dns_hints_grep lim i H =
     (case dns_hints_fetch H (hi_zone i) of
        None \<Rightarrow> ([], i)
      | Some s \<Rightarrow> hints_grep_loop lim i (soas H ! s))"

text \<open>\<open>dns_hints_port\<close> in host byte order.\<close>

definition dns_hints_port :: "dns_hints \<Rightarrow> dns_addr \<Rightarrow> nat" where
  "dns_hints_port H addr =
     (case find (\<lambda>sa. sa_addr sa = addr) (concat (map (\<lambda>s. map h_ss (take (soa_count s) (addrs s))) (soas H))) of
        None \<Rightarrow> 53
      | Some sa \<Rightarrow> if dns_sa_port sa = 0 then 53 else dns_sa_port sa)"

section \<open>Answering a query\<close>

definition hints_local :: bytes where
  "hints_local = str ''hints.local.''"

definition hints_addr_body :: "dns_hints \<Rightarrow> dns_hints_i \<times> dns_packet
    \<Rightarrow> ((dns_hints_i \<times> dns_packet) + (dns_error option \<times> dns_packet)) option" where
  "hints_addr_body H = (\<lambda>(i, P).
     case dns_hints_grep 1 i H of
       ([], i) \<Rightarrow> Some (Inr (None, P))
     | ((sa, _) # _, i) \<Rightarrow> do {
         (type, any) \<leftarrow> (case sa_addr sa of AF_INET6 a \<Rightarrow> Some (DNS_T_AAAA, Any_aaaa a) | AF_INET a \<Rightarrow> Some (DNS_T_A, Any_a a)
                          | AF_OTHER _ \<Rightarrow> None);
         (err, P) \<leftarrow> dns_p_push P DNS_S_AR hints_local type 1 0 any;
         Some (if err \<noteq> None then Inr (err, P) else Inl (i, P))
       })"

definition hints_zone_body :: "dns_hints \<Rightarrow> bytes \<times> nat \<times> u32 list \<times> dns_packet
    \<Rightarrow> ((bytes \<times> nat \<times> u32 list \<times> dns_packet) + (dns_error option \<times> dns_packet)) option" where
  "hints_zone_body H = (\<lambda>(zone, zlen, rnd, P). do {
     (i, rnd) \<leftarrow> dns_hints_i_init rnd zone H;
     (err, P) \<leftarrow> loop (hints_addr_body H) (i, P);
     if err \<noteq> None then Some (Inr (err, P))
     else do {
       z \<leftarrow> rdn zone 0 zlen;
       let (zlen, zone) = dns_d_cleave zone z;
       Some (if zlen = 0 then Inr (None, P) else Inl (zone, zlen, rnd, P))
     }
   })"

definition dns_hints_query :: "(nat \<Rightarrow> nat) \<Rightarrow> u32 \<Rightarrow> (nat \<Rightarrow> nat + bytes) \<Rightarrow> u32 list \<Rightarrow> dns_hints \<Rightarrow> dns_packet
    \<Rightarrow> (dns_error option + dns_packet) option" where
  "dns_hints_query junk seed malloc rnd H Q = do {
     (err, rrs, i) \<leftarrow> dns_rr_grep junk seed 1 (dns_rr_i_new DNS_S_QD None 0 0 None Sort_default) Q;
     case rrs of
       [] \<Rightarrow> Some (Inl err)
     | rr # _ \<Rightarrow> do {
         (err, zlen, zone) \<leftarrow> dns_d_expand (replicate 256 0) (dnp rr) Q;
         if err \<noteq> None then Some (Inl err)
         else if 256 \<le> zlen then Some (Inl (Some DNS_EILLEGAL))
         else do {
           P \<leftarrow> dns_p_init (replicate 512 0);
           let P = P\<lparr>data := (data P)[2 := data P ! 2 OR 0x80]\<rparr>;
           (err, P) \<leftarrow> dns_rr_copy P rr Q;
           if err \<noteq> None then Some (Inl err)
           else do {
             (err, P) \<leftarrow> dns_p_push P DNS_S_NS [46] DNS_T_NS 1 0 (Any_ns \<lparr>ns_host = hints_local @ [0]\<rparr>);
             if err \<noteq> None then Some (Inl err)
             else do {
               (err, P) \<leftarrow> loop (hints_zone_body H) (zone, zlen, rnd, P);
               if err \<noteq> None then Some (Inl err)
               else map_option (map_sum Some (\<lambda>A. dns_p_copy A P)) (dns_p_make malloc (pend P))
             }
           }
         }
       }
   }"

section \<open>The order of the addresses\<close>

definition soa_ok :: "dns_hints_soa \<Rightarrow> bool" where
  "soa_ok soa \<longleftrightarrow> soa_count soa \<le> 16 \<and> length (addrs soa) = 16 \<and>
     (\<forall>a \<in> set (take (soa_count soa) (addrs soa)). unat (h_priority a) < 2147483648)"

lemma sint_minus:
  fixes a b :: u32
  assumes "unat a < 2147483648" "unat b < 2147483648"
  shows "sint (a - b) = int (unat a) - int (unat b)"
proof -
  have ab: "a - b = word_of_int (uint a - uint b)" by (metis wi_hom_sub word_of_int_uint)
  have s: "sint (a - b) = signed_take_bit 31 (uint a - uint b)" unfolding ab by (subst signed_of_int) simp
  have u: "uint a = int (unat a)" "uint b = int (unat b)" by simp_all
  have p: "(2 :: int) ^ 31 = 2147483648" by simp
  have "- (2 ^ 31) \<le> int (unat a) - int (unat b)" "int (unat a) - int (unat b) < 2 ^ 31"
    unfolding p using assms by linarith+
  then show ?thesis unfolding s u by (rule signed_take_bit_int_eq_self)
qed

definition prio :: "dns_hints_soa \<Rightarrow> nat \<Rightarrow> nat" where
  "prio soa p = unat (h_priority (addrs soa ! p))"

definition low :: "dns_hints_soa \<Rightarrow> nat set" where
  "low soa = {p. p < 65536 \<and> prio soa p < 2147483648}"

abbreviation (input) hcmp :: "u32 \<Rightarrow> dns_hints_soa \<Rightarrow> nat \<Rightarrow> nat \<Rightarrow> int" where
  "hcmp seed soa \<equiv> \<lambda>a b. dns_hints_i_cmp a b seed soa"

lemma hints_cmp:
  assumes "a \<in> low soa" "b \<in> low soa"
  shows "dns_hints_i_cmp a b seed soa =
    (if prio soa a \<noteq> prio soa b then int (prio soa a) - int (prio soa b) else int (shuffled a seed) - int (shuffled b seed))"
proof -
  have "sint (h_priority (addrs soa ! a) - h_priority (addrs soa ! b)) = int (prio soa a) - int (prio soa b)"
    using assms by (simp only: low_def prio_def mem_Collect_eq sint_minus)
  then show ?thesis unfolding dns_hints_i_cmp_def Let_def by (simp only: right_minus_eq of_nat_eq_iff)
qed

interpretation hints_order: rr_order "\<lambda>a b. dns_hints_i_cmp a b seed soa" "low soa" for seed soa
  by unfold_locales (auto simp: hints_cmp sgn_if split: if_splits)

lemma shuffled_inj:
  assumes "shuffled a s = shuffled b s" "a < 65536" "b < 65536"
  shows "a = b"
proof -
  have "dns_k_shuffle16 (word_of_nat a) s = dns_k_shuffle16 (word_of_nat b) s"
    using assms(1) by (simp add: shuffled_def word_unat_eq_iff)
  then have "(word_of_nat a :: 16 word) = word_of_nat b" using dns_k_shuffle16_inj by (auto simp: inj_def)
  then have "take_bit 16 a = take_bit 16 b" by (simp add: word_of_nat_eq_iff)
  then show ?thesis using assms(2,3) by (simp add: take_bit_eq_mod)
qed

lemma hints_cmp_eq: "a \<in> low soa \<Longrightarrow> b \<in> low soa \<Longrightarrow> dns_hints_i_cmp a b seed soa = 0 \<Longrightarrow> a = b"
  by (auto simp: hints_cmp low_def intro: shuffled_inj split: if_splits)

lemma soa_low:
  assumes "soa_ok soa" "p < soa_count soa"
  shows "p \<in> low soa"
proof -
  have "addrs soa ! p \<in> set (take (soa_count soa) (addrs soa))"
    using assms by (auto simp: soa_ok_def in_set_conv_nth intro!: exI [of _ p])
  then show ?thesis using assms by (auto simp: soa_ok_def low_def prio_def)
qed

section \<open>Start and skip find the first and the next address\<close>

lemma start_first: "0 < soa_count soa \<Longrightarrow> first (hcmp seed soa) [0..<soa_count soa] = Some (dns_hints_i_start seed soa)"
  by (simp add: upt_conv_Cons dns_hints_i_start_def pick_def [abs_def])

lemma foldl_pick_filter:
  "foldl (\<lambda>z p. if \<not> Q p then z else if 0 \<le> cmp p z then z else p) z xs = foldl (pick cmp) z (filter Q xs)"
  by (induction xs arbitrary: z) (auto simp: pick_def not_less)

lemma foldl_pick_in: "foldl (pick c) z xs \<in> set (z # xs)"
proof (induction xs arbitrary: z)
  case (Cons x xs)
  show ?case using Cons.IH [of "pick c z x"] by (auto simp: pick_def)
qed simp

lemma first_in: "first c M = Some p \<Longrightarrow> p \<in> set M"
  using foldl_pick_in by (cases M) fastforce+

lemma find_upt:
  assumes "find Q [0..<n] = Some z"
  shows "z < n" "filter Q [0..<n] = z # filter Q [z + 1..<n]"
proof -
  have z: "z < n" "Q z" "\<forall>j < z. \<not> Q j" using assms by (auto simp: find_Some_iff)
  have "[0..<n] = [0..<z] @ z # [z + 1..<n]"
    using z(1) upt_add_eq_append [of 0 z "n - z"] by (simp add: upt_conv_Cons)
  then show "z < n" "filter Q [0..<n] = z # filter Q [z + 1..<n]"
    using z by (auto simp: filter_empty_conv)
qed

lemma skip_first:
  "first (hcmp seed soa) (beyond (hcmp seed soa) p [0..<soa_count soa]) =
     (if dns_hints_i_skip p seed soa < soa_count soa then Some (dns_hints_i_skip p seed soa) else None)"
proof (cases "find (\<lambda>pZ. 0 < dns_hints_i_cmp pZ p seed soa) [0..<soa_count soa]")
  case None
  then have "beyond (hcmp seed soa) p [0..<soa_count soa] = []"
    by (auto simp: beyond_def find_None_iff filter_empty_conv)
  then show ?thesis using None by (simp add: dns_hints_i_skip_def)
next
  case (Some z)
  note z = find_upt [OF Some]
  have s: "dns_hints_i_skip p seed soa =
      foldl (pick (hcmp seed soa)) z (filter (\<lambda>q. 0 < dns_hints_i_cmp q p seed soa) [z + 1..<soa_count soa])"
    using Some by (simp add: dns_hints_i_skip_def foldl_pick_filter [symmetric] not_less)
  have "dns_hints_i_skip p seed soa < soa_count soa" 
    using foldl_pick_in [of "hcmp seed soa" z "filter (\<lambda>q. 0 < dns_hints_i_cmp q p seed soa) [z + 1..<soa_count soa]"] z(1) s by auto
  then show ?thesis using z(2) s by (simp add: beyond_def)
qed

section \<open>Grep enumerates the addresses of a zone\<close>

definition grep_out :: "dns_hints_soa \<Rightarrow> nat \<Rightarrow> sockaddr \<times> nat" where
  "grep_out soa p = (h_ss (addrs soa ! p), dns_sa_len (h_ss (addrs soa ! p)))"

lemma grep_from:
  assumes "soa_ok soa" "p < soa_count soa"
  shows "\<exists>ps. enumerates (hcmp seed soa) (beyond (hcmp seed soa) p [0..<soa_count soa]) ps \<and>
    (\<forall>lim i. hi_next i = p \<longrightarrow> hi_seed i = seed \<longrightarrow> fst (hints_grep_loop lim i soa) = map (grep_out soa) (take lim (p # ps)))"
  using assms(2)
proof (induction "length (beyond (hcmp seed soa) p [0..<soa_count soa])" arbitrary: p rule: less_induct)
  case less
  let ?c = "hcmp seed soa" and ?M = "[0..<soa_count soa]" and ?q = "dns_hints_i_skip p seed soa"
  have M: "set ?M \<subseteq> low soa" using soa_low [OF assms(1)] by auto
  have p: "p \<in> low soa" using soa_low [OF assms(1) less.prems] .
  show ?case
  proof (cases "?q < soa_count soa")
    case True
    then have q: "first ?c (beyond ?c p ?M) = Some ?q" using skip_first [of seed soa p] by simp
    obtain ps where ps: "enumerates ?c (beyond ?c ?q ?M) ps"
      "\<forall>lim i. hi_next i = ?q \<longrightarrow> hi_seed i = seed \<longrightarrow> fst (hints_grep_loop lim i soa) = map (grep_out soa) (take lim (?q # ps))"
      using less.hyps [OF hints_order.first_beyond(3) [OF M p q] True] by blast
    have "fst (hints_grep_loop lim i soa) = map (grep_out soa) (take lim (p # ?q # ps))"
      if "hi_next i = p" "hi_seed i = seed" for lim i
    proof (cases lim)
      case (Suc l)
      have "fst (hints_grep_loop l (i\<lparr>hi_next := ?q\<rparr>) soa) = map (grep_out soa) (take l (?q # ps))"
        using ps(2) that by simp
      then show ?thesis using that less.prems Suc by (simp add: Let_def grep_out_def split_beta)
    qed simp
    then show ?thesis using hints_order.enumerates_step [OF M p q ps(1)] by blast
  next
    case False
    then have "beyond ?c p ?M = []" using skip_first [of seed soa p] by (cases "beyond ?c p ?M") auto
    moreover have "fst (hints_grep_loop lim i soa) = map (grep_out soa) (take lim [p])"
      if i: "hi_next i = p" "hi_seed i = seed" for lim i
    proof (cases lim)
      case (Suc l)
      have "hints_grep_loop l (i\<lparr>hi_next := ?q\<rparr>) soa = ([], i\<lparr>hi_next := ?q\<rparr>)" using False by (cases l) simp_all
      then show ?thesis using Suc i less.prems by (simp add: Let_def grep_out_def)
    qed simp
    ultimately show ?thesis by (intro exI [of _ "[]"]) (simp add: enumerates_def)
  qed
qed

text \<open>\<open>by_priority\<close>: every address of the zone once, those of a smaller priority first.\<close>

definition by_priority :: "dns_hints_soa \<Rightarrow> nat list \<Rightarrow> bool" where
  "by_priority soa ps \<longleftrightarrow> distinct ps \<and> set ps = {..<soa_count soa} \<and> sorted_wrt (\<lambda>a b. prio soa a \<le> prio soa b) ps"

lemma enumerates_by_priority:
  assumes "soa_ok soa" "enumerates (hcmp seed soa) [0..<soa_count soa] ps"
  shows "by_priority soa ps"
proof -
  have low: "x \<in> low soa" if "x < soa_count soa" for x using soa_low [OF assms(1) that] .
  have s: "set ps = set [0..<soa_count soa]"
    by (rule enumerates_set [OF assms(2)], rule hints_cmp_eq) (auto intro: low)
  have sw: "sorted_wrt (\<lambda>a b. dns_hints_i_cmp a b seed soa < 0) ps" using assms(2) by (simp only: enumerates_def)
  have step: "a \<noteq> b \<and> prio soa a \<le> prio soa b"
    if "a \<in> set ps" "b \<in> set ps" "dns_hints_i_cmp a b seed soa < 0" for a b
  proof -
    have "a \<in> low soa" "b \<in> low soa" using that s low by simp_all
    then show ?thesis using that(3) hints_cmp [of a soa b seed] by (cases "a = b") (simp_all split: if_splits)
  qed
  have "sorted_wrt (\<lambda>a b. a \<noteq> b) ps" by (rule sorted_wrt_mono_rel [OF _ sw]) (simp add: step)
  moreover have "sorted_wrt (\<lambda>a b. prio soa a \<le> prio soa b) ps" by (rule sorted_wrt_mono_rel [OF _ sw]) (simp add: step)
  ultimately show ?thesis
    using s sorted_wrt_distinct [of "\<lambda>a b. a \<noteq> b" ps] by (simp add: by_priority_def atLeast0LessThan)
qed

lemma grep_all:
  assumes "soa_ok soa"
  shows "\<exists>ps. by_priority soa ps \<and>
    (\<forall>lim i. hi_next i = dns_hints_i_start seed soa \<longrightarrow> hi_seed i = seed \<longrightarrow>
      fst (hints_grep_loop lim i soa) = map (grep_out soa) (take lim ps))"
proof (cases "soa_count soa")
  case 0
  have "fst (hints_grep_loop lim i soa) = []" for lim i using 0 by (cases lim) simp_all
  then show ?thesis using 0 by (intro exI [of _ "[]"]) (simp add: by_priority_def)
next
  case (Suc n)
  let ?M = "[0..<soa_count soa]" and ?p = "dns_hints_i_start seed soa"
  have M: "set ?M \<subseteq> low soa" using soa_low [OF assms] by auto
  have f: "first (hcmp seed soa) ?M = Some ?p" by (rule start_first) (simp add: Suc)
  have "?p < soa_count soa" using first_in [OF f] by simp
  then obtain ps where ps: "enumerates (hcmp seed soa) (beyond (hcmp seed soa) ?p ?M) ps"
      "\<forall>lim i. hi_next i = ?p \<longrightarrow> hi_seed i = seed \<longrightarrow> fst (hints_grep_loop lim i soa) = map (grep_out soa) (take lim (?p # ps))"
    using grep_from [OF assms] by blast
  show ?thesis
    using enumerates_by_priority [OF assms hints_order.enumerates_start [OF M f ps(1)]] ps(2) by blast
qed

section \<open>From the configuration to the order of the servers\<close>

fun with_prio :: "bool \<Rightarrow> u32 \<Rightarrow> sockaddr list \<Rightarrow> dns_hints_addr list" where
  "with_prio rot p [] = []"
| "with_prio rot p (sa # sas) = \<lparr>h_ss = sa, h_priority = max 1 p\<rparr> # with_prio rot (p + (if rot then 0 else 1)) sas"

definition holds_servers :: "dns_hints_soa \<Rightarrow> dns_hints_addr list \<Rightarrow> bool" where
  "holds_servers soa as \<longleftrightarrow> strcasecmp [46, 0] (soa_zone soa) = 0 \<and> length (addrs soa) = 16 \<and>
     soa_count soa = length as \<and> take (length as) (addrs soa) = as"

lemma soa_add_holds:
  assumes "holds_servers soa as" "length as < 16" "dns_sa_len sa \<noteq> 0"
  shows "holds_servers (soa_add sa p soa) (as @ [\<lparr>h_ss = sa, h_priority = max 1 p\<rparr>])"
proof -
  have "take (length as + 1) ((addrs soa)[length as := x]) = as @ [x]" for x
    using assms(1,2) by (simp add: holds_servers_def take_Suc_conv_app_nth)
  then show ?thesis using assms by (simp add: holds_servers_def soa_add_def Let_def)
qed

lemma new_soa_holds: "holds_servers (new_soa [46, 0]) []"
  by (simp add: holds_servers_def new_soa_def) code_simp

lemma fetch_dot: "soas H = [soa] \<Longrightarrow> holds_servers soa as \<Longrightarrow> dns_hints_fetch H [46, 0] = Some 0"
  by (simp add: dns_hints_fetch_def holds_servers_def)

lemma insert_servers_holds:
  assumes "soas H = [soa]" "holds_servers soa as" "length as + length sas \<le> 16"
    "\<forall>sa \<in> set sas. dns_sa_len sa \<noteq> 0 \<or> sa_addr sa = AF_OTHER 0"
  shows "\<exists>soa' n'. insert_servers oom [46, 0] rot sas n p H = (None, n', H\<lparr>soas := [soa']\<rparr>) \<and>
    holds_servers soa' (as @ with_prio rot p (takeWhile (\<lambda>sa. sa_addr sa \<noteq> AF_OTHER 0) sas))"
  using assms
proof (induction sas arbitrary: H soa as n p)
  case Nil
  then have "H\<lparr>soas := [soa]\<rparr> = H" by (cases H) simp
  then show ?case using Nil by (intro exI [of _ soa] exI [of _ n]) simp
next
  case (Cons sa sas)
  have f: "dns_hints_fetch H [46, 0] = Some 0" by (rule fetch_dot [OF Cons.prems(1,2)])
  show ?case
  proof (cases "sa_addr sa = AF_OTHER 0")
    case True
    have "H\<lparr>soas := [soa]\<rparr> = H" using Cons.prems(1) by (cases H) simp
    then show ?thesis using True Cons.prems(2) by (intro exI [of _ soa] exI [of _ n]) simp
  next
    case False
    let ?soa = "soa_add sa p soa"
    have h: "holds_servers ?soa (as @ [\<lparr>h_ss = sa, h_priority = max 1 p\<rparr>])"
      using Cons.prems False by (intro soa_add_holds) auto
    have "dns_hints_insert (oom n) H [46, 0] sa p = (None, H\<lparr>soas := [?soa]\<rparr>)"
      using f Cons.prems(1) by (simp add: dns_hints_insert_def)
    moreover obtain soa' n' where "insert_servers oom [46, 0] rot sas (n + 1) (p + (if rot then 0 else 1)) (H\<lparr>soas := [?soa]\<rparr>) =
        (None, n', H\<lparr>soas := [soa']\<rparr>)"
      "holds_servers soa' ((as @ [\<lparr>h_ss = sa, h_priority = max 1 p\<rparr>]) @
         with_prio rot (p + (if rot then 0 else 1)) (takeWhile (\<lambda>sa. sa_addr sa \<noteq> AF_OTHER 0) sas))"
      using Cons.IH [OF _ h, of "H\<lparr>soas := [?soa]\<rparr>" "n + 1" "p + (if rot then 0 else 1)"] Cons.prems by auto
    ultimately show ?thesis using False by auto
  qed
qed

lemma insert_servers_empty:
  assumes "soas H = []" "length sas \<le> 16" "\<forall>sa \<in> set sas. dns_sa_len sa \<noteq> 0 \<or> sa_addr sa = AF_OTHER 0"
    "takeWhile (\<lambda>sa. sa_addr sa \<noteq> AF_OTHER 0) sas \<noteq> []"
  shows "\<exists>soa' n'. insert_servers (\<lambda>_. None) [46, 0] rot sas 0 p H = (None, n', H\<lparr>soas := [soa']\<rparr>) \<and>
    holds_servers soa' (with_prio rot p (takeWhile (\<lambda>sa. sa_addr sa \<noteq> AF_OTHER 0) sas))"
proof -
  obtain sa sas' where sas: "sas = sa # sas'" "sa_addr sa \<noteq> AF_OTHER 0"
    using assms(4) by (cases sas) (auto split: if_splits)
  let ?soa = "soa_add sa p (new_soa [46, 0])"
  have h: "holds_servers ?soa [\<lparr>h_ss = sa, h_priority = max 1 p\<rparr>]"
    using soa_add_holds [OF new_soa_holds, of sa p] assms(3) sas by simp
  have "dns_hints_insert None H [46, 0] sa p = (None, H\<lparr>soas := [?soa]\<rparr>)"
    using assms(1) by (simp add: dns_hints_insert_def dns_hints_fetch_def)
  then show ?thesis
    using insert_servers_holds [OF _ h, of "H\<lparr>soas := [?soa]\<rparr>" sas' "\<lambda>_. None" rot 1 "p + (if rot then 0 else 1)"] assms(2,3) sas
    by auto
qed

lemma with_prio_ss [simp]: "map h_ss (with_prio rot p sas) = sas"
  by (induction rot p sas rule: with_prio.induct) auto

lemma with_prio_length [simp]: "length (with_prio rot p sas) = length sas"
  by (induction rot p sas rule: with_prio.induct) auto

lemma with_prio_nth: "k < length sas \<Longrightarrow> h_priority (with_prio rot p sas ! k) = max 1 (p + (if rot then 0 else of_nat k))"
proof (induction rot p sas arbitrary: k rule: with_prio.induct)
  case (2 rot p sa sas)
  then show ?case by (cases k) (auto simp: algebra_simps)
qed simp

lemma holds_soa_ok:
  assumes "holds_servers soa (with_prio rot 1 sas)" "length sas \<le> 3"
  shows "soa_ok soa" "soa_count soa = length sas" "\<And>k. k < length sas \<Longrightarrow> h_ss (addrs soa ! k) = sas ! k"
    "\<And>k. k < length sas \<Longrightarrow> prio soa k = (if rot then 1 else 1 + k)"
proof -
  have t: "addrs soa ! k = with_prio rot 1 sas ! k" if "k < length sas" for k
    using assms(1) that nth_take [of k "length sas" "addrs soa"] by (simp add: holds_servers_def)
  show c: "soa_count soa = length sas" using assms(1) by (simp add: holds_servers_def)
  show "h_ss (addrs soa ! k) = sas ! k" if "k < length sas" for k
    using t [OF that] nth_map [of k "with_prio rot 1 sas" h_ss] that by simp
  show p: "prio soa k = (if rot then 1 else 1 + k)" if "k < length sas" for k
  proof -
    have "k \<in> {0, 1, 2}" using that assms(2) by auto
    then show ?thesis using t [OF that] with_prio_nth [OF that, of rot 1] by (auto simp: prio_def max_def)
  qed
  have "unat (h_priority a) < 2147483648" if a: "a \<in> set (take (length sas) (addrs soa))" for a
  proof -
    obtain k where "k < length sas" "a = addrs soa ! k" using a by (auto simp: in_set_conv_nth)
    then show ?thesis using p [of k] assms(2) by (simp add: prio_def split: if_splits)
  qed
  then show "soa_ok soa" using assms c by (simp add: soa_ok_def holds_servers_def)
qed

lemma by_priority_upt:
  assumes "by_priority soa ps" "\<And>k. k < soa_count soa \<Longrightarrow> prio soa k = 1 + k"
  shows "ps = [0..<soa_count soa]"
proof (rule sorted_distinct_set_unique)
  have ps: "set ps = {..<soa_count soa}" "sorted_wrt (\<lambda>a b. prio soa a \<le> prio soa b) ps"
    using assms(1) by (simp_all only: by_priority_def)
  show "sorted ps"
  proof (rule sorted_wrt_mono_rel [OF _ ps(2)])
    fix a b assume "a \<in> set ps" "b \<in> set ps" "prio soa a \<le> prio soa b"
    then show "a \<le> b" using ps(1) assms(2) [of a] assms(2) [of b] by simp
  qed
  show "set ps = set [0..<soa_count soa]" using ps(1) by (simp add: atLeast0LessThan)
qed (use assms(1) in \<open>simp_all add: by_priority_def\<close>)

lemma grep_servers:
  assumes "soas H = [soa]" "holds_servers soa (with_prio rot 1 sas)" "length sas \<le> 3" "dns_hints_i_init rnd [46, 0] H = Some (i, rnd')"
  shows "\<exists>out. mset out = mset sas \<and> (\<not> rot \<longrightarrow> out = sas) \<and> (\<forall>lim. map fst (fst (dns_hints_grep lim i H)) = take lim out)"
proof -
  note ok = holds_soa_ok [OF assms(2,3)]
  have f: "dns_hints_fetch H [46, 0] = Some 0" by (rule fetch_dot [OF assms(1,2)])
  have i: "hi_zone i = [46, 0]" "hi_next i = dns_hints_i_start (hi_seed i) soa"
    using assms(1,4) f by (auto simp: dns_hints_i_init_def split: list.splits)
  obtain ps where ps: "by_priority soa ps"
    "\<forall>lim j. hi_next j = dns_hints_i_start (hi_seed i) soa \<longrightarrow> hi_seed j = hi_seed i \<longrightarrow>
      fst (hints_grep_loop lim j soa) = map (grep_out soa) (take lim ps)"
    using grep_all [OF ok(1), of "hi_seed i"] by blast
  have g: "fst (hints_grep_loop lim i soa) = map (grep_out soa) (take lim ps)" for lim
    by (rule ps(2) [rule_format, OF i(2)]) simp
  have d: "distinct ps" "set ps = set [0..<soa_count soa]"
    using ps(1) by (simp_all add: by_priority_def atLeast0LessThan)
  let ?out = "map (\<lambda>k. h_ss (addrs soa ! k)) ps"
  have sas: "map (\<lambda>k. h_ss (addrs soa ! k)) [0..<soa_count soa] = sas"
    using ok(2,3) by (intro nth_equalityI) auto
  have "mset ps = mset [0..<soa_count soa]"
    using d set_eq_iff_mset_eq_distinct [of ps "[0..<soa_count soa]"] by simp
  then have "mset ?out = mset sas" unfolding sas [symmetric] mset_map by simp
  moreover have "?out = sas" if "\<not> rot" using by_priority_upt [OF ps(1)] ok(2,4) that sas by simp
  moreover have "map fst (fst (dns_hints_grep lim i H)) = take lim ?out" for lim
    using f i(1) assms(1) g [of lim] by (simp add: dns_hints_grep_def take_map grep_out_def)
  ultimately show ?thesis by blast
qed

definition servers :: "dns_resolv_conf \<Rightarrow> sockaddr list" where
  "servers rc = takeWhile (\<lambda>sa. sa_addr sa \<noteq> AF_OTHER 0) (nameserver rc)"

text \<open>C12: The hints the resolver starts from hand out exactly the configured name servers: for a
  well-formed configuration \<open>dns_hints_local\<close> succeeds, and an iterator over the root zone, whatever
  the random seed, yields every name server once and then nothing; in the order of the
  configuration, unless it asks for rotation. It does not matter in which portions they are fetched.\<close>
theorem dns_hints_local_servers:
  assumes "resconf_ok rc" "servers rc \<noteq> []"
  shows "\<exists>H. fst (dns_hints_local None (\<lambda>_. None) loaded (Some rc)) = Inr H \<and>
    (\<forall>rnd i rnd'. dns_hints_i_init rnd [46, 0] H = Some (i, rnd') \<longrightarrow>
      (\<exists>out. mset out = mset (servers rc) \<and> (\<not> rotate rc \<longrightarrow> out = servers rc) \<and>
        (\<forall>lim. map fst (fst (dns_hints_grep lim i H)) = take lim out)))"
proof -
  let ?rc = "snd (dns_resconf_acquire rc)" and ?H = "snd (dns_hints_acquire \<lparr>hints_refcount = 0, soas = []\<rparr>)"
  have rc: "nameserver ?rc = nameserver rc" "rotate ?rc = rotate rc" by (simp_all add: dns_resconf_acquire_def Let_def split_beta)
  have H: "soas ?H = []" by (simp add: dns_hints_acquire_def Let_def split_beta)
  have ns: "length (nameserver rc) = 3" "\<forall>sa \<in> set (nameserver rc). dns_sa_len sa \<noteq> 0 \<or> sa_addr sa = AF_OTHER 0"
    using assms(1) by (auto simp: resconf_ok_def list_all_iff sockaddr_ok_def addr_ok_def dns_sa_len_def dns_af_len_def split: dns_addr.splits)
  obtain soa n where soa: "insert_servers (\<lambda>_. None) [46, 0] (rotate rc) (nameserver rc) 0 1 ?H = (None, n, ?H\<lparr>soas := [soa]\<rparr>)"
    "holds_servers soa (with_prio (rotate rc) 1 (servers rc))"
    using insert_servers_empty [OF H _ ns(2), of "rotate rc" 1] ns(1) assms(2) by (auto simp: servers_def)
  have l: "length (servers rc) \<le> 3" using length_takeWhile_le [of _ "nameserver rc"] ns(1) by (simp add: servers_def)
  have "fst (dns_hints_local None (\<lambda>_. None) loaded (Some rc)) = Inr (?H\<lparr>soas := [soa]\<rparr>)"
    using soa(1) rc by (simp add: dns_hints_local_def dns_hints_open_def dns_hints_insert_resconf_def)
  then show ?thesis using grep_servers [OF _ soa(2) l, of "?H\<lparr>soas := [soa]\<rparr>"] by (intro exI conjI) auto
qed

theorem dns_hints_local_servers_witness:
  "let rc = \<lparr>nameserver = [\<lparr>sa_addr = AF_INET 1, sa_port = 53\<rparr>, \<lparr>sa_addr = AF_INET 2, sa_port = 54\<rparr>, no_sockaddr],
             search = replicate 4 (replicate 256 0), lookup = str ''bf'' @ [0], edns0 = False, ndots = 1, timeout = 5,
             attempts = 2, rotate = False, recurse = False, smart = False, tcp = DNS_RESCONF_TCP_ENABLE,
             iface = \<lparr>sa_addr = AF_INET 0, sa_port = 0\<rparr>, resconf_refcount = 1\<rparr>
   in \<exists>H i. fst (dns_hints_local None (\<lambda>_. None) (Inl DNS_EADDRESS) (Some rc)) = Inr H \<and>
        dns_hints_i_init [0, 7] [46, 0] H = Some (i, []) \<and>
        map fst (fst (dns_hints_grep 5 i H)) = [\<lparr>sa_addr = AF_INET 1, sa_port = 53\<rparr>, \<lparr>sa_addr = AF_INET 2, sa_port = 54\<rparr>]"
proof -
  define rc where "rc = \<lparr>nameserver = [\<lparr>sa_addr = AF_INET 1, sa_port = 53\<rparr>, \<lparr>sa_addr = AF_INET 2, sa_port = 54\<rparr>, no_sockaddr],
             search = replicate 4 (replicate 256 0), lookup = str ''bf'' @ [0], edns0 = False, ndots = 1, timeout = 5,
             attempts = 2, rotate = False, recurse = False, smart = False, tcp = DNS_RESCONF_TCP_ENABLE,
             iface = \<lparr>sa_addr = AF_INET 0, sa_port = 0\<rparr>, resconf_refcount = 1\<rparr>"
  have ok: "resconf_ok rc"
    by (simp add: rc_def resconf_ok_def sockaddr_ok_def addr_ok_def no_sockaddr_def) code_simp
  have sv: "servers rc = [\<lparr>sa_addr = AF_INET 1, sa_port = 53\<rparr>, \<lparr>sa_addr = AF_INET 2, sa_port = 54\<rparr>]" "\<not> rotate rc"
    by (simp_all add: rc_def servers_def no_sockaddr_def)
  have ne: "servers rc \<noteq> []" using sv(1) by simp
  obtain H where H: "fst (dns_hints_local None (\<lambda>_. None) (Inl DNS_EADDRESS) (Some rc)) = Inr H"
    "\<And>rnd i rnd'. dns_hints_i_init rnd [46, 0] H = Some (i, rnd') \<Longrightarrow>
      \<exists>out. mset out = mset (servers rc) \<and> (\<not> rotate rc \<longrightarrow> out = servers rc) \<and>
        (\<forall>lim. map fst (fst (dns_hints_grep lim i H)) = take lim out)"
    using dns_hints_local_servers [OF ok ne, of "Inl DNS_EADDRESS"] by blast
  obtain i where i: "dns_hints_i_init [0, 7] [46, 0] H = Some (i, [])" by (simp add: dns_hints_i_init_def)
  then have "map fst (fst (dns_hints_grep 5 i H)) = take 5 (servers rc)" using H(2) sv(2) by metis
  then show ?thesis unfolding Let_def rc_def [symmetric] using H(1) i sv(1) by (intro exI conjI) simp_all
qed

section \<open>A full table\<close>

text \<open>The slot of a new address is the number of addresses modulo 16, but that number stops at 16:
  once a zone has 16 addresses, every further one overwrites the first slot, and the one before it
  is lost.\<close>
lemma full_table_overwrites:
  assumes "soa_count soa = 16" "length (addrs soa) = 16" "dns_sa_len sa \<noteq> 0" "dns_sa_len sb \<noteq> 0"
  shows "soa_add sb q (soa_add sa p soa) = soa_add sb q soa"
  using assms by (simp add: soa_add_def Let_def)

text \<open>The built-in root servers fit.\<close>
lemma root_hints_fit: "length root_hints \<le> 16"
  by (simp add: root_hints_def)

end
