(* ===== verification/Dns_Socket.thy ===== *)
theory Dns_Socket
  imports Dns_Hints
begin

unbundle bit_operations_syntax

text \<open>
  The sockets of \<^verbatim>\<open>src/src/c/dns/libdns/dns.c\<close>: a query is sent over UDP, and over TCP
  when the answer is truncated, and the answer is compared with the question. \<open>dns_so_check\<close> drives
  this as a state machine on a socket that does not block; it is called again whenever the descriptor
  is ready. The operating system is a record of functions on a state of its own; \<open>None\<close> as the
  result of an operation means that it runs into undefined behaviour or does not return.
\<close>

section \<open>The operating system and the clock\<close>

abbreviation (input) AF_INET_N :: nat where "AF_INET_N \<equiv> 2"
abbreviation (input) AF_INET6_N :: nat where "AF_INET6_N \<equiv> 10"
abbreviation (input) SOCK_STREAM :: nat where "SOCK_STREAM \<equiv> 1"
abbreviation (input) SOCK_DGRAM :: nat where "SOCK_DGRAM \<equiv> 2"
abbreviation (input) EINTR :: dns_error where "EINTR \<equiv> SYS 4"
abbreviation (input) EAGAIN :: dns_error where "EAGAIN \<equiv> SYS 11"
abbreviation (input) EISCONN :: dns_error where "EISCONN \<equiv> SYS 106"
abbreviation (input) EALREADY :: dns_error where "EALREADY \<equiv> SYS 114"
abbreviation (input) EINPROGRESS :: dns_error where "EINPROGRESS \<equiv> SYS 115"

text \<open>A left value is the error number. \<open>n_realloc\<close> gives the bytes of the new memory behind
  those that are kept.\<close>

record 'w net =
  n_socket :: "dns_addr \<Rightarrow> nat \<Rightarrow> 'w \<Rightarrow> (nat + nat) \<times> 'w"
  n_fcntl :: "nat \<Rightarrow> nat \<Rightarrow> 'w \<Rightarrow> nat option \<times> 'w"
  n_bind :: "nat \<Rightarrow> sockaddr \<Rightarrow> 'w \<Rightarrow> nat option \<times> 'w"
  n_connect :: "nat option \<Rightarrow> sockaddr \<Rightarrow> 'w \<Rightarrow> nat option \<times> 'w"
  n_send :: "nat option \<Rightarrow> bytes \<Rightarrow> 'w \<Rightarrow> (nat + nat) \<times> 'w"
  n_recv :: "nat option \<Rightarrow> nat \<Rightarrow> 'w \<Rightarrow> (nat + bytes) \<times> 'w"
  n_close :: "nat \<Rightarrow> 'w \<Rightarrow> 'w"
  n_random :: "'w \<Rightarrow> u32 \<times> 'w"
  n_realloc :: "nat \<Rightarrow> 'w \<Rightarrow> (nat + bytes) \<times> 'w"
  n_time :: "'w \<Rightarrow> int \<times> 'w"
  n_closefd :: "(nat \<Rightarrow> 'w \<Rightarrow> dns_error option \<times> bool \<times> 'w) option"

text \<open>The clock keeps the last time of the system and its own ticks, which never go back.\<close>

record dns_clock =
  clk_last :: int
  clk_tick :: int

definition dns_now :: "int \<Rightarrow> dns_clock \<Rightarrow> int \<times> dns_clock" where
  "dns_now now c =
     (let tick = (if clk_last c < now then clk_tick c + (now - clk_last c) else clk_tick c)
      in (tick, \<lparr>clk_last = now, clk_tick = tick\<rparr>))"

definition dns_elapsed :: "int \<Rightarrow> int \<Rightarrow> dns_clock \<Rightarrow> int \<times> dns_clock" where
  "dns_elapsed from now c = (let (t, c) = dns_now now c in (if from < t then t - from else 0, c))"

section \<open>Opening a socket\<close>

definition dns_socketclose :: "'w net \<Rightarrow> nat option \<Rightarrow> 'w \<Rightarrow> nat option \<times> 'w" where
  "dns_socketclose N fd w = (None, case fd of None \<Rightarrow> w | Some f \<Rightarrow> n_close N f w)"

text \<open>At most \<open>DNS_SO_MAXTRY\<close> random ports are tried.\<close>

fun bind_random :: "'w net \<Rightarrow> nat \<Rightarrow> sockaddr \<Rightarrow> nat \<Rightarrow> 'w \<Rightarrow> bool \<times> 'w" where
  "bind_random N fd sa 0 w = (False, w)"
| "bind_random N fd sa (Suc k) w =
     (let (r, w) = n_random N w;
          (e, w) = n_bind N fd (sa\<lparr>sa_port := 1025 + unat (r mod 64510)\<rparr>) w
      in if e = None then (True, w) else bind_random N fd sa k w)"

definition is_inet :: "dns_addr \<Rightarrow> bool" where
  "is_inet a = (case a of AF_OTHER _ \<Rightarrow> False | _ \<Rightarrow> True)"

definition dns_socket :: "'w net \<Rightarrow> sockaddr \<Rightarrow> nat \<Rightarrow> 'w \<Rightarrow> (dns_error + nat) \<times> 'w" where
  "dns_socket N local type w =
     (case n_socket N (sa_addr local) type w of
        (Inl e, w) \<Rightarrow> (Inl (SYS e), w)
      | (Inr fd, w) \<Rightarrow>
          let fail = (\<lambda>e w. (Inl (SYS e), snd (dns_socketclose N (Some fd) w)))
          in case n_fcntl N fd 0 w of (Some e, w) \<Rightarrow> fail e w | (None, w) \<Rightarrow>
             (case n_fcntl N fd 1 w of (Some e, w) \<Rightarrow> fail e w | (None, w) \<Rightarrow>
             (case n_fcntl N fd 2 w of (Some e, w) \<Rightarrow> fail e w | (None, w) \<Rightarrow>
                if \<not> is_inet (sa_addr local) \<or> type \<noteq> SOCK_DGRAM then (Inr fd, w)
                else let (ok, w) = (if dns_sa_port local = 0 then bind_random N fd local 7 w else (False, w))
                     in if ok then (Inr fd, w)
                        else (case n_bind N fd local w of (None, w) \<Rightarrow> (Inr fd, w) | (Some e, w) \<Rightarrow> fail e w))))"

section \<open>The socket object\<close>

datatype dns_so_state = DNS_SO_NONE
  | DNS_SO_UDP_INIT | DNS_SO_UDP_CONN | DNS_SO_UDP_SEND | DNS_SO_UDP_RECV | DNS_SO_UDP_DONE
  | DNS_SO_TCP_INIT | DNS_SO_TCP_CONN | DNS_SO_TCP_SEND | DNS_SO_TCP_RECV | DNS_SO_TCP_DONE

record dns_traffic =
  tr_count :: nat
  tr_bytes :: nat

record dns_stat =
  st_queries :: nat
  udp_sent :: dns_traffic
  udp_rcvd :: dns_traffic
  tcp_sent :: dns_traffic
  tcp_rcvd :: dns_traffic

text \<open>A descriptor of \<open>-1\<close> is \<open>None\<close>. The two bytes in front of the data of the answer, which
  hold the length that comes first in a TCP stream, are \<open>so_pre\<close>. The query is the packet of the
  caller; what the socket changes in it, its identifier, is changed in \<open>so_query\<close>.\<close>

record dns_socket =
  so_udp :: "nat option"
  so_tcp :: "nat option"
  so_old :: "nat list"
  so_olim :: nat
  so_type :: nat
  so_local :: sockaddr
  so_remote :: sockaddr
  so_qids :: dns_k_permutor
  so_stat :: dns_stat
  so_state :: dns_so_state
  so_qid :: nat
  so_qname :: bytes
  so_qlen :: nat
  so_qtype :: nat
  so_qclass :: nat
  so_query :: "dns_packet option"
  so_qout :: nat
  so_began :: int
  so_answer :: "dns_packet option"
  so_pre :: bytes
  so_alen :: nat
  so_apos :: nat

definition dns_so_reset :: "dns_socket \<Rightarrow> dns_socket" where
  "dns_so_reset so =
     so\<lparr>so_state := DNS_SO_NONE, so_qid := 0, so_qname := replicate 256 0, so_qlen := 0, so_qtype := 0, so_qclass := 0,
        so_query := None, so_qout := 0, so_began := 0, so_answer := None, so_pre := [0, 0], so_alen := 0, so_apos := 0\<rparr>"

text \<open>A descriptor is not closed but kept in \<open>so_old\<close>, so that a caller that watches it notices the
  change; a callback of the options may close it instead.\<close>

definition dns_so_closefd :: "'w net \<Rightarrow> dns_socket \<Rightarrow> nat option \<Rightarrow> 'w
    \<Rightarrow> dns_error option \<times> nat option \<times> dns_socket \<times> 'w" where
  "dns_so_closefd N so fd w =
     (case fd of
        None \<Rightarrow> (None, None, so, w)
      | Some f \<Rightarrow>
          let (err, shut, w) = (case n_closefd N of None \<Rightarrow> (None, False, w) | Some cb \<Rightarrow> cb f w)
          in if err \<noteq> None then (err, if shut then None else fd, so, w)
             else if shut then (None, None, so, w)
             else if length (so_old so) < so_olim so then (None, None, so\<lparr>so_old := so_old so @ [f]\<rparr>, w)
             else let olim = max 4 (so_olim so * 2)
                  in case n_realloc N (4 * olim) w of
                       (Inl e, w) \<Rightarrow> (Some (SYS e), fd, so, w)
                     | (Inr _, w) \<Rightarrow> (None, None, so\<lparr>so_olim := olim, so_old := so_old so @ [f]\<rparr>, w))"

definition dns_so_closefds :: "'w net \<Rightarrow> bool \<Rightarrow> bool \<Rightarrow> bool \<Rightarrow> dns_socket \<Rightarrow> 'w \<Rightarrow> dns_socket \<times> 'w" where
  "dns_so_closefds N close_udp close_tcp close_old so w =
     (let (so, w) = (if close_udp then let (fd, w) = dns_socketclose N (so_udp so) w in (so\<lparr>so_udp := fd\<rparr>, w) else (so, w));
          (so, w) = (if close_tcp then let (fd, w) = dns_socketclose N (so_tcp so) w in (so\<lparr>so_tcp := fd\<rparr>, w) else (so, w))
      in if close_old then (so\<lparr>so_old := [], so_olim := 0\<rparr>, fold (\<lambda>f w. snd (dns_socketclose N (Some f) w)) (so_old so) w)
         else (so, w))"

definition dns_so_destroy :: "'w net \<Rightarrow> dns_socket \<Rightarrow> 'w \<Rightarrow> dns_socket \<times> 'w" where
  "dns_so_destroy N so w = dns_so_closefds N True True True (dns_so_reset so) w"

definition no_stat :: dns_stat where
  "no_stat = (let z = \<lparr>tr_count = 0, tr_bytes = 0\<rparr>
              in \<lparr>st_queries = 0, udp_sent = z, udp_rcvd = z, tcp_sent = z, tcp_rcvd = z\<rparr>)"

text \<open>\<open>keys\<close> are the random words of the permutor that draws the identifiers.\<close>

definition dns_so_init :: "'w net \<Rightarrow> u32 list \<Rightarrow> sockaddr option \<Rightarrow> nat \<Rightarrow> 'w \<Rightarrow> ((dns_error + dns_socket) \<times> 'w) option" where
  "dns_so_init N keys local type w = do {
     p \<leftarrow> dns_k_permutor_init keys 1 65535;
     let loc = (case local of Some sa \<Rightarrow> if dns_sa_len sa = 0 then no_sockaddr else sa | None \<Rightarrow> no_sockaddr);
     let (r, w) = dns_socket N loc SOCK_DGRAM w;
     Some (map_sum id (\<lambda>fd.
         dns_so_reset \<lparr>so_udp = Some fd, so_tcp = None, so_old = [], so_olim = 0, so_type = type, so_local = loc,
           so_remote = no_sockaddr, so_qids = p, so_stat = no_stat, so_state = DNS_SO_NONE, so_qid = 0,
           so_qname = [], so_qlen = 0, so_qtype = 0, so_qclass = 0, so_query = None, so_qout = 0, so_began = 0,
           so_answer = None, so_pre = [0, 0], so_alen = 0, so_apos = 0\<rparr>) r, w)
   }"

definition dns_so_open :: "'w net \<Rightarrow> nat option \<Rightarrow> u32 list \<Rightarrow> sockaddr option \<Rightarrow> nat \<Rightarrow> 'w
    \<Rightarrow> ((dns_error + dns_socket) \<times> 'w) option" where
  "dns_so_open N oom keys local type w =
     (case oom of Some e \<Rightarrow> Some (Inl (SYS e), w) | None \<Rightarrow> dns_so_init N keys local type w)"

definition dns_so_close :: "'w net \<Rightarrow> dns_socket option \<Rightarrow> 'w \<Rightarrow> 'w" where
  "dns_so_close N so w = (case so of None \<Rightarrow> w | Some so \<Rightarrow> snd (dns_so_destroy N so w))"

definition dns_so_mkqid :: "dns_socket \<Rightarrow> (nat \<times> dns_socket) option" where
  "dns_so_mkqid so = do {
     (n, p) \<leftarrow> dns_k_permutor_step (so_qids so);
     Some (u16 (unat n), so\<lparr>so_qids := p\<rparr>)
   }"

text \<open>\<open>realloc\<close> keeps the contents of the old answer and adds the bytes of \<open>n_realloc\<close>.\<close>

definition dns_so_newanswer :: "'w net \<Rightarrow> dns_socket \<Rightarrow> nat \<Rightarrow> 'w \<Rightarrow> (dns_error option \<times> dns_socket \<times> 'w) option" where
  "dns_so_newanswer N so len w =
     (let n = max len 768; old = (case so_answer so of None \<Rightarrow> [] | Some P \<Rightarrow> data P)
      in case n_realloc N n w of
           (Inl e, w) \<Rightarrow> Some (Some (SYS e), so, w)
         | (Inr fresh, w) \<Rightarrow> do {
             P \<leftarrow> dns_p_init (take n (old @ fresh));
             Some (None, so\<lparr>so_answer := Some P\<rparr>, w)
           })"

text \<open>The identifier of a header is in the byte order of the machine, which only gives it a name.\<close>

definition header_qid :: "dns_packet \<Rightarrow> nat" where
  "header_qid P = unat (data P ! 0) + 256 * unat (data P ! 1)"

definition set_header_qid :: "nat \<Rightarrow> dns_packet \<Rightarrow> dns_packet" where
  "set_header_qid n P = P\<lparr>data := (data P)[0 := byte n, 1 := byte (n div 256)]\<rparr>"

definition header_tc :: "dns_packet \<Rightarrow> bool" where
  "header_tc P = (data P ! 2 AND 2 \<noteq> 0)"

definition dns_so_submit :: "'w net \<Rightarrow> int \<Rightarrow> dns_clock \<Rightarrow> dns_socket \<Rightarrow> dns_packet \<Rightarrow> sockaddr \<Rightarrow> 'w
    \<Rightarrow> (dns_error option \<times> dns_socket \<times> dns_clock \<times> 'w) option" where
  "dns_so_submit N now c so Q host w = do {
     let so = dns_so_reset so;
     parsed \<leftarrow> dns_rr_parse 12 Q;
     case parsed of
       Inl e \<Rightarrow> Some (Some e, dns_so_reset so, c, w)
     | Inr rr \<Rightarrow> do {
         (err, qlen, qname) \<leftarrow> dns_d_expand (so_qname so) (dnp rr) Q;
         if err \<noteq> None then Some (err, dns_so_reset so, c, w)
         else do {
           let so = so\<lparr>so_qlen := qlen, so_qname := qname, so_qtype := rtype rr, so_qclass := rclass rr\<rparr>;
           (err, so, w) \<leftarrow> dns_so_newanswer N so 768 w;
           if err \<noteq> None then Some (err, dns_so_reset so, c, w)
           else do {
             let (began, c) = dns_now now c;
             let so = so\<lparr>so_remote := (if dns_sa_len host = 0 then so_remote so else host), so_qout := 0, so_began := began\<rparr>;
             (Q, so) \<leftarrow> (if header_qid Q = 0 then do { (n, so) \<leftarrow> dns_so_mkqid so; Some (set_header_qid n Q, so) }
                         else Some (Q, so));
             Some (None, so\<lparr>so_query := Some Q, so_qid := header_qid Q,
                 so_state := (if so_type so = SOCK_STREAM then DNS_SO_TCP_INIT else DNS_SO_UDP_INIT),
                 so_stat := (so_stat so)\<lparr>st_queries := st_queries (so_stat so) + 1\<rparr>\<rparr>, c, w)
           }
         }
       }
   }"

section \<open>Comparing an answer with the question\<close>

definition dns_so_verify :: "dns_socket \<Rightarrow> dns_packet \<Rightarrow> dns_error option option" where
  "dns_so_verify so P =
     (if so_qid so \<noteq> header_qid P \<or> dns_p_count P DNS_S_QD = 0 then Some (Some DNS_EUNKNOWN)
      else do {
        parsed \<leftarrow> dns_rr_parse 12 P;
        case parsed of
          Inl e \<Rightarrow> Some (Some DNS_EUNKNOWN)
        | Inr rr \<Rightarrow>
            if rtype rr \<noteq> so_qtype so \<or> rclass rr \<noteq> so_qclass so then Some (Some DNS_EUNKNOWN)
            else do {
              (err, qlen, qname) \<leftarrow> dns_d_expand (replicate 256 0) (dnp rr) P;
              Some (if err \<noteq> None then err
                    else if 256 \<le> qlen \<or> qlen \<noteq> so_qlen so \<or> strcasecmp (so_qname so) qname \<noteq> 0 then Some DNS_EUNKNOWN
                    else None)
            }
      })"

section \<open>TCP\<close>

definition sent :: "nat \<Rightarrow> dns_traffic \<Rightarrow> dns_traffic" where
  "sent n t = t\<lparr>tr_bytes := tr_bytes t + n\<rparr>"

definition counted :: "dns_traffic \<Rightarrow> dns_traffic" where
  "counted t = t\<lparr>tr_count := tr_count t + 1\<rparr>"

text \<open>The query with its length in front. The source adds \<open>so->qout\<close> to the start of the
  message once before the loop (\<open>q0\<close>) and once more in every call of \<open>send\<close>.\<close>

definition framed :: "dns_packet \<Rightarrow> bytes" where
  "framed Q = byte (pend Q div 256) # byte (pend Q) # data Q"

definition tcp_send_body :: "'w net \<Rightarrow> dns_packet \<Rightarrow> nat \<Rightarrow> dns_socket \<times> 'w
    \<Rightarrow> ((dns_socket \<times> 'w) + (dns_error option \<times> dns_socket \<times> 'w)) option" where
  "tcp_send_body N Q q0 = (\<lambda>(so, w).
     if so_qout so < pend Q + 2 then do {
       bs \<leftarrow> rdn (framed Q) (q0 + so_qout so) (pend Q + 2 - so_qout so);
       case n_send N (so_tcp so) bs w of
         (Inl e, w) \<Rightarrow> Some (Inr (Some (SYS e), so, w))
       | (Inr n, w) \<Rightarrow>
           Some (Inl (so\<lparr>so_qout := so_qout so + n,
                         so_stat := (so_stat so)\<lparr>tcp_sent := sent n (tcp_sent (so_stat so))\<rparr>\<rparr>, w))
     }
     else Some (Inr (None, so\<lparr>so_stat := (so_stat so)\<lparr>tcp_sent := counted (tcp_sent (so_stat so))\<rparr>\<rparr>, w)))"

definition dns_so_tcp_send :: "'w net \<Rightarrow> dns_socket \<Rightarrow> 'w \<Rightarrow> (dns_error option \<times> dns_socket \<times> 'w) option" where
  "dns_so_tcp_send N so w = do {
     Q \<leftarrow> so_query so;
     loop (tcp_send_body N Q (so_qout so)) (so, w)
   }"

text \<open>Storing received bytes at \<open>asrc[so->apos]\<close>.\<close>

definition tcp_store :: "dns_socket \<Rightarrow> bytes \<Rightarrow> dns_socket option" where
  "tcp_store so bs = do {
     A \<leftarrow> so_answer so;
     mem \<leftarrow> wrn (so_pre so @ data A) (so_apos so) bs;
     Some (so\<lparr>so_pre := take 2 mem, so_answer := Some (A\<lparr>data := drop 2 mem\<rparr>), so_apos := so_apos so + length bs,
              so_stat := (so_stat so)\<lparr>tcp_rcvd := sent (length bs) (tcp_rcvd (so_stat so))\<rparr>\<rparr>)
   }"

definition tcp_recv_body :: "'w net \<Rightarrow> nat \<times> dns_socket \<times> 'w
    \<Rightarrow> ((nat \<times> dns_socket \<times> 'w) + (dns_error option \<times> dns_socket \<times> 'w)) option" where
  "tcp_recv_body N = (\<lambda>(aend, so, w).
     if so_apos so < aend then
       case n_recv N (so_tcp so) (aend - so_apos so) w of
         (Inl e, w) \<Rightarrow> Some (Inr (Some (SYS e), so, w))
       | (Inr [], w) \<Rightarrow> Some (Inr (Some DNS_EUNKNOWN, so, w))
       | (Inr bs, w) \<Rightarrow> do {
           so \<leftarrow> tcp_store so bs;
           if so_alen so = 0 \<and> 2 \<le> so_apos so then do {
             let alen = be16 (so_pre so ! 0) (so_pre so ! 1);
             (err, so, w) \<leftarrow> dns_so_newanswer N so alen w;
             Some (if err \<noteq> None then Inr (err, so, w) else Inl (alen + 2, so\<lparr>so_alen := alen\<rparr>, w))
           }
           else Some (Inl (aend, so, w))
         }
     else do {
       A \<leftarrow> so_answer so;
       Some (Inr (None, so\<lparr>so_answer := Some (A\<lparr>pend := so_alen so\<rparr>),
                           so_stat := (so_stat so)\<lparr>tcp_rcvd := counted (tcp_rcvd (so_stat so))\<rparr>\<rparr>, w))
     })"

definition dns_so_tcp_recv :: "'w net \<Rightarrow> dns_socket \<Rightarrow> 'w \<Rightarrow> (dns_error option \<times> dns_socket \<times> 'w) option" where
  "dns_so_tcp_recv N so w = loop (tcp_recv_body N) (so_alen so + 2, so, w)"

section \<open>The state machine\<close>

text \<open>One case of the switch. Falling through to the next case, after \<open>so->state++\<close>, and
  \<open>goto retry\<close> both go on with the case of the new state: that is the left result. \<open>so_fail\<close> is
  the label \<open>error\<close>.\<close>

type_synonym 'w so_step = "(dns_socket \<times> 'w) + (dns_error option \<times> dns_socket \<times> 'w)"

definition so_fail :: "dns_error \<Rightarrow> dns_socket \<Rightarrow> 'w \<Rightarrow> 'w so_step" where
  "so_fail err so w =
     (if err = EINTR then Inl (so, w)
      else if err = EINPROGRESS \<or> err = EALREADY then Inr (Some EAGAIN, so, w)
      else Inr (Some err, so, w))"

definition udp_recv :: "'w net \<Rightarrow> dns_socket \<Rightarrow> 'w \<Rightarrow> 'w so_step option" where
  "udp_recv N so w = do {
     A \<leftarrow> so_answer so;
     case n_recv N (so_udp so) (psize A) w of
       (Inl e, w) \<Rightarrow> Some (so_fail (SYS e) so w)
     | (Inr bs, w) \<Rightarrow> do {
         mem \<leftarrow> wrn (data A) 0 bs;
         let A = A\<lparr>data := mem, pend := length bs\<rparr>;
         let so = so\<lparr>so_answer := Some A,
                     so_stat := (so_stat so)\<lparr>udp_rcvd := counted (sent (length bs) (udp_rcvd (so_stat so)))\<rparr>\<rparr>;
         if length bs < 12 then Some (Inl (so, w))
         else do {
           err \<leftarrow> dns_so_verify so A;
           Some (Inl (if err \<noteq> None then so else so\<lparr>so_state := DNS_SO_UDP_DONE\<rparr>, w))
         }
       }
   }"

definition tcp_init :: "'w net \<Rightarrow> dns_socket \<Rightarrow> 'w \<Rightarrow> 'w so_step" where
  "tcp_init N so w =
     (let (err, fd, so, w) = dns_so_closefd N so (so_tcp so) w; so = so\<lparr>so_tcp := fd\<rparr>
      in case err of
           Some e \<Rightarrow> so_fail e so w
         | None \<Rightarrow>
             (case dns_socket N (so_local so) SOCK_STREAM w of
                (Inl e, w) \<Rightarrow> so_fail e (so\<lparr>so_tcp := None\<rparr>) w
              | (Inr fd, w) \<Rightarrow> Inl (so\<lparr>so_tcp := Some fd, so_state := DNS_SO_TCP_CONN\<rparr>, w)))"

definition tcp_done :: "'w net \<Rightarrow> dns_socket \<Rightarrow> 'w \<Rightarrow> 'w so_step option" where
  "tcp_done N so w =
     (let (err, fd, so, w) = dns_so_closefd N so (so_tcp so) w; so = so\<lparr>so_tcp := fd\<rparr>
      in case err of
           Some e \<Rightarrow> Some (so_fail e so w)
         | None \<Rightarrow> do {
             A \<leftarrow> so_answer so;
             if pend A < 12 then Some (Inr (Some DNS_EILLEGAL, so, w))
             else do {
               err \<leftarrow> dns_so_verify so A;
               Some (case err of Some e \<Rightarrow> so_fail e so w | None \<Rightarrow> Inr (None, so, w))
             }
           })"

definition so_check_body :: "'w net \<Rightarrow> dns_socket \<times> 'w \<Rightarrow> 'w so_step option" where
  "so_check_body N = (\<lambda>(so, w).
     let to = (\<lambda>st. \<lambda>(so, w). Inl (so\<lparr>so_state := st\<rparr>, w)) in
     case so_state so of
       DNS_SO_UDP_INIT \<Rightarrow> Some (to DNS_SO_UDP_CONN (so, w))
     | DNS_SO_UDP_CONN \<Rightarrow>
         Some (case n_connect N (so_udp so) (so_remote so) w of
                 (Some e, w) \<Rightarrow> so_fail (SYS e) so w
               | (None, w) \<Rightarrow> to DNS_SO_UDP_SEND (so, w))
     | DNS_SO_UDP_SEND \<Rightarrow> do {
         Q \<leftarrow> so_query so;
         Some (case n_send N (so_udp so) (take (pend Q) (data Q)) w of
                 (Inl e, w) \<Rightarrow> so_fail (SYS e) so w
               | (Inr n, w) \<Rightarrow>
                   to DNS_SO_UDP_RECV (so\<lparr>so_stat := (so_stat so)\<lparr>udp_sent := counted (sent n (udp_sent (so_stat so)))\<rparr>\<rparr>, w))
       }
     | DNS_SO_UDP_RECV \<Rightarrow> udp_recv N so w
     | DNS_SO_UDP_DONE \<Rightarrow> do {
         A \<leftarrow> so_answer so;
         Some (if \<not> header_tc A \<or> so_type so = SOCK_DGRAM then Inr (None, so, w) else to DNS_SO_TCP_INIT (so, w))
       }
     | DNS_SO_TCP_INIT \<Rightarrow> Some (tcp_init N so w)
     | DNS_SO_TCP_CONN \<Rightarrow>
         Some (case n_connect N (so_tcp so) (so_remote so) w of
                 (Some e, w) \<Rightarrow> if SYS e \<noteq> EISCONN then so_fail (SYS e) so w else to DNS_SO_TCP_SEND (so, w)
               | (None, w) \<Rightarrow> to DNS_SO_TCP_SEND (so, w))
     | DNS_SO_TCP_SEND \<Rightarrow> do {
         (err, so, w) \<leftarrow> dns_so_tcp_send N so w;
         Some (case err of Some e \<Rightarrow> so_fail e so w | None \<Rightarrow> to DNS_SO_TCP_RECV (so, w))
       }
     | DNS_SO_TCP_RECV \<Rightarrow> do {
         (err, so, w) \<leftarrow> dns_so_tcp_recv N so w;
         Some (case err of Some e \<Rightarrow> so_fail e so w | None \<Rightarrow> to DNS_SO_TCP_DONE (so, w))
       }
     | DNS_SO_TCP_DONE \<Rightarrow> tcp_done N so w
     | DNS_SO_NONE \<Rightarrow> Some (so_fail DNS_EUNKNOWN so w))"

definition dns_so_check :: "'w net \<Rightarrow> dns_socket \<Rightarrow> 'w \<Rightarrow> (dns_error option \<times> dns_socket \<times> 'w) option" where
  "dns_so_check N so w = loop (so_check_body N) (so, w)"

definition dns_so_fetch :: "dns_socket \<Rightarrow> (dns_error + dns_packet option) \<times> dns_socket" where
  "dns_so_fetch so =
     (if so_state so = DNS_SO_UDP_DONE \<or> so_state so = DNS_SO_TCP_DONE
      then (Inr (so_answer so), so\<lparr>so_answer := None\<rparr>)
      else (Inl DNS_EUNKNOWN, so))"

text \<open>A null answer of \<open>dns_so_fetch\<close> counts as an error, with the value of \<open>error\<close> unset
  (\<open>None\<close>).\<close>

definition dns_so_query :: "'w net \<Rightarrow> int \<Rightarrow> dns_clock \<Rightarrow> dns_socket \<Rightarrow> dns_packet \<Rightarrow> sockaddr \<Rightarrow> 'w
    \<Rightarrow> ((dns_error option + dns_packet) \<times> dns_socket \<times> dns_clock \<times> 'w) option" where
  "dns_so_query N now c so Q host w = do {
     (err, so, c, w) \<leftarrow> (if so_state so = DNS_SO_NONE then dns_so_submit N now c so Q host w else Some (None, so, c, w));
     if err \<noteq> None then Some (Inl err, so, c, w)
     else do {
       (err, so, w) \<leftarrow> dns_so_check N so w;
       if err \<noteq> None then Some (Inl err, so, c, w)
       else Some (case dns_so_fetch so of
                    (Inl e, so) \<Rightarrow> (Inl (Some e), so, c, w)
                  | (Inr None, so) \<Rightarrow> (Inl None, so, c, w)
                  | (Inr (Some A), so) \<Rightarrow> (Inr A, dns_so_reset so, c, w))
     }
   }"

definition dns_so_elapsed :: "int \<Rightarrow> dns_clock \<Rightarrow> dns_socket \<Rightarrow> int \<times> dns_clock" where
  "dns_so_elapsed now c so = dns_elapsed (so_began so) now c"

definition dns_so_clear :: "'w net \<Rightarrow> dns_socket \<Rightarrow> 'w \<Rightarrow> dns_socket \<times> 'w" where
  "dns_so_clear N so w = dns_so_closefds N False False True so w"

section \<open>Waiting for a socket\<close>

abbreviation (input) DNS_POLLIN :: nat where "DNS_POLLIN \<equiv> 1"
abbreviation (input) DNS_POLLOUT :: nat where "DNS_POLLOUT \<equiv> 4"

definition DNS_POLL2EV :: "nat \<Rightarrow> nat" where
  "DNS_POLL2EV ev = (if ev AND DNS_POLLIN \<noteq> 0 then 2 else 0) OR (if ev AND DNS_POLLOUT \<noteq> 0 then 4 else 0)"

definition dns_so_events2 :: "dns_socket \<Rightarrow> bool \<Rightarrow> nat" where
  "dns_so_events2 so libevent =
     (let ev = (case so_state so of
          DNS_SO_UDP_CONN \<Rightarrow> DNS_POLLOUT | DNS_SO_UDP_SEND \<Rightarrow> DNS_POLLOUT | DNS_SO_UDP_RECV \<Rightarrow> DNS_POLLIN
        | DNS_SO_TCP_CONN \<Rightarrow> DNS_POLLOUT | DNS_SO_TCP_SEND \<Rightarrow> DNS_POLLOUT | DNS_SO_TCP_RECV \<Rightarrow> DNS_POLLIN
        | _ \<Rightarrow> 0)
      in if libevent then DNS_POLL2EV ev else ev)"

definition dns_so_pollfd :: "dns_socket \<Rightarrow> nat option" where
  "dns_so_pollfd so =
     (case so_state so of
        DNS_SO_UDP_CONN \<Rightarrow> so_udp so | DNS_SO_UDP_SEND \<Rightarrow> so_udp so | DNS_SO_UDP_RECV \<Rightarrow> so_udp so
      | DNS_SO_TCP_CONN \<Rightarrow> so_tcp so | DNS_SO_TCP_SEND \<Rightarrow> so_tcp so | DNS_SO_TCP_RECV \<Rightarrow> so_tcp so
      | _ \<Rightarrow> None)"

end
