(* ===== verification/Dns_Fit.thy ===== *)
theory Dns_Fit
  imports Dns_Push
begin

text \<open>
  When a push succeeds: writers that succeed whenever a known number of bytes is free, and use no
  more than these. \<open>sized_writer\<close> extends the \<open>writer\<close> interface; names, addresses and
  host data satisfy it, and with them \<open>dns_p_push\<close> of a question and of a record. The bounds are
  those of the uncompressed form, so that a list of records is known to fit from their sizes.
\<close>

locale sized_writer = writer w for w :: "dns_packet \<Rightarrow> (dns_error option \<times> dns_packet) option" +
  fixes n :: nat
  assumes fits: "packet_ok P \<Longrightarrow> dict_fin H P \<Longrightarrow> H \<subseteq> {..<12} \<Longrightarrow> pend P + n \<le> psize P \<Longrightarrow>
    \<exists>P'. w P = Some (None, P') \<and> pend P' \<le> pend P + n"
begin

lemma fits_after:
  assumes "packet_ok Q" "dict_fin {..<12} Q" "kept P Q" "pend P \<le> pend Q" "pend Q + n \<le> psize Q"
  shows "\<exists>R. w Q = Some (None, R) \<and> packet_ok R \<and> dict_fin {..<12} R \<and> kept P R \<and> pend P < pend R \<and> pend R \<le> pend Q + n"
proof -
  obtain R where R: "w Q = Some (None, R)" "pend R \<le> pend Q + n"
    using fits [OF assms(1,2) _ assms(5)] by auto
  moreover have "packet_ok R \<and> dict_fin {..<12} R \<and> kept Q R \<and> pend Q < pend R"
    using success [OF assms(1,2) _ R(1)] by simp
  ultimately show ?thesis
    using kept_trans [OF assms(3), of R] assms(4) by auto
qed

end

section \<open>Names and addresses\<close>

lemma name_fits:
  assumes "packet_ok P" "dict_fin H P" "\<And>h. h \<in> H \<Longrightarrow> h < pend P" "list_all valid_label ls" "pend P + length (wire ls) \<le> psize P"
  shows "\<exists>P'. dns_d_push P (name_text ls) = Some (None, P') \<and> pend P' \<le> pend P + length (wire ls)"
proof -
  obtain P' where r: "dns_d_push P (name_text ls) = Some (None, P')"
    using dns_d_push_appends [OF assms(1-4)] assms(5) by auto
  have P: "in_packet P" "length (drop (pend P) (data P)) \<le> 65535"
    using assms(1) by (auto simp: packet_ok_def psize_def)
  obtain n d where c: "dns_d_comp (drop (pend P) (data P)) (name_text ls) P = Some (n, d)"
    "length d = length (drop (pend P) (data P))" "0 < n" "n \<le> length (wire ls)"
    using dns_d_comp_returns [OF P(1) assms(2,4) P(2)] by blast
  let ?R = "P\<lparr>data := take (pend P) (data P) @ d, pend := pend P + n\<rparr>"
  have n: "n \<le> psize P - pend P" using c(4) assms(5) by simp
  have "pend ?R \<le> length (data ?R)" "pend ?R \<le> 65535"
    using n c(2) assms(1) by (auto simp: packet_ok_def psize_def)
  then obtain i where i: "dns_p_dictadd ?R (pend P) = Some (dict_set ?R i (u16 (pend P)))"
    using dns_p_dictadd_total [of ?R "pend P"] by blast
  have "dns_d_push P (name_text ls) = Some (None, dict_set ?R i (u16 (pend P)))"
    using i n c assms(1) by (simp add: dns_d_push_def packet_ok_def Let_def)
  then show ?thesis
    using c(4) by simp
qed

lemma sized_name:
  assumes "list_all valid_label ls"
  shows "sized_writer (\<lambda>P. dns_d_push P (name_text ls)) (length (wire ls))"
proof (rule sized_writer.intro [OF writer_name [OF assms] sized_writer_axioms.intro])
  fix P H
  assume "packet_ok P" "dict_fin H P" "H \<subseteq> {..<12}" "pend P + length (wire ls) \<le> psize P"
  then show "\<exists>P'. dns_d_push P (name_text ls) = Some (None, P') \<and> pend P' \<le> pend P + length (wire ls)"
    using assms by (intro name_fits) (auto simp: packet_ok_def)
qed

interpretation sa: sized_writer "\<lambda>P. dns_a_push P a" 6 for a
proof
  fix P H
  assume "packet_ok P" "pend P + 6 \<le> psize P"
  then show "\<exists>P'. dns_a_push P a = Some (None, P') \<and> pend P' \<le> pend P + 6"
    by (simp add: dns_a_push_def push_bytes_def wrn_def psize_def bytes32_def)
qed

lemma sized_aaaa:
  assumes "length a = 16"
  shows "sized_writer (\<lambda>P. dns_aaaa_push P a) 18"
proof (rule sized_writer.intro [OF writer_aaaa [OF assms] sized_writer_axioms.intro])
  fix P H
  assume "packet_ok P" "pend P + 18 \<le> psize P"
  then show "\<exists>P'. dns_aaaa_push P a = Some (None, P') \<and> pend P' \<le> pend P + 18"
    using assms by (simp add: dns_aaaa_push_def push_bytes_def wrn_def psize_def)
qed

lemma sized_ns:
  assumes ls: "list_all valid_label ls" and h: "cstr (ns_host n) = name_text ls"
  shows "sized_writer (\<lambda>P. dns_ns_push P n) (2 + length (wire ls))"
proof (rule sized_writer.intro [OF writer_ns sized_writer_axioms.intro])
  show ok: "host_ok (ns_host n)" using assms by (auto simp: host_ok_def)
  fix P H
  assume P: "packet_ok P" "dict_fin H P" and H: "H \<subseteq> {..<12}" and sz: "pend P + (2 + length (wire ls)) \<le> psize P"
  let ?Q = "P\<lparr>pend := pend P + 2\<rparr>"
  have w: "1 \<le> length (wire ls)" by (simp add: wire_def)
  note hole = open_hole [OF P]
  have low: "h < pend ?Q" if "h \<in> {pend P, pend P + 1} \<union> H" for h
    using that H P(1) by (auto simp: packet_ok_def)
  obtain R where R: "dns_d_push ?Q (name_text ls) = Some (None, R)" "pend R \<le> pend P + 2 + length (wire ls)"
    using name_fits [OF hole(1,2) low ls] sz by (auto simp: psize_def)
  then have "packet_ok R \<and> dict_fin ({pend P, pend P + 1} \<union> H) R \<and> kept P R \<and> pend P + 2 \<le> pend R"
    using push_host [OF ok P(1) hole _ H] h sz by auto
  then obtain R' where "set_rdlen (pend P) R = Some R'" "pend R' = pend R"
    using close_hole [of R "pend P" H] by auto
  then show "\<exists>P'. dns_ns_push P n = Some (None, P') \<and> pend P' \<le> pend P + (2 + length (wire ls))"
    using R P(1) sz w h by (simp add: dns_ns_push_def)
qed

section \<open>Records\<close>

text \<open>The size of the data of a record in its uncompressed form, with its length field.\<close>

definition any_len :: "dns_any \<Rightarrow> nat" where
  "any_len any = (case any of Any_a _ \<Rightarrow> 6 | Any_aaaa _ \<Rightarrow> 18 | Any_ns n \<Rightarrow> length (cstr (ns_host n)) + 3 | _ \<Rightarrow> 0)"

definition sized_any :: "nat \<Rightarrow> dns_any \<Rightarrow> bool" where
  "sized_any type any \<longleftrightarrow> any_ok type any \<and> dns_rrtypes type \<in> {KA, KAAAA, KNS}"

lemma wire_le_text: "length (wire ls) \<le> length (name_text ls) + 1"
proof (cases "ls = []")
  case False
  have "length (wire ls) = length (concat (map (\<lambda>l. l @ [46]) ls)) + 1"
    unfolding wire_def by (induction ls) auto
  then show ?thesis using False by (simp add: name_text_def)
qed (simp add: wire_def name_text_def)

lemma sized_writer_mono:
  assumes "sized_writer w m" "m \<le> n"
  shows "sized_writer w n"
proof (rule sized_writer.intro [OF sized_writer.axioms(1) [OF assms(1)] sized_writer_axioms.intro])
  fix P H
  assume "packet_ok P" "dict_fin H P" "H \<subseteq> {..<12}" "pend P + n \<le> psize P"
  then show "\<exists>P'. w P = Some (None, P') \<and> pend P' \<le> pend P + n"
    using sized_writer.fits [OF assms(1), of P H] assms(2) by fastforce
qed

lemma sized_writer_any:
  assumes "sized_any type any"
  shows "sized_writer (\<lambda>P. dns_any_push P any type) (any_len any)"
proof -
  consider a where "dns_rrtypes type = KA" "any = Any_a a" | a where "dns_rrtypes type = KAAAA" "any = Any_aaaa a" "length a = 16"
    | h where "dns_rrtypes type = KNS" "any = Any_ns h" "host_ok (ns_host h)"
    using assms by (cases any; cases "dns_rrtypes type") (auto simp: sized_any_def any_ok_def)
  then show ?thesis
  proof cases
    case 1
    then show ?thesis using sa.sized_writer_axioms by (simp add: dns_any_push_def any_len_def)
  next
    case 2
    then show ?thesis using sized_aaaa by (simp add: dns_any_push_def any_len_def)
  next
    case 3
    then obtain ls where ls: "list_all valid_label ls" "cstr (ns_host h) = name_text ls" by (auto simp: host_ok_def)
    show ?thesis
      using sized_writer_mono [OF sized_ns [OF ls]] wire_le_text [of ls] 3 ls(2)
      by (simp add: dns_any_push_def any_len_def)
  qed
qed

text \<open>The room a record takes at most.\<close>

definition record_len :: "nat \<Rightarrow> bytes list \<Rightarrow> dns_any \<Rightarrow> nat" where
  "record_len s ls any = length (wire ls) + 4 + (if s = DNS_S_QD then 0 else 4 + any_len any)"

lemma push_bytes_after:
  assumes "packet_ok Q" "dict_fin {..<12} Q" "kept P Q" "pend P < pend Q" "pend Q + length bs \<le> psize Q"
  shows "\<exists>R. push_bytes bs Q = Some R \<and> packet_ok R \<and> dict_fin {..<12} R \<and> kept P R \<and> pend P < pend R \<and> pend R = pend Q + length bs"
  using push_bytes_appends [OF assms(1,2,5)] assms(3,4) kept_trans [of P Q] by fastforce

lemma dns_p_push_fits:
  assumes P: "packet_ok P" "dict_fin {..<12} P" and ls: "list_all valid_label ls"
    and any: "s \<noteq> DNS_S_QD \<Longrightarrow> sized_any type any" and s: "s \<in> sections" and l0: "later_count P s = 0"
    and sz: "pend P + record_len s ls any \<le> psize P"
  shows "\<exists>P'. dns_p_push P s (name_text ls) type class ttl any = Some (None, P') \<and> pushed s P P' \<and>
    pend P' \<le> pend P + record_len s ls any"
proof -
  have ps: "psize Q = psize P" if "kept P Q" for Q using that by (simp add: kept_def)
  have nm: "pend P + length (wire ls) \<le> psize P" using sz by (simp add: record_len_def)
  obtain P1 where p1: "dns_d_push P (name_text ls) = Some (None, P1)" "packet_ok P1" "dict_fin {..<12} P1" "kept P P1"
    "pend P < pend P1" "pend P1 \<le> pend P + length (wire ls)"
    using sized_writer.fits_after [OF sized_name [OF ls] P kept_refl _ nm] by auto
  have "pend P1 + length (bytes16 type @ bytes16 class) \<le> psize P1"
    using p1(6) sz ps [OF p1(4)] by (simp add: record_len_def split: if_splits)
  then obtain P2 where p2: "push_bytes (bytes16 type @ bytes16 class) P1 = Some P2" "packet_ok P2" "dict_fin {..<12} P2"
    "kept P P2" "pend P < pend P2" "pend P2 = pend P1 + 4"
    using push_bytes_after [OF p1(2-5)] by force
  have r1: "\<not> room P1 < 4" using p1(2,6) sz ps [OF p1(4)] by (simp add: record_len_def split: if_splits)
  have ends: "\<exists>P'. map_option (restore_end (pend P)) (push_update s Q) = Some (None, P') \<and> pushed s P P' \<and> pend P' = pend Q"
    if Q: "packet_ok Q" "dict_fin {..<12} Q" "kept P Q" "pend P < pend Q" for Q
  proof -
    have "later_count Q s = 0"
      using l0 kept_count [OF Q(3) P(1)] by (simp add: later_count_def)
    then obtain Q' where "push_update s Q = Some (None, Q')" "updated s Q Q'"
      using push_update_spec [OF Q(1,2) s] by auto
    with push_finishes [OF P(1) Q s] show ?thesis
      by (auto simp: restore_end_def push_result_def updated_def)
  qed
  show ?thesis
  proof (cases "s = DNS_S_QD")
    case True
    then have "dns_p_push P s (name_text ls) type class ttl any = map_option (restore_end (pend P)) (push_update s P2)"
      using p1(1) p2(1) r1 by (simp add: dns_p_push_def del: room_ok)
    then show ?thesis
      using ends [OF p2(2-5)] p1(6) p2(6) True by (auto simp: record_len_def)
  next
    case False
    let ?t = "[0x7f AND byte (ttl div 16777216), byte (ttl div 65536), byte (ttl div 256), byte ttl]"
    have al: "2 \<le> any_len any"
      using any [OF False] by (cases any; cases "dns_rrtypes type")
        (auto simp: sized_any_def any_ok_def any_len_def host_ok_def last_name_text Suc_le_eq split: if_splits)
    have "pend P2 + length ?t \<le> psize P2"
      using p1(6) p2(6) sz ps [OF p2(4)] False by (simp add: record_len_def)
    then obtain P3 where p3: "push_bytes ?t P2 = Some P3" "packet_ok P3" "dict_fin {..<12} P3"
      "kept P P3" "pend P < pend P3" "pend P3 = pend P2 + 4"
      using push_bytes_after [OF p2(2-5)] by force
    have "pend P3 + any_len any \<le> psize P3"
      using p1(6) p2(6) p3(6) sz ps [OF p3(4)] False by (simp add: record_len_def)
    then obtain P4 where p4: "dns_any_push P3 any type = Some (None, P4)" "packet_ok P4" "dict_fin {..<12} P4"
      "kept P P4" "pend P < pend P4" "pend P4 \<le> pend P3 + any_len any"
      using sized_writer.fits_after [OF sized_writer_any [OF any [OF False]] p3(2-4)] p3(5) by auto
    have r2: "\<not> room P2 < 6"
      using p1(6) p2(2,6) sz ps [OF p2(4)] False al by (simp add: record_len_def)
    have "dns_p_push P s (name_text ls) type class ttl any = map_option (restore_end (pend P)) (push_update s P4)"
      using p1(1) p2(1) p3(1) p4(1) r1 r2 False by (simp add: dns_p_push_def del: room_ok)
    then show ?thesis
      using ends [OF p4(2-5)] p1(6) p2(6) p3(6) p4(6) False by (auto simp: record_len_def)
  qed
qed

end
