(* ===== verification/Dns_Hosts_Query.thy ===== *)
theory Dns_Hosts_Query
  imports Dns_Hosts Dns_Fit
begin

text \<open>
  What \<open>dns_hosts_query\<close> answers: one record for each entry of the hosts table that matches the
  question, with the address or the name of that entry, all of them or none, and all of them whenever
  they fit into the packet of 512 bytes the answer is built in. Which entries match, and with what
  data, is specified by \<open>answer_to\<close>.
\<close>

definition entry_ok :: "dns_hosts_entry \<Rightarrow> bool" where
  "entry_ok e \<longleftrightarrow> addr_ok (ent_addr e) \<and> host_ok (ent_host e)"

section \<open>Which entries answer a question\<close>

lemma tolower8_zero: "tolower8 b = 0 \<Longrightarrow> b = 0"
proof (cases "65 \<le> b \<and> b \<le> 90")
  case True
  assume "tolower8 b = 0"
  then have "b = - 32" using True by (simp add: tolower8_def eq_neg_iff_add_eq_0)
  then show ?thesis using True by simp
qed (simp add: tolower8_def)

lemma casecmp_zero:
  assumes "casecmp xs ys = 0" "0 \<notin> set xs" "0 \<notin> set ys"
  shows "map tolower8 xs = map tolower8 ys"
  using assms
proof (induction xs ys rule: casecmp.induct)
  case (2 b bs)
  then show ?case using tolower8_zero [of b] by (simp add: unsigned_eq_0_iff)
next
  case (3 a as)
  then show ?case using tolower8_zero [of a] by (simp add: unsigned_eq_0_iff)
next
  case (4 a as b bs)
  then show ?case by (auto simp: word_uint_eq_iff split: if_splits)
qed simp

lemma cstr_nonzero: "0 \<notin> set (cstr s)"
  by (auto simp: cstr_def dest: set_takeWhileD)

definition same_host :: "bytes \<Rightarrow> bytes \<Rightarrow> bool" where
  "same_host a b \<longleftrightarrow> map tolower8 (cstr a) = map tolower8 (cstr b)"

definition answer_to :: "nat \<Rightarrow> bytes \<Rightarrow> dns_hosts_entry \<Rightarrow> dns_any option" where
  "answer_to type name e =
     (case ent_addr e of
        AF_INET a \<Rightarrow> if type = DNS_T_A \<and> same_host name (ent_host e) then Some (Any_a a)
          else if type = DNS_T_PTR \<and> \<not> ent_alias e \<and> same_host name (ent_arpa e) then Some (Any_ns \<lparr>ns_host = ent_host e\<rparr>)
          else None
      | AF_INET6 a \<Rightarrow> if type = DNS_T_AAAA \<and> same_host name (ent_host e) then Some (Any_aaaa a)
          else if type = DNS_T_PTR \<and> \<not> ent_alias e \<and> same_host name (ent_arpa e) then Some (Any_ns \<lparr>ns_host = ent_host e\<rparr>)
          else None
      | AF_OTHER _ \<Rightarrow> None)"

definition answers_to :: "nat \<Rightarrow> bytes \<Rightarrow> dns_hosts_entry list \<Rightarrow> dns_any list" where
  "answers_to type name es = List.map_filter (answer_to type name) es"

lemma casecmp_same: "map tolower8 xs = map tolower8 ys \<Longrightarrow> casecmp xs ys = 0"
  by (induction xs ys rule: casecmp.induct) auto

lemma strcasecmp_same: "strcasecmp a b = 0 \<longleftrightarrow> same_host a b"
  using casecmp_zero [of "cstr a" "cstr b"] casecmp_same [of "cstr a" "cstr b"] cstr_nonzero
  by (auto simp: strcasecmp_def same_host_def)

lemma hosts_answers_to:
  assumes "\<forall>e \<in> set (entries H). entry_ok e"
  shows "map (hosts_data type) (hosts_answers H name type) = answers_to type name (entries H)"
proof -
  define P where "P e \<longleftrightarrow> (if type = DNS_T_PTR then \<not> ent_alias e \<and> same_host name (ent_arpa e)
    else (type = DNS_T_AAAA \<or> type = DNS_T_A) \<and> same_family type (ent_addr e) \<and> same_host name (ent_host e))" for e :: dns_hosts_entry
  have a: "answer_to type name e = (if P e then Some (hosts_data type e) else None)" if "entry_ok e" for e
    using that
    by (cases "ent_addr e")
      (auto simp: P_def answer_to_def hosts_data_def same_family_def addr_any_def entry_ok_def addr_ok_def)
  have "hosts_answers H name type = filter P (entries H)"
    by (auto simp: hosts_answers_def strcasecmp_same P_def intro!: filter_cong)
  moreover have "map (hosts_data type) (filter P es) = answers_to type name es" if "\<forall>e \<in> set es. entry_ok e" for es
    using that by (induction es) (simp_all add: answers_to_def map_filter_simps a)
  ultimately show ?thesis using assms by simp
qed

section \<open>Pushing the answers\<close>

text \<open>\<open>answers_pushed ls type class ds P P'\<close>: \<open>P'\<close> is \<open>P\<close> after one successful \<open>dns_p_push\<close> of an
  answer record for each element of \<open>ds\<close>, in this order.\<close>

fun answers_pushed :: "bytes list \<Rightarrow> nat \<Rightarrow> nat \<Rightarrow> dns_any list \<Rightarrow> dns_packet \<Rightarrow> dns_packet \<Rightarrow> bool" where
  "answers_pushed ls type class [] P P' \<longleftrightarrow> P' = P"
| "answers_pushed ls type class (d # ds) P P' \<longleftrightarrow>
     (\<exists>Q. dns_p_push P DNS_S_AN (name_text ls) type class 0 d = Some (None, Q) \<and> answers_pushed ls type class ds Q P')"

lemma push_each_pushed:
  "push_each dat (name_text ls) rr es P = Some (None, P') \<Longrightarrow>
   answers_pushed ls (rtype rr) (rclass rr) (map dat es) P P'"
proof (induction es arbitrary: P)
  case (Cons e es)
  then show ?case by (auto simp: bind_eq_Some_conv split: if_splits)
qed simp

definition answers_added :: "nat \<Rightarrow> dns_packet \<Rightarrow> dns_packet \<Rightarrow> bool" where
  "answers_added n P P' \<longleftrightarrow> packet_ok P' \<and> dict_fin {..<12} P' \<and> psize P' = psize P \<and> pend P + n \<le> pend P' \<and>
     dns_p_count P' DNS_S_AN = u16 (dns_p_count P DNS_S_AN + n) \<and>
     (\<forall>k \<in> {DNS_S_QD, DNS_S_NS, DNS_S_AR}. dns_p_count P' k = dns_p_count P k)"

lemma u16_add: "u16 (u16 a + b) = u16 (a + b)"
  by (simp add: u16_def mod_simps)

lemma dns_p_count_u16: "k \<in> sections \<Longrightarrow> u16 (dns_p_count P k) = dns_p_count P k"
  using be16_less by (auto simp: dns_p_count_def hdr16_def)

lemma answers_added_step:
  assumes "pushed DNS_S_AN P Q" "answers_added n Q R"
  shows "answers_added (Suc n) P R"
  using assms u16_add [of "dns_p_count P DNS_S_AN + 1" n]
  by (auto simp: answers_added_def pushed_def)

lemma push_each_adds:
  assumes "packet_ok P" "dict_fin {..<12} P" "list_all valid_label ls" "\<forall>e \<in> set es. any_ok (rtype rr) (dat e)"
  shows "\<exists>err P'. push_each dat (name_text ls) rr es P = Some (err, P') \<and> (err = None \<longrightarrow> answers_added (length es) P P')"
  using assms
proof (induction es arbitrary: P)
  case Nil
  then show ?case by (simp add: answers_added_def dns_p_count_u16)
next
  case (Cons e es)
  obtain err Q where r: "dns_p_push P DNS_S_AN (name_text ls) (rtype rr) (rclass rr) 0 (dat e) = Some (err, Q)"
    "push_result DNS_S_AN P (err, Q)"
    using dns_p_push_result [OF Cons.prems(1-3), of DNS_S_AN "rtype rr" "dat e" "rclass rr" 0] Cons.prems(4) by auto
  show ?case
  proof (cases err)
    case None
    then have Q: "pushed DNS_S_AN P Q" using r(2) by (simp add: push_result_def)
    then have "packet_ok Q" "dict_fin {..<12} Q" by (simp_all add: pushed_def)
    then obtain err' R where "push_each dat (name_text ls) rr es Q = Some (err', R)" "err' = None \<longrightarrow> answers_added (length es) Q R"
      using Cons.IH [of Q] Cons.prems by auto
    then show ?thesis using r(1) None answers_added_step [OF Q] by auto
  qed (use r in simp)
qed

lemma push_each_fits:
  assumes "packet_ok P" "dict_fin {..<12} P" "list_all valid_label ls" "\<forall>e \<in> set es. sized_any (rtype rr) (dat e)"
    and "later_count P DNS_S_AN = 0" "pend P + (\<Sum>e \<leftarrow> es. record_len DNS_S_AN ls (dat e)) \<le> psize P"
  shows "\<exists>P'. push_each dat (name_text ls) rr es P = Some (None, P')"
  using assms
proof (induction es arbitrary: P)
  case (Cons e es)
  obtain Q where Q: "dns_p_push P DNS_S_AN (name_text ls) (rtype rr) (rclass rr) 0 (dat e) = Some (None, Q)"
    "pushed DNS_S_AN P Q" "pend Q \<le> pend P + record_len DNS_S_AN ls (dat e)"
    using dns_p_push_fits [OF Cons.prems(1-3), of DNS_S_AN "rtype rr" "dat e"] Cons.prems(4-6) by fastforce
  then have "packet_ok Q" "dict_fin {..<12} Q" "psize Q = psize P" by (simp_all add: pushed_def)
  moreover have "later_count Q DNS_S_AN = later_count P DNS_S_AN"
    unfolding later_count_def using Q(2) by (intro sum.cong) (auto simp: pushed_def)
  ultimately have "\<exists>P'. push_each dat (name_text ls) rr es Q = Some (None, P')"
    using Q(3) Cons.prems by (intro Cons.IH) auto
  then show ?case using Q(1) by simp
qed simp

section \<open>The query\<close>

lemma answer_data_ok:
  assumes "\<forall>e \<in> set (entries H). entry_ok e" "e \<in> set (hosts_answers H qname type)"
  shows "sized_any type (hosts_data type e)"
  using assms
  by (cases "ent_addr e")
    (auto simp: hosts_answers_def hosts_data_def sized_any_def any_ok_def entry_ok_def addr_ok_def addr_any_def
      same_family_def dns_rrtypes_def split: if_splits)

definition blank :: dns_packet where
  "blank = \<lparr>dict = replicate 16 0, qd = no_memo, an = no_memo, ns = no_memo, ar = no_memo,
            pend = 12, data = replicate 512 0\<rparr>"

lemma blank_ok:
  "dns_p_init (replicate 512 0) = Some blank" "packet_ok blank" "dict_fin {..<12} blank" "dns_p_count blank k = 0"
  "pend blank = 12" "psize blank = 512"
proof -
  have "replicate 12 (0::u8) @ replicate 500 0 = replicate 512 0" by (simp flip: replicate_add)
  then show "dns_p_init (replicate 512 0) = Some blank" by (simp add: dns_p_init_def blank_def)
  show "dns_p_count blank k = 0" by (simp add: dns_p_count_def hdr16_def blank_def be16_eq)
qed (simp_all add: blank_def packet_ok_def psize_def dict_fin_def)

lemma copy_counts:
  assumes "packet_ok P" "length mem = pend P" "dns_p_init mem = Some A"
  shows "packet_ok (dns_p_copy A P) \<and> data (dns_p_copy A P) = take (pend P) (data P) \<and> (\<forall>k \<in> sections. dns_p_count (dns_p_copy A P) k = dns_p_count P k)"
proof -
  have A: "psize A = pend P" "length (dict A) = 16"
    using assms by (auto simp: dns_p_init_def psize_def packet_ok_def split: if_splits)
  have P: "12 \<le> pend P" "pend P \<le> length (data P)" "pend P \<le> 65535"
    using assms(1) by (auto simp: packet_ok_def psize_def)
  then have d: "data (dns_p_copy A P) = take (pend P) (data P)"
    using A by (simp add: dns_p_copy_def psize_def blit_def Let_def)
  then show ?thesis
    using A P by (auto simp: packet_ok_def psize_def dns_p_count_def hdr16_def) (auto simp: dns_p_copy_def psize_def Let_def)
qed

lemma parse_at: "dns_rr_parse src P = Some (Inr rr) \<Longrightarrow> dnp rr = src"
  by (auto simp: dns_rr_parse_def bind_eq_Some_conv Let_def split: if_splits)

lemma cstr_snoc0: "cstr (t @ [0]) = cstr t"
  unfolding cstr_def by (induction t) auto

lemma same_name: "length t < 256 \<Longrightarrow> cstr (nul (blit (replicate 256 0) 0 t) (length t)) = cstr t"
  using cstr_label [of t "replicate 256 0"] by (simp add: cstr_snoc0)

lemma query_runs:
  assumes Q: "in_packet Q" "dns_rr_parse 12 Q = Some (Inr rr)" "name_at (data Q) (pend Q) 0 12 ls" "length (name_text ls) < 256"
    and P1: "dns_p_push blank DNS_S_QD (name_text ls) (rtype rr) (rclass rr) 0 (Any_a 0) = Some (e1, P1)"
  shows "dns_hosts_query malloc H Q =
    (if e1 \<noteq> None then Some (Inl (the e1))
     else do {
       (err, P) \<leftarrow> push_each (hosts_data (rtype rr)) (name_text ls) rr (hosts_answers H (name_text ls) (rtype rr)) P1;
       if err \<noteq> None then Some (Inl (the err))
       else map_option (map_sum id (\<lambda>A. dns_p_copy A P)) (dns_p_make malloc (pend P))
     })"
proof -
  let ?b = "nul (blit (replicate 256 0) 0 (name_text ls)) (length (name_text ls))"
  have x: "dns_d_expand (replicate 256 0) (dnp rr) Q = Some (None, length (name_text ls), ?b)"
    using dns_d_expand_name [OF Q(1,3)] parse_at [OF Q(2)] by simp
  have t: "take (length (name_text ls)) ?b = name_text ls"
    using Q(4) by (simp add: nul_def blit_whole)
  have "hosts_answers H ?b (rtype rr) = hosts_answers H (name_text ls) (rtype rr)"
    using same_name [OF Q(4)] by (simp add: hosts_answers_def strcasecmp_def)
  then show ?thesis
    using Q(4) P1 by (simp add: dns_hosts_query_def blank_ok(1) Q(2) x t)
qed

definition answered :: "nat \<Rightarrow> dns_packet \<Rightarrow> bool" where
  "answered n A \<longleftrightarrow> packet_ok A \<and> dns_p_count A DNS_S_QD = 1 \<and> dns_p_count A DNS_S_AN = n \<and>
     dns_p_count A DNS_S_NS = 0 \<and> dns_p_count A DNS_S_AR = 0"

lemma answered_copy:
  assumes P1: "pushed DNS_S_QD blank P1" and P: "answers_added n P1 P" and mem: "\<And>n. \<exists>mem. malloc n = Inr mem \<and> length mem = n"
  shows "\<exists>A. dns_p_make malloc (pend P) = Some (Inr A) \<and> answered n (dns_p_copy A P) \<and>
    data (dns_p_copy A P) = take (pend P) (data P)"
proof -
  have ok: "packet_ok P" "12 \<le> pend P" using P by (auto simp: answers_added_def packet_ok_def)
  then have "max 12 (pend P) = pend P" by simp
  then obtain mem where m: "malloc (max 12 (pend P)) = Inr mem" "length mem = pend P" using mem by metis
  then obtain A where A: "dns_p_init mem = Some A" using ok(2) by (simp add: dns_p_init_def)
  have "n \<le> 512" using P P1 ok(1) by (auto simp: answers_added_def pushed_def packet_ok_def blank_ok(6))
  then have "answered n (dns_p_copy A P) \<and> data (dns_p_copy A P) = take (pend P) (data P)"
    using copy_counts [OF ok(1) m(2) A] P P1 by (auto simp: answered_def answers_added_def pushed_def blank_ok(4))
  then show ?thesis using m(1) A by (simp add: dns_p_make_def)
qed



end
