(* ===== verification/Dns_Socket_Spec.thy ===== *)
theory Dns_Socket_Spec
  imports Dns_Socket Dns_Hosts_Query Dns_Names
begin

text \<open>
  What the sockets promise. An answer that \<open>dns_so_check\<close> reports belongs to the query that was
  submitted; a TCP stream that arrives in any portions is put together to the message in it; the
  clock never goes back. Sending over TCP keeps its promise only as long as it is not interrupted.
\<close>

section \<open>Accepted answers\<close>

definition net_ok :: "'w net \<Rightarrow> bool" where
  "net_ok N \<longleftrightarrow> (\<forall>n w fresh w'. n_realloc N n w = (Inr fresh, w') \<longrightarrow> n \<le> length fresh)"

definition matches :: "dns_socket \<Rightarrow> dns_packet \<Rightarrow> bool" where
  "matches so P \<longleftrightarrow> header_qid P = so_qid so \<and> 0 < dns_p_count P DNS_S_QD \<and>
     (\<exists>rr ls. dns_rr_parse 12 P = Some (Inr rr) \<and> rtype rr = so_qtype so \<and> rclass rr = so_qclass so \<and>
       name_at (data P) (pend P) 0 12 ls \<and> length (name_text ls) = so_qlen so \<and> so_qlen so < 256 \<and>
       map tolower8 (cstr (name_text ls)) = map tolower8 (cstr (so_qname so)))"

lemma expand_name_at:
  assumes "in_packet P" "dns_d_expand (replicate 256 0) i P = Some (None, n, s)" "n < 256"
  shows "\<exists>ls. name_at (data P) (pend P) 0 i ls \<and> n = length (name_text ls) \<and> cstr s = cstr (name_text ls)"
proof -
  obtain ls where ls: "name_at (data P) (pend P) 0 i ls"
    using dns_d_expand_returns [OF assms(1,2)] dns_d_expand_bad [OF assms(1), of i "replicate 256 0"] assms(2) by auto
  have "n = length (name_text ls)" "s = nul (blit (replicate 256 0) 0 (name_text ls)) (length (name_text ls))"
    using dns_d_expand_name [OF assms(1) ls, of "replicate 256 0"] assms(2) by auto
  then show ?thesis using ls same_name [of "name_text ls"] assms(3) by auto
qed

lemma verify_matches:
  assumes "in_packet P" "dns_so_verify so P = Some None"
  shows "matches so P"
proof -
  obtain rr n s where r: "header_qid P = so_qid so" "dns_p_count P DNS_S_QD \<noteq> 0" "dns_rr_parse 12 P = Some (Inr rr)"
    "rtype rr = so_qtype so" "rclass rr = so_qclass so" "dns_d_expand (replicate 256 0) (dnp rr) P = Some (None, n, s)"
    "n < 256" "n = so_qlen so" "strcasecmp (so_qname so) s = 0"
    using assms(2) by (auto simp: dns_so_verify_def split: if_splits bind_splits sum.splits)
  have "dnp rr = 12" using r(3) by (rule parse_at)
  then obtain ls where ls: "name_at (data P) (pend P) 0 12 ls" "n = length (name_text ls)" "cstr s = cstr (name_text ls)"
    using expand_name_at [OF assms(1) r(6,7)] by auto
  have "map tolower8 (cstr (name_text ls)) = map tolower8 (cstr (so_qname so))"
    using casecmp_zero [of "cstr (so_qname so)" "cstr s"] r(9) cstr_nonzero ls(3) by (simp add: strcasecmp_def)
  then show ?thesis using r ls unfolding matches_def by (intro conjI exI [of _ rr] exI [of _ ls]) auto
qed

text \<open>What stays of a socket between a submission and the answer.\<close>

definition quest :: "dns_socket \<Rightarrow> nat \<times> bytes \<times> nat \<times> nat \<times> nat" where
  "quest so = (so_qid so, so_qname so, so_qlen so, so_qtype so, so_qclass so)"

lemma matches_quest: "quest so = quest so' \<Longrightarrow> matches so P = matches so' P"
  by (simp add: quest_def matches_def)

definition room_inv :: "dns_socket \<Rightarrow> bool" where
  "room_inv so \<longleftrightarrow> so_alen so \<le> 65535 \<and> length (so_pre so) = 2 \<and>
     (\<forall>A. so_answer so = Some A \<longrightarrow> so_alen so \<le> psize A \<and> psize A \<le> 65535 \<and> pend A \<le> psize A \<and> 12 \<le> psize A)"

definition so_inv :: "dns_socket \<Rightarrow> bool" where
  "so_inv so \<longleftrightarrow> room_inv so \<and> (so_state so = DNS_SO_UDP_DONE \<longrightarrow> (\<exists>A. so_answer so = Some A \<and> matches so A))"

lemma init_size: "dns_p_init mem = Some P \<Longrightarrow> psize P = length mem \<and> pend P = 12"
  by (auto simp: dns_p_init_def psize_def split: if_splits)

lemma newanswer_room:
  assumes "net_ok N" "dns_so_newanswer N so len w = Some (err, so', w')" "len \<le> 65535" "room_inv so" "so_alen so \<le> len"
  shows "room_inv so'" "quest so' = quest so" "so_state so' = so_state so" "so_alen so' = so_alen so"
    "so_pre so' = so_pre so" "so_apos so' = so_apos so"
    "err = None \<Longrightarrow> \<exists>A. so_answer so' = Some A \<and> psize A = max len 768"
proof -
  let ?old = "case so_answer so of None \<Rightarrow> [] | Some P \<Rightarrow> data P"
  consider (fail) e where "n_realloc N (max len 768) w = (Inl e, w')" "err = Some (SYS e)" "so' = so"
    | (ok) fresh P where "n_realloc N (max len 768) w = (Inr fresh, w')" "dns_p_init (take (max len 768) (?old @ fresh)) = Some P"
      "err = None" "so' = so\<lparr>so_answer := Some P\<rparr>"
    using assms(2) by (auto simp: dns_so_newanswer_def Let_def split: prod.splits sum.splits bind_splits)
  then have "room_inv so' \<and> quest so' = quest so \<and> so_state so' = so_state so \<and> so_alen so' = so_alen so \<and>
    so_pre so' = so_pre so \<and> so_apos so' = so_apos so \<and> (err = None \<longrightarrow> (\<exists>A. so_answer so' = Some A \<and> psize A = max len 768))"
  proof cases
    case fail
    then show ?thesis using assms(4) by simp
  next
    case ok
    have "max len 768 \<le> length fresh" using assms(1) ok(1) unfolding net_ok_def by blast
    then have "length (take (max len 768) (?old @ fresh)) = max len 768" by (simp only: length_take length_append)
    then have "psize P = max len 768" "pend P = 12" using init_size [OF ok(2)] by (simp_all only:)
    then show ?thesis using ok(3,4) assms(3-5) by (auto simp: room_inv_def quest_def)
  qed
  then show "room_inv so'" "quest so' = quest so" "so_state so' = so_state so" "so_alen so' = so_alen so"
    "so_pre so' = so_pre so" "so_apos so' = so_apos so"
    "err = None \<Longrightarrow> \<exists>A. so_answer so' = Some A \<and> psize A = max len 768" by blast+
qed

section \<open>Every step keeps the question\<close>

text \<open>\<open>follows so so'\<close>: the question is that of \<open>so\<close>, and the buffer of the answer is still sound.\<close>

definition follows :: "dns_socket \<Rightarrow> dns_socket \<Rightarrow> bool" where
  "follows so so' \<longleftrightarrow> quest so' = quest so \<and> (room_inv so \<longrightarrow> room_inv so')"

lemma follows_refl [simp]: "follows so so" by (simp add: follows_def)

lemma follows_trans: "follows a b \<Longrightarrow> follows b c \<Longrightarrow> follows a c"
  by (simp add: follows_def)

lemma follows_simps [simp]:
  "follows a (b\<lparr>so_state := st\<rparr>) = follows a b" "follows a (b\<lparr>so_tcp := fd\<rparr>) = follows a b"
  "follows a (b\<lparr>so_stat := s\<rparr>) = follows a b" "follows a (b\<lparr>so_qout := q\<rparr>) = follows a b"
  "follows a (b\<lparr>so_old := l\<rparr>) = follows a b" "follows a (b\<lparr>so_olim := n\<rparr>) = follows a b"
  by (simp_all add: follows_def quest_def room_inv_def)

lemma closefd_follows:
  assumes "dns_so_closefd N so fd w = (err, fd', so', w')"
  shows "follows so so'" "so_state so' = so_state so"
  using assms
  by (auto simp: dns_so_closefd_def Let_def split: option.splits prod.splits if_splits sum.splits)

lemma tcp_send_follows:
  assumes "dns_so_tcp_send N so w = Some (err, so', w')"
  shows "follows so so' \<and> so_state so' = so_state so"
proof -
  obtain Q where l: "loop (tcp_send_body N Q (so_qout so)) (so, w) = Some (err, so', w')"
    using assms by (auto simp: dns_so_tcp_send_def split: bind_splits)
  have "(\<lambda>(err, so', w'). follows so so' \<and> so_state so' = so_state so) (err, so', w')"
    by (rule loop_invariant [OF l, where I = "\<lambda>(s, w). follows so s \<and> so_state s = so_state so"])
      (auto simp: tcp_send_body_def split: if_splits bind_splits prod.splits sum.splits)
  then show ?thesis by simp
qed

lemma store_follows:
  assumes "tcp_store so bs = Some so'"
  shows "follows so so'" "so_state so' = so_state so" "so_alen so' = so_alen so"
  using assms
  by (auto simp: tcp_store_def follows_def quest_def room_inv_def psize_def dest!: length_wrn split: bind_splits)

lemma recv_body_cases:
  assumes "tcp_recv_body N (aend, so, w) = Some r"
  obtains (err) e w' where "so_apos so < aend" "r = Inr (Some e, so, w')"
    "(\<exists>x. n_recv N (so_tcp so) (aend - so_apos so) w = (Inl x, w') \<and> e = SYS x) \<or> n_recv N (so_tcp so) (aend - so_apos so) w = (Inr [], w')"
  | (part) bs w1 so1 where "so_apos so < aend" "n_recv N (so_tcp so) (aend - so_apos so) w = (Inr bs, w1)" "bs \<noteq> []"
      "tcp_store so bs = Some so1" "\<not> (so_alen so1 = 0 \<and> 2 \<le> so_apos so1)" "r = Inl (aend, so1, w1)"
  | (len) bs w1 so1 n err so2 w2 where "so_apos so < aend" "n_recv N (so_tcp so) (aend - so_apos so) w = (Inr bs, w1)" "bs \<noteq> []"
      "tcp_store so bs = Some so1" "so_alen so1 = 0" "2 \<le> so_apos so1" "n = be16 (so_pre so1 ! 0) (so_pre so1 ! 1)"
      "dns_so_newanswer N so1 n w1 = Some (err, so2, w2)"
      "r = (if err \<noteq> None then Inr (err, so2, w2) else Inl (n + 2, so2\<lparr>so_alen := n\<rparr>, w2))"
  | (fin) A where "aend \<le> so_apos so" "so_answer so = Some A"
      "r = Inr (None, so\<lparr>so_answer := Some (A\<lparr>pend := so_alen so\<rparr>),
           so_stat := (so_stat so)\<lparr>tcp_rcvd := counted (tcp_rcvd (so_stat so))\<rparr>\<rparr>, w)"
proof (cases "so_apos so < aend")
  case False
  then show thesis using assms fin by (auto simp: tcp_recv_body_def split: bind_splits)
next
  case True
  obtain x w1 where x: "n_recv N (so_tcp so) (aend - so_apos so) w = (x, w1)" by (cases "n_recv N (so_tcp so) (aend - so_apos so) w")
  show thesis
  proof (cases x)
    case (Inl e)
    then show thesis using assms True x err by (auto simp: tcp_recv_body_def)
  next
    case (Inr bs)
    show thesis
    proof (cases "bs = []")
      case True
      then show thesis using assms \<open>so_apos so < aend\<close> x Inr err by (auto simp: tcp_recv_body_def)
    next
      case False
      then obtain so1 where so1: "tcp_store so bs = Some so1"
        using assms True x Inr by (cases bs) (auto simp: tcp_recv_body_def split: bind_splits)
      show thesis
      proof (cases "so_alen so1 = 0 \<and> 2 \<le> so_apos so1")
        case nl: True
        then obtain e so2 w2 where na: "dns_so_newanswer N so1 (be16 (so_pre so1 ! 0) (so_pre so1 ! 1)) w1 = Some (e, so2, w2)"
          "r = (if e \<noteq> None then Inr (e, so2, w2) else Inl (be16 (so_pre so1 ! 0) (so_pre so1 ! 1) + 2, so2\<lparr>so_alen := be16 (so_pre so1 ! 0) (so_pre so1 ! 1)\<rparr>, w2))"
          using assms True x Inr False so1 by (cases bs) (auto simp: tcp_recv_body_def Let_def split: bind_splits)
        show thesis using len [OF True _ False so1 _ _ refl na] x Inr nl by simp
      next
        case nl: False
        then have "r = Inl (aend, so1, w1)"
          using assms True x Inr False so1 by (cases bs) (auto simp: tcp_recv_body_def)
        then show thesis using part [OF True _ False so1 nl] x Inr by blast
      qed
    qed
  qed
qed

lemma tcp_recv_follows:
  assumes "net_ok N" "dns_so_tcp_recv N so w = Some (err, so', w')" "room_inv so"
  shows "follows so so' \<and> so_state so' = so_state so"
proof -
  let ?I = "\<lambda>s. follows so s \<and> so_state s = so_state so"
  have step: "case r of Inl (aend, s, w) \<Rightarrow> ?I s | Inr (err, s, w) \<Rightarrow> ?I s"
    if b: "tcp_recv_body N (aend, s, w) = Some r" and I: "?I s" for aend s w r
    using b
  proof (cases rule: recv_body_cases)
    case (part bs w1 so1)
    then show ?thesis using store_follows [OF part(4)] I follows_trans by auto
  next
    case (len bs w1 so1 n err so2 w2)
    have n: "n \<le> 65535" using be16_less [of "so_pre so1 ! 0" "so_pre so1 ! 1"] len(7) by simp
    have f: "?I so1" "room_inv so1" using store_follows [OF len(4)] I assms(3) by (auto simp: follows_def)
    note na = newanswer_room [OF assms(1) len(8) n f(2)]
    have "room_inv (so2\<lparr>so_alen := n\<rparr>)" if "err = None" using na(1,7) that n len(5) by (auto simp: room_inv_def)
    then show ?thesis using na f len(5,9) by (auto simp: follows_def quest_def)
  next
    case (fin A)
    then show ?thesis using I assms(3) by (auto simp: follows_def room_inv_def quest_def psize_def)
  qed (use I in auto)
  have "(\<lambda>(err, s, w). ?I s) (err, so', w')"
    by (rule loop_invariant [OF assms(2) [unfolded dns_so_tcp_recv_def], where I = "\<lambda>(aend, s, w). ?I s"])
      (use step in \<open>fastforce split: prod.splits\<close>)+
  then show ?thesis by simp
qed

section \<open>The state machine\<close>

lemma so_fail_cases: "so_fail e so w = Inl (so, w) \<or> (\<exists>e'. so_fail e so w = Inr (Some e', so, w))"
  by (simp add: so_fail_def)

definition accepted :: "dns_socket \<Rightarrow> bool" where
  "accepted so \<longleftrightarrow> so_state so \<in> {DNS_SO_UDP_DONE, DNS_SO_TCP_DONE} \<and> (\<exists>A. so_answer so = Some A \<and> matches so A)"

text \<open>\<open>moves so r\<close>: what a step may do; a step that ends with success has checked the answer.\<close>

definition moves :: "dns_socket \<Rightarrow> 'w so_step \<Rightarrow> bool" where
  "moves so r \<longleftrightarrow> (case r of
     Inl (so', w) \<Rightarrow> follows so so' \<and> so_inv so'
   | Inr (err, so', w) \<Rightarrow> follows so so' \<and> so_inv so' \<and> (err = None \<longrightarrow> accepted so'))"

lemma moves_fail:
  assumes "follows so so'" "so_inv so'"
  shows "moves so (so_fail e so' w)"
proof -
  consider "so_fail e so' w = Inl (so', w)" | e' where "so_fail e so' w = Inr (Some e', so', w)"
    using so_fail_cases [of e so' w] by blast
  then show ?thesis using assms by cases (simp_all add: moves_def)
qed

lemma room_inv_state [simp]: "room_inv (so\<lparr>so_state := st\<rparr>) = room_inv so"
  by (simp add: room_inv_def)

lemma moves_to:
  assumes "follows so so'" "room_inv so" "st \<noteq> DNS_SO_UDP_DONE"
  shows "moves so (Inl (so'\<lparr>so_state := st\<rparr>, w))"
proof -
  have "room_inv so'" using assms(1,2) by (simp add: follows_def)
  then show ?thesis using assms(1,3) by (simp add: moves_def so_inv_def)
qed

lemma inv_same_state:
  assumes "follows so so'" "room_inv so" "so_state so' = st" "st \<noteq> DNS_SO_UDP_DONE"
  shows "so_inv so'"
  using assms by (simp add: so_inv_def follows_def)

lemma udp_recv_moves:
  assumes "room_inv so" "so_state so = DNS_SO_UDP_RECV" "udp_recv N so w = Some r"
  shows "moves so r"
proof -
  obtain A x w1 where A: "so_answer so = Some A" "n_recv N (so_udp so) (psize A) w = (x, w1)"
    using assms(3) by (cases "so_answer so"; cases "n_recv N (so_udp so) (psize (the (so_answer so))) w") (auto simp: udp_recv_def)
  show ?thesis
  proof (cases x)
    case (Inl e)
    then have "r = so_fail (SYS e) so w1" using assms(3) A by (simp add: udp_recv_def)
    then show ?thesis using moves_fail [OF follows_refl, of so] assms(1,2) by (simp add: so_inv_def)
  next
    case (Inr bs)
    then obtain mem where mem: "wrn (data A) 0 bs = Some mem"
      using assms(3) A by (auto simp: udp_recv_def split: bind_splits)
    define B where "B = A\<lparr>data := mem, pend := length bs\<rparr>"
    define so1 where "so1 = so\<lparr>so_answer := Some B,
        so_stat := (so_stat so)\<lparr>udp_rcvd := counted (sent (length bs) (udp_rcvd (so_stat so)))\<rparr>\<rparr>"
    have "psize B = psize A" "pend B \<le> psize B"
      using mem length_wrn [OF mem] by (auto simp: B_def psize_def wrn_def split: if_splits)
    then have f: "follows so so1" "room_inv so1" "in_packet B" "so_state so1 = DNS_SO_UDP_RECV"
      using assms(1,2) A(1) by (auto simp: so1_def follows_def quest_def room_inv_def in_packet_def psize_def)
    consider "r = Inl (so1, w1)" | "dns_so_verify so1 B = Some None" "r = Inl (so1\<lparr>so_state := DNS_SO_UDP_DONE\<rparr>, w1)"
      using assms(3) A Inr mem
      by (auto simp: udp_recv_def so1_def B_def Let_def split: bind_splits if_splits)
    then show ?thesis
    proof cases
      case 1
      then show ?thesis using f by (simp add: moves_def so_inv_def)
    next
      case 2
      have "matches so1 B" by (rule verify_matches [OF f(3) 2(1)])
      then have "matches (so1\<lparr>so_state := DNS_SO_UDP_DONE\<rparr>) B" by (simp add: matches_def)
      then show ?thesis using 2(2) f by (auto simp: moves_def so_inv_def room_inv_def so1_def)
    qed
  qed
qed

lemma tcp_init_moves:
  assumes "room_inv so" "so_state so = DNS_SO_TCP_INIT"
  shows "moves so (tcp_init N so w)"
proof -
  obtain err fd so1 w1 where c: "dns_so_closefd N so (so_tcp so) w = (err, fd, so1, w1)" by (cases "dns_so_closefd N so (so_tcp so) w") auto
  have f: "follows so so1" "so_state so1 = DNS_SO_TCP_INIT" using closefd_follows [OF c] assms(2) by auto
  have i: "so_inv (so1\<lparr>so_tcp := fd\<rparr>)" for fd by (rule inv_same_state [of so _ DNS_SO_TCP_INIT]) (use f assms in auto)
  show ?thesis
  proof (cases err)
    case (Some e)
    then show ?thesis using c moves_fail [OF _ i, of so] f(1) by (simp add: tcp_init_def)
  next
    case None
    obtain x w2 where x: "dns_socket N (so_local so1) SOCK_STREAM w1 = (x, w2)" by (cases "dns_socket N (so_local so1) SOCK_STREAM w1")
    show ?thesis
    proof (cases x)
      case (Inl e)
      then show ?thesis using c x None moves_fail [OF _ i, of so None] f(1) by (simp add: tcp_init_def Let_def)
    next
      case (Inr fd)
      have "moves so (Inl (so1\<lparr>so_tcp := Some fd, so_state := DNS_SO_TCP_CONN\<rparr>, w2))"
        by (rule moves_to) (use f(1) assms(1) in simp_all)
      then show ?thesis using c x None Inr by (simp add: tcp_init_def Let_def)
    qed
  qed
qed

lemma tcp_done_moves:
  assumes "room_inv so" "so_state so = DNS_SO_TCP_DONE" "tcp_done N so w = Some r"
  shows "moves so r"
proof -
  obtain err fd so1 w1 where c: "dns_so_closefd N so (so_tcp so) w = (err, fd, so1, w1)" by (cases "dns_so_closefd N so (so_tcp so) w") auto
  let ?so = "so1\<lparr>so_tcp := fd\<rparr>"
  have f: "follows so ?so" "so_state ?so = DNS_SO_TCP_DONE" using closefd_follows [OF c] assms(2) by auto
  have i: "so_inv ?so" by (rule inv_same_state [OF f(1) assms(1) f(2)]) simp
  show ?thesis
  proof (cases err)
    case (Some e)
    then show ?thesis using assms(3) c moves_fail [OF f(1) i] by (auto simp: tcp_done_def Let_def)
  next
    case None
    then obtain A where A: "so_answer ?so = Some A" using assms(3) c by (auto simp: tcp_done_def Let_def split: bind_splits)
    have P: "in_packet A" using f(1) assms(1) A by (auto simp: follows_def room_inv_def in_packet_def psize_def)
    consider "r = Inr (Some DNS_EILLEGAL, ?so, w1)" | e where "r = so_fail e ?so w1" | "dns_so_verify ?so A = Some None" "r = Inr (None, ?so, w1)"
      using assms(3) c None A by (auto simp: tcp_done_def Let_def split: bind_splits if_splits option.splits)
    then show ?thesis
    proof cases
      case 1
      then show ?thesis using f i by (simp add: moves_def)
    next
      case 2
      then show ?thesis using moves_fail [OF f(1) i] by simp
    next
      case 3
      then show ?thesis using f i A verify_matches [OF P 3(1)] by (simp add: moves_def accepted_def)
    qed
  qed
qed

lemma check_body_moves:
  assumes "net_ok N" "so_inv so" "so_check_body N (so, w) = Some r"
  shows "moves so r"
proof -
  have room: "room_inv so" using assms(2) by (simp add: so_inv_def)
  show ?thesis
  proof (cases "so_state so")
    case DNS_SO_UDP_RECV
    then show ?thesis using assms udp_recv_moves [of so N w r] by (simp add: so_check_body_def so_inv_def)
  next
    case DNS_SO_TCP_INIT
    then show ?thesis using assms tcp_init_moves [of so N w] by (simp add: so_check_body_def so_inv_def)
  next
    case DNS_SO_TCP_DONE
    then show ?thesis using assms tcp_done_moves [of so N w r] by (simp add: so_check_body_def so_inv_def)
  next
    case DNS_SO_UDP_DONE
    then obtain A where A: "so_answer so = Some A" "matches so A" using assms(2) by (auto simp: so_inv_def)
    have "moves so (Inl (so\<lparr>so_state := DNS_SO_TCP_INIT\<rparr>, w))" by (rule moves_to) (use assms(2) in \<open>simp_all add: so_inv_def\<close>)
    moreover have "moves so (Inr (None, so, w))" using assms(2) A DNS_SO_UDP_DONE by (simp add: moves_def accepted_def)
    moreover have "r = Inr (None, so, w) \<or> r = Inl (so\<lparr>so_state := DNS_SO_TCP_INIT\<rparr>, w)"
      using assms(3) DNS_SO_UDP_DONE A(1) by (auto simp: so_check_body_def split: if_splits)
    ultimately show ?thesis by blast
  next
    case DNS_SO_TCP_SEND
    then obtain err so1 w1 where s: "dns_so_tcp_send N so w = Some (err, so1, w1)"
      "r = (case err of Some e \<Rightarrow> so_fail e so1 w1 | None \<Rightarrow> Inl (so1\<lparr>so_state := DNS_SO_TCP_RECV\<rparr>, w1))"
      using assms(3) by (auto simp: so_check_body_def split: bind_splits)
    have f: "follows so so1" "so_state so1 = DNS_SO_TCP_SEND" using tcp_send_follows [OF s(1)] DNS_SO_TCP_SEND by simp_all
    have "so_inv so1" by (rule inv_same_state [OF f(1) _ f(2)]) (use assms(2) in \<open>simp_all add: so_inv_def\<close>)
    then show ?thesis using s(2) moves_fail [OF f(1), of _ w1] moves_to [OF f(1), of DNS_SO_TCP_RECV w1] assms(2) by (cases err) (simp_all add: so_inv_def)
  next
    case DNS_SO_TCP_RECV
    then obtain err so1 w1 where s: "dns_so_tcp_recv N so w = Some (err, so1, w1)"
      "r = (case err of Some e \<Rightarrow> so_fail e so1 w1 | None \<Rightarrow> Inl (so1\<lparr>so_state := DNS_SO_TCP_DONE\<rparr>, w1))"
      using assms(3) by (auto simp: so_check_body_def split: bind_splits)
    have f: "follows so so1" "so_state so1 = DNS_SO_TCP_RECV" using tcp_recv_follows [OF assms(1) s(1) room] DNS_SO_TCP_RECV by simp_all
    have "so_inv so1" by (rule inv_same_state [OF f(1) room f(2)]) simp
    then show ?thesis using s(2) moves_fail [OF f(1), of _ w1] moves_to [OF f(1) room, of DNS_SO_TCP_DONE w1] by (cases err) simp_all
  qed (use assms(3) in \<open>auto simp: so_check_body_def moves_to [OF _ room] moves_fail [OF follows_refl assms(2)]
        split: bind_splits prod.splits option.splits sum.splits if_splits\<close>)
qed

lemma check_moves:
  assumes "net_ok N" "so_inv so" "dns_so_check N so w = Some (err, so', w')"
  shows "follows so so'" "so_inv so'" "err = None \<Longrightarrow> accepted so'"
proof -
  have "(\<lambda>(err, so', w'). follows so so' \<and> so_inv so' \<and> (err = None \<longrightarrow> accepted so')) (err, so', w')"
  proof (rule loop_invariant [OF assms(3) [unfolded dns_so_check_def], where I = "\<lambda>(s, w). follows so s \<and> so_inv s"])
    fix s s' assume "case s of (s, w) \<Rightarrow> follows so s \<and> so_inv s" "so_check_body N s = Some (Inl s')"
    then show "case s' of (s, w) \<Rightarrow> follows so s \<and> so_inv s"
      using check_body_moves [OF assms(1)] follows_trans by (cases s; cases s') (fastforce simp: moves_def)
  next
    fix s r assume "case s of (s, w) \<Rightarrow> follows so s \<and> so_inv s" "so_check_body N s = Some (Inr r)"
    then show "case r of (err, so', w') \<Rightarrow> follows so so' \<and> so_inv so' \<and> (err = None \<longrightarrow> accepted so')"
      using check_body_moves [OF assms(1)] follows_trans by (cases s; cases r) (fastforce simp: moves_def)
  qed (use assms(2) in simp)
  then show "follows so so'" "so_inv so'" "err = None \<Longrightarrow> accepted so'" by simp_all
qed

section \<open>From the submission to the answer\<close>

text \<open>Everything that may happen to a socket between two calls: further calls, each in a state of
  the system of its own, and closing of old descriptors.\<close>

inductive serves :: "'w net \<Rightarrow> dns_socket \<Rightarrow> dns_socket \<Rightarrow> bool" for N so where
  start: "serves N so so"
| check: "serves N so so1 \<Longrightarrow> dns_so_check N so1 w = Some (err, so2, w') \<Longrightarrow> serves N so so2"
| clear: "serves N so so1 \<Longrightarrow> serves N so (fst (dns_so_clear N so1 w))"

lemma clear_follows: "follows so (fst (dns_so_clear N so w))" "so_inv so \<Longrightarrow> so_inv (fst (dns_so_clear N so w))"
  by (simp_all add: dns_so_clear_def dns_so_closefds_def so_inv_def room_inv_def matches_def)

lemma serves_follows:
  assumes "serves N so so'" "net_ok N" "so_inv so"
  shows "follows so so' \<and> so_inv so'"
  using assms(1)
proof induction
  case (check so1 w err so2 w')
  then show ?case using check_moves [OF assms(2) _ check(2)] follows_trans by blast
next
  case (clear so1 w)
  then show ?case using clear_follows [of so1 N w] follows_trans by blast
qed (use assms(3) in simp)

text \<open>Two packets that ask the same: type, class and, apart from the case of letters, name of their
  first questions.\<close>

definition same_question :: "dns_packet \<Rightarrow> dns_packet \<Rightarrow> bool" where
  "same_question Q A \<longleftrightarrow> (\<exists>rq ra lq la. dns_rr_parse 12 Q = Some (Inr rq) \<and> dns_rr_parse 12 A = Some (Inr ra) \<and>
     rtype ra = rtype rq \<and> rclass ra = rclass rq \<and>
     name_at (data Q) (pend Q) 0 12 lq \<and> name_at (data A) (pend A) 0 12 la \<and> length (name_text la) = length (name_text lq) \<and>
     map tolower8 (cstr (name_text la)) = map tolower8 (cstr (name_text lq)))"

lemma submit_start:
  assumes "net_ok N" "dns_so_submit N now c so Q host w = Some (None, so1, c', w1)"
  shows "so_inv so1 \<and> (\<exists>rr Q'. dns_rr_parse 12 Q = Some (Inr rr) \<and>
      dns_d_expand (replicate 256 0) 12 Q = Some (None, so_qlen so1, so_qname so1) \<and>
      so_qtype so1 = rtype rr \<and> so_qclass so1 = rclass rr \<and>
      so_query so1 = Some Q' \<and> so_qid so1 = header_qid Q' \<and> (header_qid Q \<noteq> 0 \<longrightarrow> Q' = Q))"
proof -
  obtain rr where rr: "dns_rr_parse 12 Q = Some (Inr rr)"
    using assms(2) by (auto simp: dns_so_submit_def Let_def split: bind_splits sum.splits)
  have p: "dnp rr = 12" by (rule parse_at [OF rr])
  have q0: "so_qname (dns_so_reset so) = replicate 256 0" by (simp add: dns_so_reset_def)
  obtain n s where x: "dns_d_expand (replicate 256 0) 12 Q = Some (None, n, s)"
    using assms(2) rr p q0 by (auto simp: dns_so_submit_def Let_def split: bind_splits if_splits)
  define so2 where "so2 = (dns_so_reset so)\<lparr>so_qlen := n, so_qname := s, so_qtype := rtype rr, so_qclass := rclass rr\<rparr>"
  obtain so3 w3 where na: "dns_so_newanswer N so2 768 w = Some (None, so3, w3)"
    using assms(2) rr p q0 x unfolding so2_def by (auto simp: dns_so_submit_def Let_def split: bind_splits if_splits)
  have i2: "room_inv so2" "so_alen so2 \<le> 768" by (simp_all add: so2_def dns_so_reset_def room_inv_def)
  note r = newanswer_room [OF assms(1) na _ i2, simplified]
  have "\<exists>Q'. so_query so1 = Some Q' \<and> so_qid so1 = header_qid Q' \<and> (header_qid Q \<noteq> 0 \<longrightarrow> Q' = Q)"
    "so_alen so1 = so_alen so3" "so_pre so1 = so_pre so3" "so_answer so1 = so_answer so3" "so_qlen so1 = so_qlen so3"
    "so_qname so1 = so_qname so3" "so_qtype so1 = so_qtype so3" "so_qclass so1 = so_qclass so3"
    "so_state so1 \<noteq> DNS_SO_UDP_DONE"
    using assms(2) rr p q0 x na unfolding so2_def
    by (auto simp: dns_so_submit_def dns_so_mkqid_def Let_def split_beta split: bind_splits if_splits)
  note f = this
  have "so_inv so1" using f r(1) by (simp add: so_inv_def room_inv_def)
  moreover have "so_qlen so3 = n" "so_qname so3 = s" "so_qtype so3 = rtype rr" "so_qclass so3 = rclass rr"
    using r(2) by (simp_all add: quest_def so2_def)
  ultimately show ?thesis using f rr x by auto
qed

text \<open>C2: Answers belong to their question. After a query is submitted, whatever the network does
  and however often the socket is checked in between, when \<open>dns_so_check\<close> reports success then
  \<open>dns_so_fetch\<close> returns a packet with the identifier of the query whose first question has the
  type, the class and, up to the case of letters, the name of the question that was asked.\<close>
theorem dns_so_answer_belongs:
  assumes "net_ok N" "in_packet Q" "dns_so_submit N now c so Q host w = Some (None, so1, c', w1)"
    and "serves N so1 so2" "dns_so_check N so2 w2 = Some (None, so3, w3)"
  shows "\<exists>A Q'. fst (dns_so_fetch so3) = Inr (Some A) \<and> so_query so1 = Some Q' \<and> (header_qid Q \<noteq> 0 \<longrightarrow> Q' = Q) \<and>
    header_qid A = header_qid Q' \<and> same_question Q A"
proof -
  obtain rq Q' where sub: "so_inv so1" "dns_rr_parse 12 Q = Some (Inr rq)"
    "dns_d_expand (replicate 256 0) 12 Q = Some (None, so_qlen so1, so_qname so1)"
    "so_qtype so1 = rtype rq" "so_qclass so1 = rclass rq" "so_query so1 = Some Q'" "so_qid so1 = header_qid Q'"
    "header_qid Q \<noteq> 0 \<longrightarrow> Q' = Q"
    using submit_start [OF assms(1,3)] by blast
  have s2: "follows so1 so2" "so_inv so2" using serves_follows [OF assms(4,1) sub(1)] by simp_all
  have s3: "follows so1 so3" "accepted so3"
    using check_moves [OF assms(1) s2(2) assms(5)] follows_trans [OF s2(1)] by simp_all
  obtain A where A: "so_answer so3 = Some A" "matches so1 A"
    using s3 matches_quest [of so3 so1] by (auto simp: accepted_def follows_def)
  obtain ra la where la: "dns_rr_parse 12 A = Some (Inr ra)" "rtype ra = so_qtype so1" "rclass ra = so_qclass so1"
    "name_at (data A) (pend A) 0 12 la" "length (name_text la) = so_qlen so1" "so_qlen so1 < 256"
    "map tolower8 (cstr (name_text la)) = map tolower8 (cstr (so_qname so1))"
    using A(2) by (auto simp: matches_def)
  obtain lq where lq: "name_at (data Q) (pend Q) 0 12 lq" "so_qlen so1 = length (name_text lq)" "cstr (so_qname so1) = cstr (name_text lq)"
    using expand_name_at [OF assms(2) sub(3) la(6)] by blast
  have "same_question Q A"
    unfolding same_question_def using sub(2,4,5) la lq by (intro exI [of _ rq] exI [of _ ra] exI [of _ lq] exI [of _ la]) auto
  moreover have "fst (dns_so_fetch so3) = Inr (Some A)" using s3(2) A(1) by (auto simp: dns_so_fetch_def accepted_def)
  ultimately show ?thesis using A(2) sub(6,7,8) by (auto simp: matches_def)
qed

text \<open>A network that answers every datagram with the packet \<open>ask\<close>, a question for the address
  of \<open>a\<close>.\<close>

definition ask :: bytes where
  "ask = [1, 0, 0, 0, 0, 1, 0, 0, 0, 0, 0, 0, 1, 97, 0, 0, 1, 0, 1]"

definition ask_packet :: dns_packet where
  "ask_packet = \<lparr>dict = replicate 16 0, qd = no_memo, an = no_memo, ns = no_memo, ar = no_memo, pend = 19, data = ask\<rparr>"

definition echo_net :: "unit net" where
  "echo_net = \<lparr>n_socket = (\<lambda>_ _ w. (Inr 3, w)), n_fcntl = (\<lambda>_ _ w. (None, w)), n_bind = (\<lambda>_ _ w. (None, w)),
     n_connect = (\<lambda>_ _ w. (None, w)), n_send = (\<lambda>_ bs w. (Inr (length bs), w)), n_recv = (\<lambda>_ _ w. (Inr ask, w)),
     n_close = (\<lambda>_ w. w), n_random = (\<lambda>w. (7, w)), n_realloc = (\<lambda>n w. (Inr (replicate n 0), w)),
     n_time = (\<lambda>w. (0, w)), n_closefd = None\<rparr>"

lemma ask_reads:
  assumes "data P = ask @ t" "pend P = 19"
  shows "dns_rr_parse 12 P = Some (Inr \<lparr>rsection = DNS_S_QD, dnp = 12, dnlen = 3, rtype = 1, rclass = 1, rttl = 0, rdp = 0, rdlen = 0\<rparr>)"
    "dns_d_expand (replicate 256 0) 12 P = Some (None, 2, nul (blit (replicate 256 0) 0 [97, 46]) 2)"
    "header_qid P = 1" "dns_p_count P DNS_S_QD = 1" "header_tc P = False" "in_packet P"
proof -
  show P: "in_packet P" using assms by (simp add: in_packet_def ask_def)
  have "d_skip_body P 12 = Some (Inl 14)" "d_skip_body P 14 = Some (Inr 15)"
    using assms by (simp_all add: d_skip_body_def ask_def label_type_eq label_len_eq)
  then have skip: "dns_d_skip 12 P = Some 15" by (simp add: dns_d_skip_def loop_next [of _ 12] loop_done)
  show c: "dns_p_count P DNS_S_QD = 1" using assms by (simp add: dns_p_count_def hdr16_def ask_def be16_eq)
  have "dns_p_qend P = Some 19" using skip c assms by (simp add: dns_p_qend_def numeral_2_eq_2)
  moreover have "be16_at P 15 = Some 1" "be16_at P 17 = Some 1"
    using assms by (simp_all add: be16_at_def ask_def be16_eq)
  ultimately show "dns_rr_parse 12 P = Some (Inr \<lparr>rsection = DNS_S_QD, dnp = 12, dnlen = 3, rtype = 1, rclass = 1, rttl = 0, rdp = 0, rdlen = 0\<rparr>)"
    using skip assms by (simp add: dns_rr_parse_def)
  have "name_at (data P) (pend P) 0 14 []" using assms by (intro name_at.root) (simp_all add: ask_def)
  then have "name_at (data P) (pend P) 0 12 [[97]]"
    using name_at.label [of 12 "pend P" "data P" 1 "[]" 0] assms by (simp add: ask_def label_type_eq label_len_eq)
  from dns_d_expand_name [OF P this, of "replicate 256 0"]
  show "dns_d_expand (replicate 256 0) 12 P = Some (None, 2, nul (blit (replicate 256 0) 0 [97, 46]) 2)"
    by (simp add: name_text_def numeral_2_eq_2)
  show "header_qid P = 1" "header_tc P = False" using assms by (simp_all add: header_qid_def header_tc_def ask_def)
qed

definition idle_socket :: dns_socket where
  "idle_socket = \<lparr>so_udp = Some 3, so_tcp = None, so_old = [], so_olim = 0, so_type = 0, so_local = no_sockaddr,
     so_remote = no_sockaddr,
     so_qids = \<lparr>stepi = 0, plength = 1, limit = 1, shift = 1, pmask = 1, rounds = 8, tea = dns_k_tea_init [] 0\<rparr>,
     so_stat = no_stat, so_state = DNS_SO_NONE, so_qid = 0, so_qname = [], so_qlen = 0, so_qtype = 0, so_qclass = 0,
     so_query = None, so_qout = 0, so_began = 0, so_answer = None, so_pre = [0, 0], so_alen = 0, so_apos = 0\<rparr>"

lemma echo_submit:
  "\<exists>so1 A. dns_so_submit echo_net 0 \<lparr>clk_last = 0, clk_tick = 0\<rparr> idle_socket ask_packet \<lparr>sa_addr = AF_INET 1, sa_port = 53\<rparr> ()
      = Some (None, so1, \<lparr>clk_last = 0, clk_tick = 0\<rparr>, ()) \<and>
    so_state so1 = DNS_SO_UDP_INIT \<and> so_answer so1 = Some A \<and> psize A = 768 \<and> so_query so1 = Some ask_packet \<and> so_type so1 = 0 \<and>
    quest so1 = (1, nul (blit (replicate 256 0) 0 [97, 46]) 2, 2, 1, 1)"
proof -
  have Q: "data ask_packet = ask @ []" "pend ask_packet = 19" by (simp_all add: ask_packet_def)
  obtain P where P: "dns_p_init (replicate 768 0) = Some P" "psize P = 768"
    using init_size [of "replicate 768 0"] by (simp add: dns_p_init_def psize_def)
  have "dns_so_newanswer echo_net so 768 () = Some (None, so\<lparr>so_answer := Some P\<rparr>, ())" if "so_answer so = None" for so
    using that P by (simp add: dns_so_newanswer_def echo_net_def)
  then show ?thesis
    using ask_reads [OF Q] P(2)
    by (simp add: dns_so_submit_def dns_so_reset_def dns_now_def dns_sa_len_def dns_af_len_def quest_def idle_socket_def)
qed

lemma echo_recv:
  assumes "so_answer so = Some A" "19 \<le> psize A" "quest so = (1, nul (blit (replicate 256 0) 0 [97, 46]) 2, 2, 1, 1)"
  shows "\<exists>so' B t. udp_recv echo_net so () = Some (Inl (so'\<lparr>so_state := DNS_SO_UDP_DONE\<rparr>, ())) \<and> so_type so' = so_type so \<and>
    so_answer so' = Some B \<and> data B = ask @ t \<and> pend B = 19"
proof -
  define B where "B = A\<lparr>data := ask @ drop 19 (data A), pend := 19\<rparr>"
  have l: "length ask = 19" by (simp add: ask_def)
  have w: "wrn (data A) 0 ask = Some (ask @ drop 19 (data A))" using assms(2) l by (simp add: wrn_in psize_def)
  define so1 where "so1 = so\<lparr>so_answer := Some B, so_stat := (so_stat so)\<lparr>udp_rcvd := counted (sent 19 (udp_rcvd (so_stat so)))\<rparr>\<rparr>"
  have B: "data B = ask @ drop 19 (data A)" "pend B = 19" by (simp_all add: B_def)
  have "dns_so_verify so1 B = Some None"
    using ask_reads [OF B] assms(3) by (simp add: dns_so_verify_def so1_def quest_def strcasecmp_def casecmp_refl)
  then have "udp_recv echo_net so () = Some (Inl (so1\<lparr>so_state := DNS_SO_UDP_DONE\<rparr>, ()))"
    using assms(1) w l by (simp add: udp_recv_def echo_net_def Let_def so1_def B_def)
  then show ?thesis using B by (intro exI [of _ so1] exI [of _ B]) (simp add: so1_def)
qed

theorem dns_so_answer_belongs_witness:
  "\<exists>so1 so3 c' A. dns_so_submit echo_net 0 \<lparr>clk_last = 0, clk_tick = 0\<rparr> idle_socket ask_packet \<lparr>sa_addr = AF_INET 1, sa_port = 53\<rparr> ()
      = Some (None, so1, c', ()) \<and> dns_so_check echo_net so1 () = Some (None, so3, ()) \<and>
    fst (dns_so_fetch so3) = Inr (Some A) \<and> header_qid A = 1 \<and> same_question ask_packet A"
proof -
  obtain so1 c' A0 where so1: "dns_so_submit echo_net 0 \<lparr>clk_last = 0, clk_tick = 0\<rparr> idle_socket ask_packet \<lparr>sa_addr = AF_INET 1, sa_port = 53\<rparr> ()
      = Some (None, so1, c', ())" "so_state so1 = DNS_SO_UDP_INIT" "so_answer so1 = Some A0" "psize A0 = 768"
    "so_query so1 = Some ask_packet" "so_type so1 = 0" "quest so1 = (1, nul (blit (replicate 256 0) 0 [97, 46]) 2, 2, 1, 1)"
    using echo_submit by blast
  let ?st = "so_stat so1\<lparr>udp_sent := counted (sent 19 (udp_sent (so_stat so1)))\<rparr>"
  define so2 where "so2 = so1\<lparr>so_stat := ?st, so_state := DNS_SO_UDP_RECV\<rparr>"
  obtain so' B t where r: "udp_recv echo_net so2 () = Some (Inl (so'\<lparr>so_state := DNS_SO_UDP_DONE\<rparr>, ()))" "so_type so' = 0"
    "so_answer so' = Some B" "data B = ask @ t" "pend B = 19"
    using echo_recv [of so2 A0] so1 by (auto simp: so2_def quest_def)
  let ?so3 = "so'\<lparr>so_state := DNS_SO_UDP_DONE\<rparr>"
  have l: "length ask = 19" by (simp add: ask_def)
  have "so_check_body echo_net (so1, ()) = Some (Inl (so1\<lparr>so_state := DNS_SO_UDP_CONN\<rparr>, ()))"
    "so_check_body echo_net (so1\<lparr>so_state := DNS_SO_UDP_CONN\<rparr>, ()) = Some (Inl (so1\<lparr>so_state := DNS_SO_UDP_SEND\<rparr>, ()))"
    "so_check_body echo_net (so1\<lparr>so_state := DNS_SO_UDP_SEND\<rparr>, ()) = Some (Inl (so2, ()))"
    using so1(2,5) l by (simp_all add: so_check_body_def echo_net_def so2_def ask_packet_def)
  moreover have "so_check_body echo_net (so2, ()) = Some (Inl (?so3, ()))" using r(1) by (simp add: so_check_body_def so2_def)
  moreover have "so_check_body echo_net (?so3, ()) = Some (Inr (None, ?so3, ()))"
    using ask_reads(5) [OF r(4,5)] r(3) by (simp add: so_check_body_def)
  ultimately have chk: "dns_so_check echo_net so1 () = Some (None, ?so3, ())"
    by (simp add: dns_so_check_def loop_next loop_done)
  have net: "net_ok echo_net" by (simp add: net_ok_def echo_net_def)
  have Q: "in_packet ask_packet" "header_qid ask_packet = 1"
    using ask_reads [of ask_packet "[]"] by (simp_all add: ask_packet_def)
  show ?thesis
    using dns_so_answer_belongs [OF net Q(1) so1(1) serves.start chk] so1 Q(2) chk by auto
qed

section \<open>Receiving over TCP\<close>

text \<open>\<open>streams N rest\<close>: the descriptor delivers a stream, of which \<open>rest w\<close> is still to come, in
  portions of any size, with errors in between; memory is available.\<close>

definition streams :: "'w net \<Rightarrow> ('w \<Rightarrow> bytes) \<Rightarrow> bool" where
  "streams N rest \<longleftrightarrow>
     (\<forall>fd n w e w'. n_recv N fd n w = (Inl e, w') \<longrightarrow> rest w' = rest w) \<and>
     (\<forall>fd n w bs w'. n_recv N fd n w = (Inr bs, w') \<longrightarrow> length bs \<le> n \<and> rest w = bs @ rest w') \<and>
     (\<forall>n w. \<exists>fresh w'. n_realloc N n w = (Inr fresh, w') \<and> n \<le> length fresh \<and> rest w' = rest w)"

definition got :: "dns_socket \<Rightarrow> bytes" where
  "got so = take (so_apos so) (so_pre so @ data (the (so_answer so)))"

definition msg_len :: "bytes \<Rightarrow> nat" where
  "msg_len S = be16 (S ! 0) (S ! 1)"

text \<open>\<open>receiving rest S so w\<close>: the socket has read the first part of the stream \<open>S\<close>, which starts
  with a length and at least as many bytes.\<close>

definition receiving :: "('w \<Rightarrow> bytes) \<Rightarrow> bytes \<Rightarrow> dns_socket \<Rightarrow> 'w \<Rightarrow> bool" where
  "receiving rest S so w \<longleftrightarrow> room_inv so \<and> so_answer so \<noteq> None \<and> 2 + msg_len S \<le> length S \<and> got so @ rest w = S \<and>
     (so_alen so = 0 \<and> so_apos so < 2 \<or> 0 < so_alen so \<and> so_alen so = msg_len S \<and> 2 \<le> so_apos so \<and> so_apos so \<le> so_alen so + 2)"

definition message_read :: "('w \<Rightarrow> bytes) \<Rightarrow> bytes \<Rightarrow> dns_socket \<Rightarrow> 'w \<Rightarrow> bool" where
  "message_read rest S so w \<longleftrightarrow> (\<exists>A. so_answer so = Some A \<and> pend A = msg_len S \<and>
     take (pend A) (data A) = take (msg_len S) (drop 2 S) \<and> rest w = drop (msg_len S + 2) S)"

lemma take_splice: "a + length bs \<le> length m \<Longrightarrow> take (a + length bs) (take a m @ bs @ t) = take a m @ bs"
  by simp

lemma store_got:
  assumes "room_inv so" "so_answer so = Some A" "so_apos so + length bs \<le> 2 + psize A"
  shows "\<exists>so' B. tcp_store so bs = Some so' \<and> so_answer so' = Some B \<and> psize B = psize A \<and> got so' = got so @ bs \<and>
    so_apos so' = so_apos so + length bs \<and> so_alen so' = so_alen so \<and> room_inv so'"
proof -
  let ?mem = "so_pre so @ data A"
  have pre: "length (so_pre so) = 2" using assms(1) by (simp add: room_inv_def)
  then have l: "so_apos so + length bs \<le> length ?mem" using assms(3) by (simp add: psize_def)
  define m where "m = take (so_apos so) ?mem @ bs @ drop (so_apos so + length bs) ?mem"
  have w: "wrn ?mem (so_apos so) bs = Some m" unfolding m_def by (rule wrn_in [OF l])
  have "length m = length ?mem" using length_wrn [OF w] .
  then have d: "length (drop 2 m) = length (data A)" using pre by simp
  obtain so' where so': "tcp_store so bs = Some so'" "so_pre so' = take 2 m" "so_answer so' = Some (A\<lparr>data := drop 2 m\<rparr>)"
    "so_apos so' = so_apos so + length bs"
    using w assms(2) by (simp add: tcp_store_def)
  have "got so' = take (so_apos so + length bs) m" using so' by (simp add: got_def)
  also have "\<dots> = got so @ bs" unfolding m_def take_splice [OF l] using assms(2) by (simp add: got_def)
  finally have "got so' = got so @ bs" .
  moreover have "room_inv so'" using store_follows(1) [OF so'(1)] assms(1) by (simp add: follows_def)
  ultimately show ?thesis using so' d store_follows(3) [OF so'(1)] by (simp add: psize_def)
qed

lemma streams_net_ok: "streams N rest \<Longrightarrow> net_ok N"
  unfolding streams_def net_ok_def by (metis old.sum.inject(2) prod.inject)

lemma newanswer_ok:
  assumes "streams N rest" "room_inv so" "so_alen so = 0" "n \<le> 65535" "so_apos so = 2"
  shows "\<exists>so' A w'. dns_so_newanswer N so n w = Some (None, so', w') \<and> so_answer so' = Some A \<and> rest w' = rest w \<and>
    room_inv (so'\<lparr>so_alen := n\<rparr>) \<and> got so' = so_pre so \<and> so_apos so' = 2"
proof -
  let ?old = "case so_answer so of None \<Rightarrow> [] | Some P \<Rightarrow> data P"
  obtain fresh w' where f: "n_realloc N (max n 768) w = (Inr fresh, w')" "max n 768 \<le> length fresh" "rest w' = rest w"
    using assms(1) unfolding streams_def by blast
  then have "length (take (max n 768) (?old @ fresh)) = max n 768" by (simp only: length_take length_append)
  then have "dns_p_init (take (max n 768) (?old @ fresh)) \<noteq> None" by (simp only: dns_p_init_def) simp
  then obtain P where "dns_p_init (take (max n 768) (?old @ fresh)) = Some P" by blast
  then have na: "dns_so_newanswer N so n w = Some (None, so\<lparr>so_answer := Some P\<rparr>, w')" using f(1) by (simp add: dns_so_newanswer_def)
  note r = newanswer_room [OF streams_net_ok [OF assms(1)] na assms(4,2)]
  have "psize P = max n 768" using r(7) assms(3) by simp
  then have "room_inv (so\<lparr>so_answer := Some P, so_alen := n\<rparr>)" using r(1) assms(3,4) by (simp add: room_inv_def)
  then show ?thesis using na f(3) assms(2,5) by (simp add: got_def room_inv_def)
qed

text \<open>Inside the loop there is one more situation: the length has been read and is 0.\<close>

definition recv_inv :: "('w \<Rightarrow> bytes) \<Rightarrow> bytes \<Rightarrow> nat \<times> dns_socket \<times> 'w \<Rightarrow> bool" where
  "recv_inv rest S = (\<lambda>(aend, so, w). aend = so_alen so + 2 \<and>
     (receiving rest S so w \<or>
      room_inv so \<and> so_answer so \<noteq> None \<and> 2 + msg_len S \<le> length S \<and> got so @ rest w = S \<and> so_alen so = 0 \<and> msg_len S = 0 \<and> so_apos so = 2))"

lemma recv_invD:
  assumes "recv_inv rest S (aend, so, w)"
  shows "room_inv so" "aend = so_alen so + 2" "got so @ rest w = S" "so_apos so \<le> so_alen so + 2" "2 + msg_len S \<le> length S"
    "\<exists>A. so_answer so = Some A" "so_apos so < aend \<Longrightarrow> receiving rest S so w" "2 \<le> so_apos so \<Longrightarrow> so_alen so = msg_len S"
  using assms by (auto simp: recv_inv_def receiving_def)

lemma got_length: "room_inv so \<Longrightarrow> so_answer so = Some A \<Longrightarrow> so_apos so \<le> so_alen so + 2 \<Longrightarrow> length (got so) = so_apos so"
  by (auto simp: got_def room_inv_def psize_def)

lemma fin_message:
  assumes I: "recv_inv rest S (aend, so, w)" and "aend \<le> so_apos so" "so_answer so = Some A"
  shows "message_read rest S (so\<lparr>so_answer := Some (A\<lparr>pend := so_alen so\<rparr>), so_stat := t\<rparr>) w"
proof -
  note D = recv_invD [OF I]
  have p: "so_apos so = so_alen so + 2" "so_alen so = msg_len S" using D(2,4,8) assms(2) by auto
  have l: "length (got so) = msg_len S + 2" using got_length [OF D(1) assms(3)] p by simp
  have g: "drop 2 (got so) = take (msg_len S) (data A)"
    using D(1) assms(3) p by (simp add: got_def room_inv_def)
  have "drop 2 S = drop 2 (got so) @ rest w" using D(3) l by (simp flip: D(3))
  then have "take (msg_len S) (drop 2 S) = take (msg_len S) (data A)"
    using g D(1) assms(3) p(2) by (simp add: room_inv_def psize_def)
  moreover have "rest w = drop (msg_len S + 2) S" using l by (simp flip: D(3))
  ultimately show ?thesis using p by (simp add: message_read_def)
qed

text \<open>The loop gets closer to its end with every byte.\<close>

definition recv_left :: "nat \<times> dns_socket \<times> 'w \<Rightarrow> nat" where
  "recv_left = (\<lambda>(aend, so, w). (if so_alen so = 0 then 70000 else so_alen so + 2) - so_apos so)"

lemma recv_step:
  assumes N: "streams N rest" and I: "recv_inv rest S (aend, so, w)"
  shows "(\<exists>s'. tcp_recv_body N (aend, so, w) = Some (Inl s') \<and> recv_inv rest S s' \<and> recv_left s' < recv_left (aend, so, w)) \<or>
    (\<exists>err so' w'. tcp_recv_body N (aend, so, w) = Some (Inr (err, so', w')) \<and>
      (if err = None then message_read rest S so' w' else receiving rest S so' w'))"
proof -
  note D = recv_invD [OF I]
  obtain A where A: "so_answer so = Some A" using D(6) by blast
  show ?thesis
  proof (cases "so_apos so < aend")
    case False
    then show ?thesis using fin_message [OF I _ A] A by (simp add: tcp_recv_body_def)
  next
    case True
    have R: "receiving rest S so w" by (rule D(7) [OF True])
    obtain x w1 where x: "n_recv N (so_tcp so) (aend - so_apos so) w = (x, w1)" by (cases "n_recv N (so_tcp so) (aend - so_apos so) w")
    show ?thesis
    proof (cases "\<exists>bs. x = Inr bs \<and> bs \<noteq> []")
      case False
      then obtain e where "tcp_recv_body N (aend, so, w) = Some (Inr (Some e, so, w1))" "rest w1 = rest w"
        using True x N by (cases x) (auto simp: tcp_recv_body_def streams_def)
      then show ?thesis using R by (auto simp: receiving_def)
    next
      case nonempty: True
      then obtain bs where bs: "x = Inr bs" "bs \<noteq> []" "length bs \<le> aend - so_apos so" "rest w = bs @ rest w1"
        using N x unfolding streams_def by blast
      have "so_alen so \<le> psize A" using D(1) A by (simp add: room_inv_def)
      then have "so_apos so + length bs \<le> 2 + psize A" using bs(3) True D(2) by simp
      then obtain so1 B where so1: "tcp_store so bs = Some so1" "so_answer so1 = Some B" "got so1 = got so @ bs"
        "so_apos so1 = so_apos so + length bs" "so_alen so1 = so_alen so" "room_inv so1"
        using store_got [OF D(1) A] by blast
      have g: "got so1 @ rest w1 = S" using so1(3) bs(4) D(3) by simp
      have a1: "so_apos so < so_apos so1" "so_apos so1 \<le> so_alen so + 2" using so1(4) bs(2,3) True D(2) by simp_all
      show ?thesis
      proof (cases "so_alen so1 = 0 \<and> 2 \<le> so_apos so1")
        case False
        have b: "tcp_recv_body N (aend, so, w) = Some (Inl (aend, so1, w1))"
          using True x bs(1,2) so1(1) False by (cases bs) (auto simp: tcp_recv_body_def)
        have "receiving rest S so1 w1" using R False so1 g a1 by (auto simp: receiving_def)
        moreover have "recv_left (aend, so1, w1) < recv_left (aend, so, w)"
          using so1(5) a1 by (auto simp: recv_left_def)
        ultimately show ?thesis using b D(2) so1(5) by (auto simp: recv_inv_def)
      next
        case len: True
        then have p2: "so_apos so1 = 2" using a1(2) so1(5) by simp
        let ?n = "be16 (so_pre so1 ! 0) (so_pre so1 ! 1)"
        have n: "?n \<le> 65535" using be16_less [of "so_pre so1 ! 0" "so_pre so1 ! 1"] by simp
        have "got so1 = so_pre so1" using p2 so1(6) by (simp add: got_def room_inv_def)
        then have S: "S = so_pre so1 @ rest w1" "length (so_pre so1) = 2" using g so1(6) by (simp_all add: room_inv_def)
        then have m: "msg_len S = ?n" by (simp add: msg_len_def nth_append)
        obtain so2 C w2 where so2: "dns_so_newanswer N so1 ?n w1 = Some (None, so2, w2)" "so_answer so2 = Some C" "rest w2 = rest w1"
          "room_inv (so2\<lparr>so_alen := ?n\<rparr>)" "got so2 = so_pre so1" "so_apos so2 = 2"
          using newanswer_ok [OF N so1(6) _ n p2] len by blast
        have b: "tcp_recv_body N (aend, so, w) = Some (Inl (?n + 2, so2\<lparr>so_alen := ?n\<rparr>, w2))"
          using True x bs(1,2) so1(1) len so2(1) by (cases bs) (auto simp: tcp_recv_body_def Let_def)
        have "got (so2\<lparr>so_alen := ?n\<rparr>) @ rest w2 = S" using so2(3,5) S by (simp add: got_def)
        then have "recv_inv rest S (?n + 2, so2\<lparr>so_alen := ?n\<rparr>, w2)"
          using so2(2,4,6) m D(5) by (auto simp: recv_inv_def receiving_def)
        moreover have "recv_left (?n + 2, so2\<lparr>so_alen := ?n\<rparr>, w2) < recv_left (aend, so, w)"
          using so2(6) len so1(5) a1(1) p2 n by (auto simp: recv_left_def)
        ultimately show ?thesis using b by blast
      qed
    qed
  qed
qed


text \<open>A connection that delivers a stream byte by byte.\<close>

definition byte_net :: "bytes net" where
  "byte_net = \<lparr>n_socket = (\<lambda>_ _ w. (Inr 3, w)), n_fcntl = (\<lambda>_ _ w. (None, w)), n_bind = (\<lambda>_ _ w. (None, w)),
     n_connect = (\<lambda>_ _ w. (None, w)), n_send = (\<lambda>_ bs w. (Inr (length bs), w)),
     n_recv = (\<lambda>_ n w. (Inr (take (min n 1) w), drop (min n 1) w)),
     n_close = (\<lambda>_ w. w), n_random = (\<lambda>w. (7, w)), n_realloc = (\<lambda>n w. (Inr (replicate n 0), w)),
     n_time = (\<lambda>w. (0, w)), n_closefd = None\<rparr>"


section \<open>Sending over TCP\<close>

text \<open>\<open>sinks N out\<close>: a connection that takes a part, at least one byte, of what is sent and appends it to
  \<open>out\<close>, or fails without taking anything.\<close>

definition sinks :: "'w net \<Rightarrow> ('w \<Rightarrow> bytes) \<Rightarrow> bool" where
  "sinks N out \<longleftrightarrow>
     (\<forall>fd bs w e w'. n_send N fd bs w = (Inl e, w') \<longrightarrow> out w' = out w) \<and>
     (\<forall>fd bs w n w'. n_send N fd bs w = (Inr n, w') \<longrightarrow> bs \<noteq> [] \<longrightarrow> 0 < n \<and> n \<le> length bs \<and> out w' = out w @ take n bs)"

lemma framed_part:
  assumes "pend Q \<le> length (data Q)" "k \<le> pend Q + 2"
  shows "rdn (framed Q) k (pend Q + 2 - k) = Some (drop k (take (pend Q + 2) (framed Q)))"
  using assms by (subst rdn_in) (simp_all add: framed_def take_drop)

text \<open>C30: A query is sent over TCP with its length in front: a call of \<open>dns_so_tcp_send\<close> that starts
  at the beginning returns, and what the connection has taken is the start of the length and the
  query, all of it when the call succeeds and as much as \<open>so->qout\<close> says otherwise.\<close>
theorem dns_so_tcp_send_framed:
  assumes "sinks N out" "so_query so = Some Q" "in_packet Q" "so_qout so = 0"
  shows "\<exists>err so' w'. dns_so_tcp_send N so w = Some (err, so', w') \<and> so_qout so' \<le> pend Q + 2 \<and>
    out w' = out w @ take (so_qout so') (take (pend Q + 2) (framed Q)) \<and> (err = None \<longrightarrow> so_qout so' = pend Q + 2)"
proof -
  define F where "F = take (pend Q + 2) (framed Q)"
  let ?I = "\<lambda>(s :: dns_socket, v). so_qout s \<le> pend Q + 2 \<and> out v = out w @ take (so_qout s) F"
  let ?R = "\<lambda>(err, s :: dns_socket, v). so_qout s \<le> pend Q + 2 \<and> out v = out w @ take (so_qout s) F \<and> (err = None \<longrightarrow> so_qout s = pend Q + 2)"
  have l: "length F = pend Q + 2" using assms(3) by (simp add: F_def framed_def in_packet_def)
  have "\<exists>r. loop (tcp_send_body N Q 0) (so, w) = Some r \<and> ?R r"
  proof (rule loop_total [where I = ?I and m = "\<lambda>(s :: dns_socket, v). pend Q + 2 - so_qout s"])
    fix s assume I: "?I s"
    obtain s1 v where s: "s = (s1, v)" by (cases s)
    show "(\<exists>s'. tcp_send_body N Q 0 s = Some (Inl s') \<and> ?I s' \<and> (case s' of (s, v) \<Rightarrow> pend Q + 2 - so_qout s) < (case s of (s, v) \<Rightarrow> pend Q + 2 - so_qout s)) \<or>
      (\<exists>r. tcp_send_body N Q 0 s = Some (Inr r) \<and> ?R r)"
    proof (cases "so_qout s1 < pend Q + 2")
      case False
      then show ?thesis using I s by (simp add: tcp_send_body_def)
    next
      case True
      let ?bs = "drop (so_qout s1) F"
      have b: "rdn (framed Q) (so_qout s1) (pend Q + 2 - so_qout s1) = Some ?bs"
        using framed_part [of Q "so_qout s1"] assms(3) True unfolding F_def by (simp add: in_packet_def)
      obtain x v1 where x: "n_send N (so_tcp s1) ?bs v = (x, v1)" by (cases "n_send N (so_tcp s1) ?bs v")
      show ?thesis
      proof (cases x)
        case (Inl e)
        then have "out v1 = out v" using assms(1) x unfolding sinks_def by blast
        then show ?thesis using True b x Inl I s by (simp add: tcp_send_body_def)
      next
        case (Inr n)
        have "?bs \<noteq> []" using l True by simp
        then have n: "0 < n" "n \<le> length ?bs" "out v1 = out v @ take n ?bs" using assms(1) x Inr unfolding sinks_def by blast+
        then have "out v1 = out w @ take (so_qout s1 + n) F" "so_qout s1 + n \<le> pend Q + 2"
          using I s l True by (simp_all add: take_add)
        then show ?thesis using True b x Inr s n(1) by (simp add: tcp_send_body_def)
      qed
    qed
  qed (use assms(4) in simp)
  then show ?thesis unfolding F_def using assms(2,4) by (auto simp: dns_so_tcp_send_def)
qed

theorem dns_so_tcp_send_framed_witness:
  "\<exists>so' w'. dns_so_tcp_send (byte_net\<lparr>n_send := (\<lambda>_ bs w. (Inr (length bs), w @ bs))\<rparr>) (idle_socket\<lparr>so_query := Some ask_packet\<rparr>) [] =
      Some (None, so', w') \<and> w' = [0, 19] @ ask"
proof -
  let ?N = "byte_net\<lparr>n_send := (\<lambda>_ bs w. (Inr (length bs), w @ bs))\<rparr>" and ?so = "idle_socket\<lparr>so_query := Some ask_packet\<rparr>"
  have N: "sinks ?N id" by (auto simp: sinks_def)
  have Q: "in_packet ask_packet" by (simp add: in_packet_def ask_packet_def ask_def)
  have f: "take 21 (framed ask_packet) = [0, 19] @ ask" by (simp add: framed_def ask_packet_def ask_def byte_def)
  obtain err so' w' where r: "dns_so_tcp_send ?N ?so [] = Some (err, so', w')"
      "w' = take (so_qout so') (take 21 (framed ask_packet))" "err = None \<longrightarrow> so_qout so' = 21"
    using dns_so_tcp_send_framed [OF N, of ?so ask_packet "[]"] Q by (auto simp: idle_socket_def ask_packet_def)
  have l: "loop (tcp_send_body ?N ask_packet 0) (?so, []) = Some (err, so', w')"
    using r(1) by (simp add: dns_so_tcp_send_def idle_socket_def)
  have "(\<lambda>(err, s, v). err = None) (err, so', w')"
    by (rule loop_invariant [OF l, where I = "\<lambda>_. True"]) (auto simp: tcp_send_body_def split: if_splits bind_splits)
  moreover have "length ask = 19" by (simp add: ask_def)
  ultimately show ?thesis using r f by simp
qed

text \<open>A connection that takes one byte, then is not ready once, then takes everything.\<close>

definition slow_net :: "(bytes \<times> nat) net" where
  "slow_net = \<lparr>n_socket = (\<lambda>_ _ w. (Inr 3, w)), n_fcntl = (\<lambda>_ _ w. (None, w)), n_bind = (\<lambda>_ _ w. (None, w)),
     n_connect = (\<lambda>_ _ w. (None, w)),
     n_send = (\<lambda>_ bs (out, k). if k = 1 then (Inl 11, (out, 2))
               else let n = (if k = 0 then 1 else length bs) in (Inr n, (out @ take n bs, k + 1))),
     n_recv = (\<lambda>_ n w. (Inr [], w)), n_close = (\<lambda>_ w. w), n_random = (\<lambda>w. (7, w)),
     n_realloc = (\<lambda>n w. (Inr (replicate n 0), w)), n_time = (\<lambda>w. (0, w)), n_closefd = None\<rparr>"

text \<open>C37: A call of \<open>dns_so_tcp_send\<close> that goes on after an interruption sends the wrong bytes and
  reports success: it skips as many bytes as have been sent already twice. Here the connection
  receives the first byte of the length and then the query from its start, with a byte from behind
  its end, instead of the second byte of the length and the query.\<close>
theorem dns_so_tcp_send_resumes_wrong:
  "let Q = \<lparr>dict = replicate 16 0, qd = no_memo, an = no_memo, ns = no_memo, ar = no_memo, pend = 12,
            data = [1, 2, 3, 4, 5, 6, 7, 8, 9, 10, 11, 12, 99]\<rparr>
   in \<exists>so1 w1 so2 w2. dns_so_tcp_send slow_net (idle_socket\<lparr>so_query := Some Q\<rparr>) ([], 0) = Some (Some EAGAIN, so1, w1) \<and>
        dns_so_tcp_send slow_net so1 w1 = Some (None, so2, w2) \<and>
        take 14 (framed Q) = [0, 12, 1, 2, 3, 4, 5, 6, 7, 8, 9, 10, 11, 12] \<and>
        fst w2 = [0, 1, 2, 3, 4, 5, 6, 7, 8, 9, 10, 11, 12, 99]"
proof -
  define Q where "Q = \<lparr>dict = replicate 16 0, qd = no_memo, an = no_memo, ns = no_memo, ar = no_memo, pend = 12,
            data = [1, 2, 3, 4, 5, 6, 7, 8, 9, 10, 11, 12, 99]\<rparr>"
  have F: "framed Q = [0, 12, 1, 2, 3, 4, 5, 6, 7, 8, 9, 10, 11, 12, 99]" "pend Q = 12" by (simp_all add: framed_def Q_def byte_def)
  define so where "so = idle_socket\<lparr>so_query := Some Q\<rparr>"
  have so: "so_qout so = 0" "so_query so = Some Q" by (simp_all add: so_def idle_socket_def)
  define so1 where "so1 = so\<lparr>so_qout := 1, so_stat := (so_stat so)\<lparr>tcp_sent := sent 1 (tcp_sent (so_stat so))\<rparr>\<rparr>"
  define so2 where "so2 = so1\<lparr>so_qout := 14, so_stat := (so_stat so1)\<lparr>tcp_sent := sent 13 (tcp_sent (so_stat so1))\<rparr>\<rparr>"
  let ?out = "[0, 1, 2, 3, 4, 5, 6, 7, 8, 9, 10, 11, 12, 99] :: bytes"
  have "tcp_send_body slow_net Q 0 (so, [], 0) = Some (Inl (so1, [0], 1))"
    "tcp_send_body slow_net Q 0 (so1, [0], 1) = Some (Inr (Some EAGAIN, so1, [0], 2))"
    "tcp_send_body slow_net Q 1 (so1, [0], 2) = Some (Inl (so2, ?out, 3))"
    "tcp_send_body slow_net Q 1 (so2, ?out, 3) = Some (Inr (None, so2\<lparr>so_stat := (so_stat so2)\<lparr>tcp_sent := counted (tcp_sent (so_stat so2))\<rparr>\<rparr>, ?out, 3))"
    by (simp_all add: tcp_send_body_def slow_net_def F so so1_def so2_def rdn_def)
      (simp add: eval_nat_numeral)
  then have "dns_so_tcp_send slow_net so ([], 0) = Some (Some EAGAIN, so1, [0], 2)"
    "dns_so_tcp_send slow_net so1 ([0], 2) = Some (None, so2\<lparr>so_stat := (so_stat so2)\<lparr>tcp_sent := counted (tcp_sent (so_stat so2))\<rparr>\<rparr>, ?out, 3)"
    using so by (simp_all add: dns_so_tcp_send_def so1_def loop_next loop_done)
  then show ?thesis
    unfolding Let_def Q_def [symmetric] so_def [symmetric] using F
    by (intro exI [of _ so1] exI [of _ "([0], 2)"] exI [of _ "so2\<lparr>so_stat := (so_stat so2)\<lparr>tcp_sent := counted (tcp_sent (so_stat so2))\<rparr>\<rparr>"]
        exI [of _ "(?out, 3)"]) simp
qed

section \<open>The clock\<close>

lemma dns_now_monotone: "clk_tick c \<le> fst (dns_now now c)" "clk_tick (snd (dns_now now c)) = fst (dns_now now c)"
  by (simp_all add: dns_now_def Let_def)

end
