(* ===== verification/Double.thy ===== *)
theory Double
  imports Complex_Main "HOL-Library.Log_Nat"
begin

text \<open>
  The \<open>double\<close> of C, as far as the sources use it: comparison with zero, \<open>modf\<close>, addition,
  multiplication and division with rounding to the nearest value (ties to even), and the conversions
  to and from \<open>long int\<close>.

  A finite double is \<open>m * 2 ^ e\<close> with \<open>m\<close> below \<open>2 ^ 53\<close> in size and \<open>e\<close> between -1074
  and 971 (\<open>double_ok\<close>). The two zeros are not told apart. An operation is the exact rational
  result rounded by \<open>rnd\<close>. A conversion to an integer type that cannot hold the value is undefined
  in C and \<open>None\<close> here.
\<close>

section \<open>Values\<close>

datatype double = NaN | Infinity bool | Finite int int

definition double_ok :: "double \<Rightarrow> bool" where
  "double_ok x = (case x of Finite m e \<Rightarrow> \<bar>m\<bar> < 2 ^ 53 \<and> - 1074 \<le> e \<and> e \<le> 971 | _ \<Rightarrow> True)"

fun negative :: "double \<Rightarrow> bool" where
  "negative NaN = False"
| "negative (Infinity s) = s"
| "negative (Finite m e) = (m < 0)"

section \<open>Rounding\<close>

definition scaled_num :: "int \<Rightarrow> int \<Rightarrow> int" where
  "scaled_num n e = n * 2 ^ nat (- e)"

definition scaled_den :: "int \<Rightarrow> int \<Rightarrow> int" where
  "scaled_den d e = d * 2 ^ nat e"

text \<open>The integer nearest to \<open>n / d\<close>, the even one of two.\<close>

definition nearest :: "int \<Rightarrow> int \<Rightarrow> int" where
  "nearest n d =
     (let q = n div d; r = n mod d
      in if 2 * r < d \<or> 2 * r = d \<and> even q then q else q + 1)"

text \<open>The integral part of the binary logarithm of \<open>n / d\<close>.\<close>

definition ilog :: "int \<Rightarrow> int \<Rightarrow> int" where
  "ilog n d =
     (let k = bitlen n - bitlen d
      in if scaled_den d k \<le> scaled_num n k then k else k - 1)"

definition expo :: "int \<Rightarrow> int \<Rightarrow> int" where
  "expo n d = (if n = 0 then - 1074 else max (- 1074) (ilog \<bar>n\<bar> d - 52))"

definition rnd :: "int \<Rightarrow> int \<Rightarrow> double" where
  "rnd n d =
     (let e = expo n d;
          m = nearest (scaled_num n e) (scaled_den d e);
          (m, e) = (if \<bar>m\<bar> = 2 ^ 53 then (m div 2, e + 1) else (m, e))
      in if 971 < e then Infinity (n < 0) else Finite m e)"

section \<open>Operations\<close>

fun fmul :: "double \<Rightarrow> double \<Rightarrow> double" where
  "fmul (Finite m e) (Finite n f) = rnd (scaled_den (m * n) (e + f)) (scaled_num 1 (e + f))"
| "fmul (Infinity s) (Finite n f) = (if n = 0 then NaN else Infinity (s \<noteq> (n < 0)))"
| "fmul (Finite m e) (Infinity s) = (if m = 0 then NaN else Infinity (s \<noteq> (m < 0)))"
| "fmul (Infinity s) (Infinity t) = Infinity (s \<noteq> t)"
| "fmul NaN y = NaN"
| "fmul x NaN = NaN"

fun fadd :: "double \<Rightarrow> double \<Rightarrow> double" where
  "fadd (Finite m e) (Finite n f) =
     (let g = min e f in
      rnd (scaled_den (m * 2 ^ nat (e - g) + n * 2 ^ nat (f - g)) g) (scaled_num 1 g))"
| "fadd (Infinity s) (Finite n f) = Infinity s"
| "fadd (Finite m e) (Infinity s) = Infinity s"
| "fadd (Infinity s) (Infinity t) = (if s = t then Infinity s else NaN)"
| "fadd NaN y = NaN"
| "fadd x NaN = NaN"

text \<open>Division by a positive integer, the only division of the sources.\<close>

fun fdiv_int :: "double \<Rightarrow> int \<Rightarrow> double" where
  "fdiv_int (Finite m e) k = rnd (scaled_den m e) (scaled_num k e)"
| "fdiv_int x k = x"

definition of_long :: "int \<Rightarrow> double" where
  "of_long i = rnd i 1"

definition trunc :: "int \<Rightarrow> int \<Rightarrow> int" where
  "trunc m e = sgn m * (\<bar>m\<bar> * 2 ^ nat e div 2 ^ nat (- e))"

fun to_long :: "double \<Rightarrow> int option" where
  "to_long (Finite m e) =
     (let i = trunc m e in if - (2 ^ 63) \<le> i \<and> i < 2 ^ 63 then Some i else None)"
| "to_long x = None"

text \<open>\<open>modf\<close>: the fractional part and the integral part.\<close>

fun modf :: "double \<Rightarrow> double \<times> double" where
  "modf (Finite m e) =
     (if 0 \<le> e then (Finite 0 0, Finite m e)
      else (Finite (m - trunc m e * 2 ^ nat (- e)) e, Finite (trunc m e) 0))"
| "modf (Infinity s) = (Finite 0 0, Infinity s)"
| "modf NaN = (NaN, NaN)"

section \<open>Rounding is accurate\<close>

text \<open>The number a finite double stands for.\<close>

fun dval :: "double \<Rightarrow> real" where
  "dval (Finite m e) = of_int m * 2 powi e"
| "dval x = 0"

lemma scaled_pos [simp]: "0 < scaled_den d e \<longleftrightarrow> 0 < d" "0 < scaled_num d e \<longleftrightarrow> 0 < d"
  by (simp_all add: scaled_den_def scaled_num_def zero_less_mult_iff)

lemma scaled_quotient:
  "of_int (scaled_num n e) / of_int (scaled_den d e) = (of_int n / of_int d) / (2 powi e :: real)"
  by (simp add: scaled_num_def scaled_den_def power_int_def power_inverse field_simps)

lemma nearest_close:
  assumes "0 < d"
  shows "\<bar>of_int (nearest n d) - of_int n / of_int d\<bar> \<le> (1 / 2 :: real)"
proof -
  define q r where "q = n div d" and "r = n mod d"
  have r: "0 \<le> r" "r < d" and n: "n = q * d + r" using assms by (simp_all add: q_def r_def)
  have d: "0 < (of_int d :: real)" using assms by simp
  define t :: real where "t = of_int r / of_int d"
  have x: "of_int n / of_int d = of_int q + t"
    using d by (simp add: n t_def add_divide_distrib)
  have "real_of_int r < of_int d" "0 \<le> real_of_int r" using r by simp_all
  then have "0 \<le> t" "t < 1" using d by (simp_all add: t_def)
  moreover have "t \<le> 1 / 2" if "2 * r \<le> d"
  proof -
    have "2 * real_of_int r \<le> of_int d" using that by linarith
    then show ?thesis using d by (simp add: t_def pos_divide_le_eq)
  qed
  moreover have "1 / 2 \<le> t" if "d \<le> 2 * r"
  proof -
    have "of_int d \<le> 2 * real_of_int r" using that by linarith
    then show ?thesis using d by (simp add: t_def pos_le_divide_eq)
  qed
  ultimately show ?thesis
    unfolding x nearest_def Let_def q_def [symmetric] r_def [symmetric] by auto
qed

lemma powi2_diff: "(2 powi a :: real) / 2 powi b = 2 powi (a - b)"
  using power_int_diff [of "2 :: real" a b] by simp

lemma powi2_pos: "0 < (2 powi a :: real)"
  by simp

lemma abs_scaled: "0 < (p :: real) \<Longrightarrow> \<bar>a - x / p\<bar> * p = \<bar>a * p - x\<bar>"
  using abs_mult_pos [of p "a - x / p"] by (simp add: left_diff_distrib)

lemma bitlen_real:
  assumes "0 < x"
  shows "2 powi (bitlen x - 1) \<le> real_of_int x" and "real_of_int x < 2 powi bitlen x"
proof -
  have l: "1 \<le> bitlen x" using assms bitlen_eq_zero_iff [of x] bitlen_nonneg [of x] by linarith
  have "(2::int) ^ nat (bitlen x - 1) \<le> x" "x < 2 ^ nat (bitlen x)" using bitlen_bounds [OF assms] by simp_all
  then have "real_of_int (2 ^ nat (bitlen x - 1)) \<le> of_int x" "real_of_int x < of_int (2 ^ nat (bitlen x))"
    by (simp_all only: of_int_le_iff of_int_less_iff)
  then show "2 powi (bitlen x - 1) \<le> real_of_int x" "real_of_int x < 2 powi bitlen x"
    using l by (simp_all add: power_int_nonneg_exp)
qed

lemma ilog_bounds:
  assumes "0 < n" "0 < d"
  shows "2 powi ilog n d \<le> real_of_int n / of_int d" and "real_of_int n / of_int d < 2 powi (ilog n d + 1)"
proof -
  define k where "k = bitlen n - bitlen d"
  define x where "x = real_of_int n / of_int d"
  have "1 \<le> real_of_int (scaled_num n k) / of_int (scaled_den d k) \<longleftrightarrow> scaled_den d k \<le> scaled_num n k"
    using assms(2) by (simp add: pos_le_divide_eq)
  then have q: "scaled_den d k \<le> scaled_num n k \<longleftrightarrow> 2 powi k \<le> x"
    unfolding scaled_quotient x_def [symmetric] by (simp add: pos_le_divide_eq)
  note b = bitlen_real [OF assms(1)] bitlen_real [OF assms(2)]
  have "2 powi (bitlen n - 1) / 2 powi bitlen d \<le> x"
    unfolding x_def using b assms by (intro frac_le) simp_all
  then have lo: "2 powi (k - 1) \<le> x" by (simp add: powi2_diff k_def diff_diff_add add.commute)
  have "x < 2 powi bitlen n / 2 powi (bitlen d - 1)"
    unfolding x_def using b assms by (intro frac_less) simp_all
  moreover have "bitlen n - (bitlen d - 1) = k + 1" by (simp add: k_def)
  ultimately have hi: "x < 2 powi (k + 1)" by (simp add: powi2_diff)
  have i: "ilog n d = (if 2 powi k \<le> x then k else k - 1)"
    by (simp add: ilog_def k_def [symmetric] q)
  show "2 powi ilog n d \<le> real_of_int n / of_int d" "real_of_int n / of_int d < 2 powi (ilog n d + 1)"
    unfolding x_def [symmetric] i using lo hi by auto
qed

lemma expo_le:
  assumes "0 < d" "\<bar>real_of_int n / of_int d\<bar> < 2 powi j" "- 1021 \<le> j"
  shows "expo n d \<le> j - 53"
proof (cases "n = 0")
  case False
  have "2 powi ilog \<bar>n\<bar> d \<le> \<bar>real_of_int n / of_int d\<bar>"
    using ilog_bounds(1) [of "\<bar>n\<bar>" d] False assms(1) by simp
  also note assms(2)
  finally have "ilog \<bar>n\<bar> d < j"
    using power_int_increasing [of j "ilog \<bar>n\<bar> d" "2 :: real"] by linarith
  then show ?thesis using False assms(3) by (simp add: expo_def)
qed (use assms in \<open>simp add: expo_def\<close>)

lemma scaled_product: "real_of_int (scaled_den a e) / of_int (scaled_num 1 e) = of_int a * 2 powi e"
  by (simp add: scaled_den_def scaled_num_def power_int_def power_inverse field_simps)

lemma nearest_nonneg: "0 \<le> n \<Longrightarrow> 0 < d \<Longrightarrow> 0 \<le> nearest n d"
  by (simp add: nearest_def Let_def pos_imp_zdiv_nonneg_iff add_nonneg_nonneg)

text \<open>Below \<open>2 ^ j\<close> the rounding error is at most half of the distance between neighbours.\<close>

lemma rnd_close:
  assumes "0 < d" "0 \<le> n" "real_of_int n / of_int d < 2 powi j" "- 1021 \<le> j" "j \<le> 1023"
  shows "\<exists>m e. rnd n d = Finite m e \<and> 0 \<le> m \<and> \<bar>of_int m * 2 powi e - real_of_int n / of_int d\<bar> \<le> 2 powi (j - 54)"
proof -
  define e m where "e = expo n d" and "m = nearest (scaled_num n e) (scaled_den d e)"
  let ?x = "real_of_int n / of_int d"
  have e: "e \<le> j - 53" unfolding e_def using assms by (intro expo_le) simp_all
  have m0: "0 \<le> m" unfolding m_def using assms(1,2) by (intro nearest_nonneg) (simp_all add: scaled_num_def)
  have "\<bar>of_int m - ?x / 2 powi e\<bar> \<le> 1 / 2"
    unfolding m_def using nearest_close [of "scaled_den d e" "scaled_num n e"] assms(1)
    by (simp add: scaled_quotient)
  then have "\<bar>of_int m - ?x / 2 powi e\<bar> * 2 powi e \<le> 1 / 2 * 2 powi e"
    by (intro mult_right_mono) simp_all
  moreover have "\<bar>of_int m - ?x / 2 powi e\<bar> * 2 powi e = \<bar>of_int m * 2 powi e - ?x\<bar>"
    by (rule abs_scaled) simp
  moreover have "1 / 2 * (2 powi e :: real) = 2 powi (e - 1)"
    by (simp add: power_int_diff)
  moreover have "(2 powi (e - 1) :: real) \<le> 2 powi (j - 54)"
    using e by (intro power_int_increasing) simp_all
  ultimately have close: "\<bar>of_int m * 2 powi e - ?x\<bar> \<le> 2 powi (j - 54)" by linarith
  show ?thesis
  proof (cases "\<bar>m\<bar> = 2 ^ 53")
    case True
    then have m: "m = 2 ^ 53" using m0 by simp
    have "rnd n d = Finite (m div 2) (e + 1)"
      unfolding rnd_def Let_def e_def [symmetric] m_def [symmetric] using True e assms(5) by simp
    moreover have "real_of_int (m div 2) * 2 powi (e + 1) = of_int m * 2 powi e"
      unfolding m by (simp add: power_int_add)
    moreover have "0 \<le> m div 2" using m0 by simp
    ultimately show ?thesis using close by metis
  next
    case False
    then have "rnd n d = Finite m e"
      unfolding rnd_def Let_def e_def [symmetric] m_def [symmetric] using e assms(5) by simp
    then show ?thesis using close m0 by blast
  qed
qed

text \<open>Rounding gives a double.\<close>

lemma expo_bound:
  assumes "0 < d"
  shows "- 1074 \<le> expo n d" and "\<bar>real_of_int n / of_int d\<bar> < 2 ^ 53 * 2 powi expo n d"
proof -
  show e: "- 1074 \<le> expo n d" by (simp add: expo_def)
  have "(2 powi (expo n d + 53) :: real) = 2 powi expo n d * 2 powi 53"
    by (rule power_int_add) simp
  then have p: "(2 powi (expo n d + 53) :: real) = 2 ^ 53 * 2 powi expo n d" by simp
  show "\<bar>real_of_int n / of_int d\<bar> < 2 ^ 53 * 2 powi expo n d"
  proof (cases "n = 0")
    case False
    have "\<bar>real_of_int n / of_int d\<bar> < 2 powi (ilog \<bar>n\<bar> d + 1)"
      using ilog_bounds(2) [of "\<bar>n\<bar>" d] False assms by simp
    also have "\<dots> \<le> 2 powi (expo n d + 53)"
      using False by (intro power_int_increasing) (simp_all add: expo_def)
    finally show ?thesis unfolding p .
  qed simp
qed

lemma rnd_ok:
  assumes "0 < d"
  shows "double_ok (rnd n d)"
proof -
  define e m where "e = expo n d" and "m = nearest (scaled_num n e) (scaled_den d e)"
  define x where "x = real_of_int n / of_int d / 2 powi e"
  note e = expo_bound [OF assms, of n, folded e_def]
  have "\<bar>x\<bar> * 2 powi e < 2 ^ 53 * 2 powi e"
    using e(2) abs_scaled [OF powi2_pos, of 0 "real_of_int n / of_int d" e, folded x_def]
    by (simp only: diff_0 mult_zero_left abs_minus_cancel)
  then have "\<bar>x\<bar> < 2 ^ 53" by (rule mult_right_less_imp_less) simp
  moreover have "\<bar>of_int m - x\<bar> \<le> 1 / 2"
    unfolding m_def x_def using nearest_close [of "scaled_den d e" "scaled_num n e"] assms by (simp add: scaled_quotient)
  ultimately have "\<bar>real_of_int m\<bar> < 2 ^ 53 + 1" by linarith
  then have "real_of_int \<bar>m\<bar> < of_int (2 ^ 53 + 1)" by simp
  then have "\<bar>m\<bar> \<le> 2 ^ 53" unfolding of_int_less_iff by simp
  then show ?thesis
    unfolding rnd_def Let_def e_def [symmetric] m_def [symmetric] using e(1)
    by (cases "\<bar>m\<bar> = 2 ^ 53") (auto simp: double_ok_def)
qed

section \<open>Integral and fractional parts\<close>

lemma powi2_neg: "e < 0 \<Longrightarrow> a * (2 powi e :: real) = a / of_int (2 ^ nat (- e))"
  using power_int_minus_divide [of "2 :: real" "- e"] power_int_nonneg_exp [of "- e" "2 :: real"] by simp

lemma trunc_floor:
  assumes "0 \<le> m"
  shows "trunc m e = \<lfloor>of_int m * (2 powi e :: real)\<rfloor>"
proof (cases "0 \<le> e")
  case True
  then have "of_int m * (2 powi e :: real) = of_int (m * 2 ^ nat e)" by (simp add: power_int_nonneg_exp)
  then have "\<lfloor>of_int m * (2 powi e :: real)\<rfloor> = m * 2 ^ nat e" by (simp only: floor_of_int)
  moreover have "trunc m e = sgn m * \<bar>m\<bar> * 2 ^ nat e" using True by (simp add: trunc_def)
  ultimately show ?thesis using assms by (cases "m = 0") (simp_all add: sgn_if)
next
  case False
  then have "\<lfloor>of_int m * (2 powi e :: real)\<rfloor> = m div 2 ^ nat (- e)"
    by (simp only: powi2_neg not_le floor_divide_of_int_eq)
  moreover have "trunc m e = sgn m * (\<bar>m\<bar> div 2 ^ nat (- e))" using False by (simp add: trunc_def)
  ultimately show ?thesis using assms by (cases "m = 0") (simp_all add: sgn_if)
qed

lemma fraction_below:
  assumes "0 \<le> m" "m < 2 ^ 53" "e < 0" "f = m mod 2 ^ nat (- e)"
  shows "of_int f * (2 powi e :: real) \<le> 1 - 2 powi (- 53)"
proof (cases "- 53 \<le> e")
  case True
  have "f + 1 \<le> 2 ^ nat (- e)" 
    unfolding assms(4) using pos_mod_bound [of "2 ^ nat (- e)" m] by (intro zless_imp_add1_zle) simp
  then have "real_of_int (f + 1) \<le> of_int (2 ^ nat (- e))" by (simp only: of_int_le_iff)
  then have "of_int (f + 1) * (2 powi e :: real) \<le> 1"
    by (simp only: powi2_neg [OF assms(3)]) (simp add: pos_divide_le_eq)
  moreover have "(2 powi (- 53) :: real) \<le> 2 powi e" using True by (intro power_int_increasing) simp_all
  ultimately show ?thesis by (simp add: distrib_right)
next
  case False
  have "f \<le> m" using assms(1,4) by (simp add: zmod_le_nonneg_dividend)
  then have "f \<le> 2 ^ 53" using assms(2) by linarith
  then have "real_of_int f \<le> of_int (2 ^ 53)" by (simp only: of_int_le_iff)
  then have "real_of_int f * 2 powi e \<le> 2 powi 53 * 2 powi (- 54)"
    using False by (intro mult_mono power_int_increasing) simp_all
  also have "\<dots> = 2 powi (53 + - 54)" by (rule power_int_add [symmetric]) simp
  also have "\<dots> = 1 / 2" by simp
  also have "\<dots> \<le> 1 - 2 powi (- 53)" by (simp add: power_int_minus)
  finally show ?thesis .
qed

lemma modf_parts:
  assumes "double_ok (Finite m e)" "0 \<le> m"
  defines "x \<equiv> of_int m * (2 powi e :: real)"
  shows "\<exists>f g i h. modf (Finite m e) = (Finite f g, Finite i h) \<and> 0 \<le> f \<and> 0 \<le> i \<and>
    of_int f * 2 powi g = frac x \<and> real_of_int i * 2 powi h = of_int \<lfloor>x\<rfloor> \<and> frac x \<le> 1 - 2 powi (- 53)"
proof (cases "0 \<le> e")
  case True
  then have x: "x = of_int (m * 2 ^ nat e)" by (simp add: x_def power_int_nonneg_exp)
  have fr: "frac x = 0" "of_int \<lfloor>x\<rfloor> = x" unfolding x by simp_all
  show ?thesis
    unfolding fr
    by (rule exI [of _ 0], rule exI [of _ 0], rule exI [of _ m], rule exI [of _ e])
      (use True assms(2) in \<open>simp add: x_def power_int_minus\<close>)
next
  case False
  define f where "f = m mod 2 ^ nat (- e)"
  have t: "trunc m e = \<lfloor>x\<rfloor>" "\<lfloor>x\<rfloor> = m div 2 ^ nat (- e)"
    using trunc_floor [OF assms(2)] False
    by (simp_all only: x_def powi2_neg not_le floor_divide_of_int_eq)
  have f: "f = m - trunc m e * 2 ^ nat (- e)" unfolding t f_def by (rule minus_div_mult_eq_mod [symmetric])
  have "of_int (2 ^ nat (- e)) * (2 powi e :: real) = 1" using False by (simp only: powi2_neg not_le) simp
  then have "real_of_int (trunc m e) * (of_int (2 ^ nat (- e)) * 2 powi e) = of_int (trunc m e)" by (simp only: mult_1_right)
  moreover have "real_of_int f * 2 powi e = x - real_of_int (trunc m e) * (of_int (2 ^ nat (- e)) * 2 powi e)"
    unfolding f x_def by (simp only: of_int_diff of_int_mult left_diff_distrib mult.assoc)
  ultimately have fr: "real_of_int f * 2 powi e = frac x" by (simp only: frac_def t(1))
  moreover have "real_of_int f * 2 powi e \<le> 1 - 2 powi (- 53)"
    using fraction_below [OF assms(2) _ _ f_def] assms(1,2) False by (simp add: double_ok_def)
  moreover have "0 \<le> f" "0 \<le> trunc m e" using assms(2) by (simp_all add: f_def t pos_imp_zdiv_nonneg_iff)
  ultimately show ?thesis
    using False f t(1) by (intro exI [of _ f] exI [of _ e] exI [of _ "trunc m e"] exI [of _ 0]) simp
qed

text \<open>A fraction times a constant stays below the constant, although the product is rounded.\<close>

lemma scaled_fraction:
  assumes "0 \<le> f" "of_int f * (2 powi g :: real) \<le> 1 - 2 powi (- 53)"
    and "2 powi p < real_of_int K" "real_of_int K < 2 powi (p + 1)" "0 \<le> p" "p \<le> 900"
  shows "\<exists>m e. fmul (Finite f g) (Finite K 0) = Finite m e \<and> 0 \<le> m \<and>
    \<bar>of_int m * 2 powi e - of_int f * 2 powi g * of_int K\<bar> \<le> (2 powi (p - 53) :: real) \<and> of_int m * 2 powi e < real_of_int K"
proof -
  let ?x = "of_int f * (2 powi g :: real) * of_int K"
  have K: "0 < real_of_int K" using assms(3) powi2_pos [of p] by linarith
  then have K0: "0 < K" by simp
  have "?x \<le> (1 - 2 powi (- 53)) * of_int K" using assms(2) K by (intro mult_right_mono) simp_all
  then have x: "?x \<le> of_int K - 2 powi (- 53) * of_int K" by (simp add: left_diff_distrib)
  have "(2 powi (p - 53) :: real) = 2 powi (- 53) * 2 powi p"
    by (subst power_int_add [symmetric]) simp_all
  then have gap: "2 powi (p - 53) < 2 powi (- 53) * real_of_int K"
    using assms(3) by simp
  have q: "real_of_int (scaled_den (f * K) g) / of_int (scaled_num 1 g) = ?x"
    unfolding scaled_product by simp
  have "0 < 2 powi (- 53) * real_of_int K" using K by simp
  then have "?x < 2 powi (p + 1)" using x assms(4) by linarith
  then obtain m e where "rnd (scaled_den (f * K) g) (scaled_num 1 g) = Finite m e" "0 \<le> m"
    "\<bar>of_int m * 2 powi e - ?x\<bar> \<le> 2 powi (p + 1 - 54)"
    using rnd_close [of "scaled_num 1 g" "scaled_den (f * K) g" "p + 1"] assms(1,5,6) K0
    unfolding q by (auto simp: scaled_den_def)
  then show ?thesis using x gap by (intro exI [of _ m] exI [of _ e]) simp
qed

end
