(* ===== verification/Misc.thy ===== *)
theory Misc
  imports Prelude Double
begin

text \<open>
  The helpers of \<open>misc.c\<close> and the values of Lua the C sources handle.

  A Lua value is an \<open>lval\<close>. Threads and events are numbered; light userdata is the number
  of its pointer, as \<open>ratchet.h\<close> casts small numbers to pointers. A table the program
  passes as a sequence is the list of its items. The three internal tables the scheduler leaves
  on the stack of a waiting thread have constructors of their own. A number of Lua is a
  \<open>double\<close>. The conversions between strings and numbers are done by the Lua runtime and are the
  arguments \<open>tonum\<close> and \<open>tostr\<close>. The conversion of a number to an integer is that of C, undefined
  (\<open>None\<close>) where the integer type cannot hold the number. A function that returns its result through
  a pointer and tells by its return value whether it did has an \<open>option\<close> as result, inside of the
  \<open>option\<close> of what is undefined.
\<close>

section \<open>Lua values\<close>

type_synonym tid = nat

datatype lval =
    LNil
  | LBool bool
  | LNum double
  | LStr string
  | LThread tid
  | LMain
  | LRatchet
  | LLight nat
  | LObj nat
  | LTable "lval list"
  | LCleanup "nat option" "nat list option"
  | LFds "(int \<times> lval) list"
  | LEvents "nat list"
  | LError "string option" string string "int list"

definition arg :: "lval list \<Rightarrow> nat \<Rightarrow> lval" where
  "arg vs i = (if i < length vs then vs ! i else LNil)"

fun lua_tonumber :: "(string \<Rightarrow> double option) \<Rightarrow> lval \<Rightarrow> double option" where
  "lua_tonumber tonum (LNum x) = Some x"
| "lua_tonumber tonum (LStr s) = tonum s"
| "lua_tonumber tonum _ = None"

definition lua_tointeger :: "(string \<Rightarrow> double option) \<Rightarrow> lval \<Rightarrow> int option" where
  "lua_tointeger tonum v = (case lua_tonumber tonum v of None \<Rightarrow> Some 0 | Some x \<Rightarrow> to_long x)"

text \<open>The conversion of a \<open>lua_Integer\<close> (64 bits) to an \<open>int\<close> keeps the low 32 bits.\<close>

definition int32 :: "int \<Rightarrow> int" where
  "int32 i = signed_take_bit 31 i"

definition lua_toboolean :: "lval \<Rightarrow> bool" where
  "lua_toboolean v \<longleftrightarrow> v \<noteq> LNil \<and> v \<noteq> LBool False"

text \<open>\<open>strcmp\<close> reads a string up to its first NUL.\<close>

definition c_string :: "string \<Rightarrow> string" where
  "c_string s = takeWhile (\<lambda>c. c \<noteq> CHR 0x00) s"

definition strequal :: "(double \<Rightarrow> string) \<Rightarrow> lval \<Rightarrow> string \<Rightarrow> bool" where
  "strequal tostr v s2 =
     (case v of
        LStr s1 \<Rightarrow> c_string s1 = c_string s2
      | LNum x \<Rightarrow> c_string (tostr x) = c_string s2
      | _ \<Rightarrow> False)"

section \<open>Times\<close>

record timeval =
  tv_sec :: int
  tv_usec :: int

record timespec =
  ts_sec :: int
  ts_nsec :: int

definition fromtimeval :: "timeval \<Rightarrow> double" where
  "fromtimeval tv =
     fadd (fadd (Finite 0 0) (of_long (tv_sec tv))) (fdiv_int (of_long (tv_usec tv)) 1000000)"

definition gettimeval :: "double \<Rightarrow> timeval option option" where
  "gettimeval secs =
     (if negative secs then Some None
      else let (fractpart, intpart) = modf secs
           in do {
             sec \<leftarrow> to_long intpart;
             usec \<leftarrow> to_long (fmul fractpart (Finite 1000000 0));
             Some (Some \<lparr>tv_sec = sec, tv_usec = usec\<rparr>)
           })"

definition bad_number :: "lval" where
  "bad_number = LStr ''number expected''"

definition gettimeval_arg ::
    "(string \<Rightarrow> double option) \<Rightarrow> lval \<Rightarrow> (lval + timeval option) option" where
  "gettimeval_arg tonum v =
     (case lua_tonumber tonum v of
        None \<Rightarrow> Some (Inl bad_number)
      | Some secs \<Rightarrow> map_option Inr (gettimeval secs))"

definition gettimeval_opt ::
    "(string \<Rightarrow> double option) \<Rightarrow> lval \<Rightarrow> (lval + timeval option) option" where
  "gettimeval_opt tonum v =
     (if v = LNil then map_option Inr (gettimeval (Finite (- 1) 0)) else gettimeval_arg tonum v)"

definition fromtimespec :: "timespec \<Rightarrow> double" where
  "fromtimespec tv =
     fadd (fadd (Finite 0 0) (of_long (ts_sec tv))) (fdiv_int (of_long (ts_nsec tv)) 1000000000)"

definition gettimespec :: "double \<Rightarrow> timespec option option" where
  "gettimespec secs =
     (if negative secs then Some None
      else let (fractpart, intpart) = modf secs
           in do {
             sec \<leftarrow> to_long intpart;
             nsec \<leftarrow> to_long (fmul fractpart (Finite 1000000000 0));
             Some (Some \<lparr>ts_sec = sec, ts_nsec = nsec\<rparr>)
           })"

definition gettimespec_arg ::
    "(string \<Rightarrow> double option) \<Rightarrow> lval \<Rightarrow> (lval + timespec option) option" where
  "gettimespec_arg tonum v =
     (case lua_tonumber tonum v of
        None \<Rightarrow> Some (Inl bad_number)
      | Some secs \<Rightarrow> map_option Inr (gettimespec secs))"

definition gettimespec_opt ::
    "(string \<Rightarrow> double option) \<Rightarrow> lval \<Rightarrow> (lval + timespec option) option" where
  "gettimespec_opt tonum v =
     (if v = LNil then map_option Inr (gettimespec (Finite (- 1) 0)) else gettimespec_arg tonum v)"

section \<open>Signals and descriptor flags\<close>

definition signal_names :: "(string \<times> int) list" where
  "signal_names =
     [(''SIGHUP'', 1), (''SIGINT'', 2), (''SIGQUIT'', 3), (''SIGILL'', 4), (''SIGABRT'', 6),
      (''SIGFPE'', 8), (''SIGKILL'', 9), (''SIGSEGV'', 11), (''SIGPIPE'', 13), (''SIGALRM'', 14),
      (''SIGTERM'', 15), (''SIGUSR1'', 10), (''SIGUSR2'', 12), (''SIGCHLD'', 17),
      (''SIGCONT'', 18), (''SIGSTOP'', 19), (''SIGTSTP'', 20), (''SIGTTIN'', 21),
      (''SIGTTOU'', 22)]"

definition get_signal :: "(string \<Rightarrow> double option) \<Rightarrow> lval \<Rightarrow> int \<Rightarrow> int option" where
  "get_signal tonum v def =
     (if lua_tonumber tonum v \<noteq> None then map_option int32 (lua_tointeger tonum v)
      else Some (case v of
        LStr s \<Rightarrow> (case map_of signal_names (c_string s) of Some n \<Rightarrow> n | None \<Rightarrow> - 1)
      | LNil \<Rightarrow> def
      | _ \<Rightarrow> - 1))"

text \<open>
  A descriptor has two sets of flags: the status flags (\<open>F_GETFL\<close>, \<open>F_SETFL\<close>) and the
  descriptor flags (\<open>F_GETFD\<close>, \<open>F_SETFD\<close>). Setting the status flags changes only the
  bits the system allows to change; \<open>settable\<close> is that mask, an argument.
\<close>

record fd_flags =
  fl :: u32
  fdfl :: u32

abbreviation (input) "O_NONBLOCK \<equiv> (2048 :: u32)"
abbreviation (input) "FD_CLOEXEC \<equiv> (1 :: u32)"

definition F_SETFL :: "u32 \<Rightarrow> u32 \<Rightarrow> fd_flags \<Rightarrow> fd_flags" where
  "F_SETFL settable v d = d\<lparr>fl := (fl d AND NOT settable) OR (v AND settable)\<rparr>"

definition set_nonblocking :: "u32 \<Rightarrow> fd_flags \<Rightarrow> fd_flags" where
  "set_nonblocking settable d = F_SETFL settable (fl d OR O_NONBLOCK) d"

definition set_closeonexec :: "u32 \<Rightarrow> fd_flags \<Rightarrow> fd_flags" where
  "set_closeonexec settable d = F_SETFL settable (fl d OR FD_CLOEXEC) d"

section \<open>Properties of the times\<close>

lemma gettimeval_minus [simp]: "gettimeval (Finite (- 1) 0) = Some None"
  by (simp add: gettimeval_def)

lemma gettimeval_opt_nil [simp]: "gettimeval_opt tonum LNil = Some (Inr None)"
  by (simp add: gettimeval_opt_def)

text \<open>What \<open>gettimeval\<close> and \<open>gettimespec\<close> compute of a time that is not negative, \<open>K\<close> units a
  second: the whole seconds if a \<open>long int\<close> holds them, and the units of the rest.\<close>

lemma time_parts:
  assumes ok: "double_ok (Finite m e)" "0 \<le> m"
    and K: "2 powi p < real_of_int K" "real_of_int K < 2 powi (p + 1)" "0 \<le> p" "p \<le> 40"
  defines "x \<equiv> dval (Finite m e)"
  shows "\<exists>f i u. modf (Finite m e) = (f, i) \<and>
    to_long i = (if x < 2 ^ 63 then Some \<lfloor>x\<rfloor> else None) \<and>
    to_long (fmul f (Finite K 0)) = Some u \<and> 0 \<le> u \<and> u < K \<and>
    of_int u - 2 powi (p - 53) \<le> frac x * of_int K \<and> frac x * of_int K < of_int u + 1 + 2 powi (p - 53)"
proof -
  obtain f g i h where mf: "modf (Finite m e) = (Finite f g, Finite i h)" "0 \<le> f" "0 \<le> i"
    "of_int f * 2 powi g = frac x" "of_int i * 2 powi h = real_of_int \<lfloor>x\<rfloor>" "frac x \<le> 1 - 2 powi (- 53)"
    using modf_parts [OF ok] unfolding x_def dval.simps by blast
  have fb: "real_of_int f * 2 powi g \<le> 1 - 2 powi (- 53)" using mf(6) unfolding mf(4) .
  have "p \<le> 900" using K(4) by simp
  from scaled_fraction [OF mf(2) fb K(1,2,3) this] obtain m' e' where pr: "fmul (Finite f g) (Finite K 0) = Finite m' e'" "0 \<le> m'"
    "\<bar>of_int m' * 2 powi e' - frac x * of_int K\<bar> \<le> 2 powi (p - 53)" "of_int m' * 2 powi e' < real_of_int K"
    unfolding mf(4) by blast
  define u where "u = \<lfloor>of_int m' * (2 powi e' :: real)\<rfloor>"
  have u: "real_of_int u \<le> of_int m' * 2 powi e'" "of_int m' * 2 powi e' < real_of_int u + 1" "0 \<le> u"
    using pr(2) by (simp_all add: u_def)
  then have uK: "u < K" using pr(4) by linarith
  have "K < 2 ^ 63"
  proof -
    have "real_of_int K < 2 powi (p + 1)" by (rule K)
    also have "\<dots> \<le> 2 powi 63" using K(4) by (intro power_int_increasing) simp_all
    finally have "real_of_int K < of_int (2 ^ 63)" by simp
    then show ?thesis by (simp only: of_int_less_iff)
  qed
  then have "u < 2 ^ 63" "- (2 ^ 63) \<le> u" using uK u(3) by simp_all
  then have tu: "to_long (Finite m' e') = Some u"
    using trunc_floor [OF pr(2), of e'] by (simp only: to_long.simps Let_def u_def simp_thms if_True)
  have x0: "0 \<le> x" using ok(2) by (simp add: x_def)
  have "\<lfloor>x\<rfloor> < 2 ^ 63 \<longleftrightarrow> x < 2 ^ 63" by (simp add: floor_less_iff)
  then have ti: "to_long (Finite i h) = (if x < 2 ^ 63 then Some \<lfloor>x\<rfloor> else None)"
    using x0 by (simp add: trunc_floor [OF mf(3)] mf(5))
  show ?thesis
    by (rule exI [of _ "Finite f g"], rule exI [of _ "Finite i h"], rule exI [of _ u])
      (use mf(1) pr(1,3) u uK tu ti in \<open>auto simp: abs_le_iff\<close>)
qed

text \<open>C34: \<open>gettimeval\<close> refuses exactly the negative times. Any other time gives a normalised
  \<open>timeval\<close>: its seconds are the whole seconds of the time, its microseconds are between 0 and 999999
  and are those of the rest of the time, cut off, up to the error of one rounded product. The
  conversion is undefined exactly for what is not a number and for times of \<open>2 ^ 63\<close> seconds and
  more.\<close>
theorem gettimeval_spec:
  assumes "double_ok secs"
  shows "case gettimeval secs of
     None \<Rightarrow> secs = NaN \<or> secs = Infinity False \<or> 2 ^ 63 \<le> dval secs
   | Some None \<Rightarrow> secs = Infinity True \<or> dval secs < 0
   | Some (Some tv) \<Rightarrow> 0 \<le> dval secs \<and> tv_sec tv = \<lfloor>dval secs\<rfloor> \<and> tv_sec tv < 2 ^ 63 \<and>
       0 \<le> tv_usec tv \<and> tv_usec tv < 1000000 \<and>
       of_int (tv_usec tv) - 1 / 2 ^ 34 \<le> frac (dval secs) * 1000000 \<and>
       frac (dval secs) * 1000000 < of_int (tv_usec tv) + 1 + 1 / 2 ^ 34"
proof (cases secs)
  case (Finite m e)
  show ?thesis
  proof (cases "m < 0")
    case False
    then obtain f i u where p: "modf secs = (f, i)" "to_long i = (if dval secs < 2 ^ 63 then Some \<lfloor>dval secs\<rfloor> else None)"
      "to_long (fmul f (Finite 1000000 0)) = Some u" "0 \<le> u" "u < 1000000"
      "of_int u - 1 / 2 ^ 34 \<le> frac (dval secs) * 1000000" "frac (dval secs) * 1000000 < of_int u + 1 + 1 / 2 ^ 34"
      using time_parts [of m e 19 1000000] assms Finite by (auto simp: power_int_minus)
    moreover have "0 \<le> dval secs" "\<not> negative secs" using False Finite by simp_all
    moreover have "\<lfloor>dval secs\<rfloor> < 2 ^ 63" if "dval secs < 2 ^ 63" using that by (simp add: floor_less_iff)
    ultimately show ?thesis by (simp add: gettimeval_def)
  qed (simp add: gettimeval_def Finite mult_neg_pos)
qed (simp_all add: gettimeval_def)

text \<open>One microsecond, as the double nearest to \<open>10 ^ -6\<close>: its product with \<open>10 ^ 6\<close> is rounded up to 1.\<close>

theorem gettimeval_spec_witness:
  "let secs = Finite 4722366482869645 (- 72)
   in double_ok secs \<and> gettimeval secs = Some (Some \<lparr>tv_sec = 0, tv_usec = 1\<rparr>) \<and> 0 \<le> dval secs"
proof -
  define secs where "secs = Finite 4722366482869645 (- 72)"
  have ok: "double_ok secs" by (simp add: secs_def double_ok_def)
  have "gettimeval secs = Some (Some \<lparr>tv_sec = 0, tv_usec = 1\<rparr>)" unfolding secs_def by code_simp
  with gettimeval_spec [OF ok] ok show ?thesis by (simp add: secs_def [symmetric])
qed

section \<open>Close on exec\<close>

text \<open>
  The close-on-exec flag is a descriptor flag, but \<open>set_closeonexec\<close> sets it among the
  status flags: the descriptor flags stay as they were.
\<close>
lemma set_closeonexec_no_effect: "fdfl (set_closeonexec settable d) = fdfl d"
  by (simp add: set_closeonexec_def F_SETFL_def)

lemma set_nonblocking_sets:
  assumes "settable AND O_NONBLOCK = O_NONBLOCK"
  shows "fl (set_nonblocking settable d) AND O_NONBLOCK = O_NONBLOCK"
proof (rule bit_word_eqI)
  fix n
  from assms have "bit (settable AND O_NONBLOCK) n = bit O_NONBLOCK n"
    by simp
  then show "bit (fl (set_nonblocking settable d) AND O_NONBLOCK) n = bit O_NONBLOCK n"
    unfolding set_nonblocking_def F_SETFL_def
    by (cases d) (simp only: fd_flags.simps bit_and_iff bit_or_iff, blast)
qed

end
