(* ===== verification/Scheduler.thy ===== *)
theory Scheduler
  imports Misc "HOL-Library.AList"
begin

text \<open>
  The scheduler of \<open>ratchet.c\<close>: the tables of a ratchet object, the events it has
  registered with libevent, the Lua threads it runs, and every function that changes them.

  \<^item> The state is the record \<open>ratchet\<close>. A Lua table used as a set of threads is the
    list of its keys. \<open>coros\<close> holds status and stack of every Lua thread; a thread that was
    never created is finished. Events are numbered; \<open>pending\<close> are those that libevent
    holds. The weak tables lose no entry here: the garbage collector may remove a thread that
    nothing refers to, and a thread the program still refers to stays.
  \<^item> What the C code calls and does not define is the record \<open>world\<close>: running Lua code,
    the traversal order of a table, the methods of the objects that threads wait for, and which
    events libevent reports. The methods \<open>get_fd\<close> and \<open>get_timeout\<close> are Lua functions: they may
    raise an error and change the state.
  \<^item> A function that may raise a Lua error in the thread of the loop returns the error value
    beside the state. \<open>None\<close> is undefined behaviour, a loop that never ends, or a call that does
    not return to its caller.
\<close>

section \<open>State\<close>

abbreviation (input) "RATCHET_YIELD_GET \<equiv> (1 :: nat)"
abbreviation (input) "RATCHET_YIELD_WRITE \<equiv> (2 :: nat)"
abbreviation (input) "RATCHET_YIELD_READ \<equiv> (3 :: nat)"
abbreviation (input) "RATCHET_YIELD_TIMEOUT \<equiv> (4 :: nat)"
abbreviation (input) "RATCHET_YIELD_WAITALL \<equiv> (5 :: nat)"
abbreviation (input) "RATCHET_YIELD_MULTIRW \<equiv> (6 :: nat)"
abbreviation (input) "RATCHET_YIELD_PAUSE \<equiv> (7 :: nat)"
abbreviation (input) "RATCHET_YIELD_SIGNAL \<equiv> (8 :: nat)"

datatype lua_status = LUA_OK | LUA_YIELD | LUA_ERRRUN

record lthread =
  lstatus :: lua_status
  lstack :: "lval list"

datatype ev_kind = EV_READ int | EV_WRITE int | EV_SIGNAL int | EV_TIMER

datatype callback = Event_Triggered | Signal_Triggered | Timeout_Triggered
  | Alarm_Triggered | Multi_Event_Triggered

record event =
  ev_id :: nat
  ev_kind :: ev_kind
  ev_cb :: callback
  ev_thread :: tid
  ev_tv :: "timeval option"

record ratchet =
  pending :: "event list"
  next_event :: nat
  coros :: "tid \<Rightarrow> lthread"
  next_tid :: tid
  threads :: "tid list"
  error_handler :: lval
  ready :: "tid list"
  waiting_on :: "(tid \<times> lval list) list"
  alarm_events :: "tid \<Rightarrow> nat option"
  alarm_callbacks :: "tid \<Rightarrow> lval"
  thread_space :: "tid \<Rightarrow> lval"
  break_flag :: bool

type_synonym outcome = "(lval option \<times> ratchet) option"
type_synonym 'a lua_result = "((lval + 'a) \<times> ratchet) option"

record world =
  w_resume :: "ratchet \<Rightarrow> tid \<Rightarrow> nat \<Rightarrow> (lua_status \<times> ratchet) option"
  w_pcall :: "ratchet \<Rightarrow> tid \<Rightarrow> lval \<Rightarrow> outcome"
  w_handler :: "ratchet \<Rightarrow> lval \<Rightarrow> lval \<Rightarrow> tid \<Rightarrow> outcome"
  w_order :: "tid list \<Rightarrow> tid list"
  w_has_get_fd :: "ratchet \<Rightarrow> lval \<Rightarrow> bool"
  w_get_fd :: "ratchet \<Rightarrow> lval \<Rightarrow> lval lua_result"
  w_has_get_timeout :: "ratchet \<Rightarrow> lval \<Rightarrow> bool"
  w_get_timeout :: "ratchet \<Rightarrow> lval \<Rightarrow> lval lua_result"
  w_tonumber :: "string \<Rightarrow> double option"
  w_event_base_loop :: "ratchet \<Rightarrow> bool \<Rightarrow> int \<times> (nat \<times> bool) list"

abbreviation status :: "ratchet \<Rightarrow> tid \<Rightarrow> lua_status" where
  "status r t \<equiv> lstatus (coros r t)"

abbreviation stack :: "ratchet \<Rightarrow> tid \<Rightarrow> lval list" where
  "stack r t \<equiv> lstack (coros r t)"

definition set_coro :: "tid \<Rightarrow> lthread \<Rightarrow> ratchet \<Rightarrow> ratchet" where
  "set_coro t c r = r\<lparr>coros := (coros r)(t := c)\<rparr>"

definition set_stack :: "tid \<Rightarrow> lval list \<Rightarrow> ratchet \<Rightarrow> ratchet" where
  "set_stack t s r = set_coro t ((coros r t)\<lparr>lstack := s\<rparr>) r"

section \<open>Events\<close>

definition event_assign :: "ev_kind \<Rightarrow> callback \<Rightarrow> tid \<Rightarrow> ratchet \<Rightarrow> event \<times> ratchet" where
  "event_assign k cb t r =
     (\<lparr>ev_id = next_event r, ev_kind = k, ev_cb = cb, ev_thread = t, ev_tv = None\<rparr>,
      r\<lparr>next_event := Suc (next_event r)\<rparr>)"

definition event_add :: "event \<Rightarrow> timeval option \<Rightarrow> ratchet \<Rightarrow> ratchet" where
  "event_add e tv r = r\<lparr>pending := pending r @ [e\<lparr>ev_tv := tv\<rparr>]\<rparr>"

definition event_del :: "nat \<Rightarrow> ratchet \<Rightarrow> ratchet" where
  "event_del i r = r\<lparr>pending := filter (\<lambda>e. ev_id e \<noteq> i) (pending r)\<rparr>"

definition add_event ::
    "ev_kind \<Rightarrow> callback \<Rightarrow> tid \<Rightarrow> timeval option \<Rightarrow> ratchet \<Rightarrow> nat \<times> ratchet" where
  "add_event k cb t tv r =
     (let (e, r1) = event_assign k cb t r in (ev_id e, event_add e tv r1))"

section \<open>Persistence tables\<close>

definition no_thread :: lthread where
  "no_thread = \<lparr>lstatus = LUA_OK, lstack = []\<rparr>"

definition setup_persistance_tables :: "lval \<Rightarrow> ratchet" where
  "setup_persistance_tables handler =
     \<lparr>pending = [], next_event = 0, coros = (\<lambda>_. no_thread), next_tid = 0, threads = [],
      error_handler = handler, ready = [], waiting_on = [], alarm_events = (\<lambda>_. None),
      alarm_callbacks = (\<lambda>_. LNil), thread_space = (\<lambda>_. LNil), break_flag = False\<rparr>"

definition set_thread_persist :: "tid \<Rightarrow> ratchet \<Rightarrow> ratchet" where
  "set_thread_persist t r = r\<lparr>threads := List.insert t (threads r)\<rparr>"

definition set_thread_ready :: "tid \<Rightarrow> ratchet \<Rightarrow> ratchet" where
  "set_thread_ready t r = r\<lparr>ready := List.insert t (ready r)\<rparr>"

definition end_alarm :: "tid \<Rightarrow> ratchet \<Rightarrow> ratchet" where
  "end_alarm t r = (case alarm_events r t of None \<Rightarrow> r | Some i \<Rightarrow> event_del i r)"

definition end_thread_persist :: "tid \<Rightarrow> ratchet \<Rightarrow> ratchet" where
  "end_thread_persist t r =
     (let r1 = set_stack t [] r;
          r2 = r1\<lparr>threads := removeAll t (threads r1)\<rparr>;
          r3 = end_alarm t r2
      in r3\<lparr>waiting_on := map (\<lambda>(w, cs). (w, removeAll (LThread t) cs)) (waiting_on r3)\<rparr>)"

definition end_all_waiting_thread_events :: "tid \<Rightarrow> ratchet \<Rightarrow> ratchet" where
  "end_all_waiting_thread_events t r =
     (case arg (stack r t) 1 of
        LCleanup ev evs \<Rightarrow>
          (let r1 = (case ev of None \<Rightarrow> r | Some i \<Rightarrow> event_del i r)
           in case evs of None \<Rightarrow> r1 | Some is \<Rightarrow> fold event_del is r1)
      | _ \<Rightarrow> r)"

definition get_fd_from_object :: "world \<Rightarrow> lval \<Rightarrow> ratchet \<Rightarrow> int lua_result" where
  "get_fd_from_object W v r =
     (if \<not> w_has_get_fd W r v then Some (Inl (LStr ''object has no get_fd() method''), r)
      else do {
        (x, r) \<leftarrow> w_get_fd W r v;
        (case x of
           Inl e \<Rightarrow> Some (Inl e, r)
         | Inr fd \<Rightarrow> do { i \<leftarrow> lua_tointeger (w_tonumber W) fd; Some (Inr (int32 i), r) })
      })"

definition get_timeout_from_object :: "world \<Rightarrow> lval \<Rightarrow> ratchet \<Rightarrow> double lua_result" where
  "get_timeout_from_object W v r =
     (if \<not> w_has_get_timeout W r v then Some (Inr (Finite (- 1) 0), r)
      else do {
        (x, r) \<leftarrow> w_get_timeout W r v;
        Some (case x of
                Inl e \<Rightarrow> Inl e
              | Inr t \<Rightarrow> Inr (case lua_tonumber (w_tonumber W) t of None \<Rightarrow> Finite 0 0 | Some d \<Rightarrow> d), r)
      })"

definition handle_thread_error :: "world \<Rightarrow> lval \<Rightarrow> tid \<Rightarrow> ratchet \<Rightarrow> outcome" where
  "handle_thread_error W e t r =
     (if error_handler r \<noteq> LNil then w_handler W r (error_handler r) e t else Some (Some e, r))"

section \<open>Waiting\<close>

definition wait_for_io ::
    "(int \<Rightarrow> ev_kind) \<Rightarrow> world \<Rightarrow> tid \<Rightarrow> lval list \<Rightarrow> ratchet \<Rightarrow> outcome" where
  "wait_for_io kind W t vs r =
     do {
       (x, r) \<leftarrow> get_fd_from_object W (arg vs 0) r;
       (case x of
          Inl e \<Rightarrow> Some (Some e, r)
        | Inr fd \<Rightarrow> do {
            (y, r) \<leftarrow> get_timeout_from_object W (arg vs 0) r;
            (case y of
               Inl e \<Rightarrow> Some (Some e, r)
             | Inr timeout \<Rightarrow>
                 if fd < 0
                 then Some (Some (LError None ''EBADF'' ''Invalid file descriptor: %d'' [fd]),
                            set_stack t [LCleanup None None] r)
                 else do {
                   tv \<leftarrow> gettimeval timeout;
                   let (i, r1) = add_event (kind fd) Event_Triggered t tv r;
                   Some (None, set_stack t [LCleanup (Some i) None] r1)
                 })
          })
     }"

definition ratchet_wait_for_write :: "world \<Rightarrow> tid \<Rightarrow> lval list \<Rightarrow> ratchet \<Rightarrow> outcome" where
  "ratchet_wait_for_write = wait_for_io EV_WRITE"

definition ratchet_wait_for_read :: "world \<Rightarrow> tid \<Rightarrow> lval list \<Rightarrow> ratchet \<Rightarrow> outcome" where
  "ratchet_wait_for_read = wait_for_io EV_READ"

definition ratchet_wait_for_signal :: "world \<Rightarrow> tid \<Rightarrow> lval list \<Rightarrow> ratchet \<Rightarrow> outcome" where
  "ratchet_wait_for_signal W t vs r =
     do {
       sig \<leftarrow> lua_tointeger (w_tonumber W) (arg vs 0);
       x \<leftarrow> gettimeval_opt (w_tonumber W) (arg vs 1);
       Some (case x of
          Inl e \<Rightarrow> (Some e, r)
        | Inr use_tv \<Rightarrow>
            let (i, r1) = add_event (EV_SIGNAL (int32 sig)) Signal_Triggered t None r
            in case use_tv of
                 None \<Rightarrow> (None, set_stack t [LCleanup None (Some [i])] r1)
               | Some tv \<Rightarrow>
                   let (j, r2) = add_event EV_TIMER Signal_Triggered t (Some tv) r1
                   in (None, set_stack t [LCleanup None (Some [i, j])] r2))
     }"

definition ratchet_wait_for_timeout :: "world \<Rightarrow> tid \<Rightarrow> lval list \<Rightarrow> ratchet \<Rightarrow> outcome" where
  "ratchet_wait_for_timeout W t vs r =
     do {
       x \<leftarrow> gettimeval_arg (w_tonumber W) (arg vs 0);
       (case x of
          Inl e \<Rightarrow> Some (Some e, r)
        | Inr None \<Rightarrow> None
        | Inr (Some tv) \<Rightarrow>
            let (i, r1) = add_event EV_TIMER Timeout_Triggered t (Some tv) r
            in Some (None, set_stack t [LCleanup (Some i) None] r1))
     }"

text \<open>
  The loops of \<open>ratchet_wait_for_multi\<close>. While they run, the stack of the thread holds the cleanup
  table \<open>c\<close>, which has no \<open>event_list\<close> yet, the table of objects and the list of events; an error
  of \<open>get_fd\<close> leaves it so.
\<close>
fun multi_events ::
    "world \<Rightarrow> (int \<Rightarrow> ev_kind) \<Rightarrow> tid \<Rightarrow> lval \<Rightarrow> lval list \<Rightarrow> (int \<times> lval) list \<Rightarrow> nat list \<Rightarrow> ratchet
     \<Rightarrow> (lval option \<times> (int \<times> lval) list \<times> nat list \<times> ratchet) option" where
  "multi_events W kind t c [] fds is r = Some (None, fds, is, r)"
| "multi_events W kind t c (v # vs) fds is r =
     do {
       (x, r) \<leftarrow> get_fd_from_object W v r;
       (case x of
          Inl e \<Rightarrow> Some (Some e, fds, is, r)
        | Inr fd \<Rightarrow>
            let (i, r1) = add_event (kind fd) Multi_Event_Triggered t None r;
                fds = AList.update fd v fds;
                is = is @ [i]
            in multi_events W kind t c vs fds is (set_stack t [c, LFds fds, LEvents is] r1))
     }"

definition sequence :: "lval \<Rightarrow> lval list option" where
  "sequence v = (case v of LTable vs \<Rightarrow> Some vs | _ \<Rightarrow> None)"

definition ratchet_wait_for_multi :: "world \<Rightarrow> tid \<Rightarrow> lval list \<Rightarrow> ratchet \<Rightarrow> outcome" where
  "ratchet_wait_for_multi W t vs r =
     (case (sequence (arg vs 0),
            if arg vs 1 = LNil then Some [] else sequence (arg vs 1)) of
        (Some reads, Some writes) \<Rightarrow>
          do {
            x \<leftarrow> gettimeval_opt (w_tonumber W) (arg vs 2);
            (case x of
               Inl e \<Rightarrow> Some (Some e, r)
             | Inr use_tv \<Rightarrow> do {
                 let (timeout, r) = event_assign EV_TIMER Multi_Event_Triggered t r;
                 let r = (case use_tv of None \<Rightarrow> r | Some tv \<Rightarrow> event_add timeout (Some tv) r);
                 let c = LCleanup (Some (ev_id timeout)) None;
                 (err, fds, is, r) \<leftarrow>
                   multi_events W EV_READ t c reads [] [] (set_stack t [c, LFds [], LEvents []] r);
                 if err \<noteq> None then Some (err, r)
                 else do {
                   (err, fds, is, r) \<leftarrow> multi_events W EV_WRITE t c writes fds is r;
                   if err \<noteq> None then Some (err, r)
                   else Some (None, set_stack t [LCleanup (Some (ev_id timeout)) (Some is), LFds fds] r)
                 }
               })
          }
      | _ \<Rightarrow> Some (Some (LStr ''table expected''), r))"

section \<open>Running threads\<close>

definition wait_method :: "nat \<Rightarrow> (world \<Rightarrow> tid \<Rightarrow> lval list \<Rightarrow> ratchet \<Rightarrow> outcome) option" where
  "wait_method y =
     (if y = RATCHET_YIELD_WRITE then Some ratchet_wait_for_write
      else if y = RATCHET_YIELD_READ then Some ratchet_wait_for_read
      else if y = RATCHET_YIELD_SIGNAL then Some ratchet_wait_for_signal
      else if y = RATCHET_YIELD_TIMEOUT then Some ratchet_wait_for_timeout
      else if y = RATCHET_YIELD_MULTIRW then Some ratchet_wait_for_multi
      else None)"

definition ratchet_yield_thread :: "world \<Rightarrow> tid \<Rightarrow> ratchet \<Rightarrow> outcome" where
  "ratchet_yield_thread W t r =
     (case stack r t of
        LLight y # vs \<Rightarrow>
          do {
            (err, r1) \<leftarrow>
              (case wait_method y of
                 Some method \<Rightarrow> method W t vs (set_stack t [] r)
               | None \<Rightarrow> Some (None, set_stack t [LCleanup None None] r));
            Some (case err of
                    Some e \<Rightarrow> (Some e, r1)
                  | None \<Rightarrow> (None, set_stack t (LMain # stack r1 t) r1))
          }
      | _ \<Rightarrow> Some (Some (LStr ''Illegal yield of a ratchet thread.''), r))"

definition nargs :: "ratchet \<Rightarrow> tid \<Rightarrow> nat option" where
  "nargs r t =
     (if status r t = LUA_YIELD then Some (length (stack r t))
      else if stack r t = [] then None
      else Some (length (stack r t) - 1))"

definition run_body :: "world \<Rightarrow> tid \<Rightarrow> ratchet \<Rightarrow> (ratchet + (lval option \<times> ratchet)) option" where
  "run_body W t r =
     do {
       n \<leftarrow> nargs r t;
       (ret, r1) \<leftarrow> w_resume W r t n;
       case ret of
         LUA_OK \<Rightarrow> Some (Inr (None, end_thread_persist t r1))
       | LUA_YIELD \<Rightarrow>
           if arg (stack r1 t) 0 = LLight RATCHET_YIELD_GET
           then Some (Inl (set_stack t [LRatchet] r1))
           else map_option Inr (ratchet_yield_thread W t r1)
       | LUA_ERRRUN \<Rightarrow>
           if stack r1 t = [] then None
           else let e = last (stack r1 t);
                    r2 = set_stack t (butlast (stack r1 t)) r1;
                    r3 = end_all_waiting_thread_events t r2;
                    r4 = end_thread_persist t r3
                in map_option Inr (handle_thread_error W e t r4)
     }"

definition ratchet_run_thread :: "world \<Rightarrow> tid \<Rightarrow> ratchet \<Rightarrow> outcome" where
  "ratchet_run_thread W t r = loop (run_body W t) r"

definition ratchet_alarm_thread :: "world \<Rightarrow> tid \<Rightarrow> ratchet \<Rightarrow> outcome" where
  "ratchet_alarm_thread W t r =
     (let r1 = (if status r t = LUA_YIELD then end_all_waiting_thread_events t r else r);
          r2 = set_stack t [] r1
      in do {
        (err, r3) \<leftarrow> (if alarm_callbacks r2 t \<noteq> LNil then w_pcall W r2 t (alarm_callbacks r2 t)
                     else Some (None, r2));
        let e = (case err of
                   Some e \<Rightarrow> e
                 | None \<Rightarrow> LError (Some ''ratchet.thread.alarm()'') ''ALARM'' ''Thread alarm!'' []);
        handle_thread_error W e t (end_thread_persist t r3)
      })"

section \<open>Event callbacks\<close>

definition internal_error :: lval where
  "internal_error = LStr ''ratchet internal error.''"

text \<open>
  An error raised in a thread that is not running: Lua marks the thread as dead, with the error on its
  stack, and raises the error in the main thread.
\<close>
definition fail_thread :: "tid \<Rightarrow> lval \<Rightarrow> ratchet \<Rightarrow> ratchet" where
  "fail_thread t e r = set_coro t \<lparr>lstatus = LUA_ERRRUN, lstack = stack r t @ [e]\<rparr> r"

definition with_main :: "(ratchet \<Rightarrow> outcome) \<Rightarrow> tid \<Rightarrow> ratchet \<Rightarrow> outcome" where
  "with_main f t r =
     (case stack r t of
        LMain # _ \<Rightarrow> f r
      | LThread _ # _ \<Rightarrow> None
      | _ \<Rightarrow> Some (Some internal_error, fail_thread t internal_error r))"

definition event_triggered :: "world \<Rightarrow> bool \<Rightarrow> tid \<Rightarrow> ratchet \<Rightarrow> outcome" where
  "event_triggered W timeout t =
     with_main (\<lambda>r. ratchet_run_thread W t (set_stack t [LBool (\<not> timeout)] r)) t"

definition signal_triggered :: "world \<Rightarrow> bool \<Rightarrow> tid \<Rightarrow> ratchet \<Rightarrow> outcome" where
  "signal_triggered W timeout t =
     with_main (\<lambda>r. ratchet_run_thread W t
       (set_stack t [LBool (\<not> timeout)] (end_all_waiting_thread_events t r))) t"

definition timeout_triggered :: "world \<Rightarrow> tid \<Rightarrow> ratchet \<Rightarrow> outcome" where
  "timeout_triggered W t = with_main (\<lambda>r. ratchet_run_thread W t (set_stack t [] r)) t"

definition alarm_triggered :: "world \<Rightarrow> tid \<Rightarrow> ratchet \<Rightarrow> outcome" where
  "alarm_triggered W t = with_main (ratchet_alarm_thread W t) t"

definition multi_event_triggered :: "world \<Rightarrow> int \<Rightarrow> bool \<Rightarrow> tid \<Rightarrow> ratchet \<Rightarrow> outcome" where
  "multi_event_triggered W fd timeout t =
     with_main (\<lambda>r.
       let r1 = end_all_waiting_thread_events t r
       in if timeout then ratchet_run_thread W t (set_stack t [LBool False] r1)
          else case arg (stack r1 t) 2 of
                 LFds fds \<Rightarrow>
                   ratchet_run_thread W t
                     (set_stack t [case map_of fds fd of None \<Rightarrow> LNil | Some v \<Rightarrow> v] r1)
               | _ \<Rightarrow> None) t"

definition event_fd :: "event \<Rightarrow> int" where
  "event_fd e = (case ev_kind e of EV_READ fd \<Rightarrow> fd | EV_WRITE fd \<Rightarrow> fd | EV_SIGNAL s \<Rightarrow> s | EV_TIMER \<Rightarrow> - 1)"

definition fire :: "world \<Rightarrow> event \<Rightarrow> bool \<Rightarrow> ratchet \<Rightarrow> outcome" where
  "fire W e timeout r =
     (case ev_cb e of
        Event_Triggered \<Rightarrow> event_triggered W timeout (ev_thread e) r
      | Signal_Triggered \<Rightarrow> signal_triggered W timeout (ev_thread e) r
      | Timeout_Triggered \<Rightarrow> timeout_triggered W (ev_thread e) r
      | Alarm_Triggered \<Rightarrow> alarm_triggered W (ev_thread e) r
      | Multi_Event_Triggered \<Rightarrow> multi_event_triggered W (event_fd e) timeout (ev_thread e) r)"

fun dispatch :: "world \<Rightarrow> (nat \<times> bool) list \<Rightarrow> ratchet \<Rightarrow> outcome" where
  "dispatch W [] r = Some (None, r)"
| "dispatch W ((i, timeout) # active) r =
     (case find (\<lambda>e. ev_id e = i) (pending r) of
        None \<Rightarrow> dispatch W active r
      | Some e \<Rightarrow> do {
          (err, r1) \<leftarrow> fire W e timeout (event_del i r);
          if err \<noteq> None then Some (err, r1) else dispatch W active r1
        })"

section \<open>The loop\<close>

definition ready_body ::
    "world \<Rightarrow> bool \<times> ratchet \<Rightarrow> ((bool \<times> ratchet) + ((lval + bool) \<times> ratchet)) option" where
  "ready_body W = (\<lambda>(some_ready, r).
     case w_order W (ready r) of
       [] \<Rightarrow> Some (Inr (Inr some_ready, r))
     | t # _ \<Rightarrow> do {
         (err, r1) \<leftarrow> ratchet_run_thread W t (r\<lparr>ready := removeAll t (ready r)\<rparr>);
         Some (case err of Some e \<Rightarrow> Inr (Inl e, r1) | None \<Rightarrow> Inl (True, r1))
       })"

definition ratchet_start_threads_ready :: "world \<Rightarrow> ratchet \<Rightarrow> bool lua_result" where
  "ratchet_start_threads_ready W r = loop (ready_body W) (False, r)"

abbreviation waiters :: "ratchet \<Rightarrow> tid list" where
  "waiters r \<equiv> map fst (waiting_on r)"

text \<open>
  The traversal of \<open>waiting_on\<close> goes on after a thread has run. Lua leaves the behaviour of
  \<open>lua_next\<close> undefined when a key was added to the table meanwhile.
\<close>
fun done_waiting :: "world \<Rightarrow> tid list \<Rightarrow> bool \<Rightarrow> ratchet \<Rightarrow> bool lua_result" where
  "done_waiting W [] some_ready r = Some (Inr some_ready, r)"
| "done_waiting W (t # ts) some_ready r =
     (if map_of (waiting_on r) t = Some []
      then let r0 = r\<lparr>waiting_on := AList.delete t (waiting_on r)\<rparr>
           in do {
             (err, r1) \<leftarrow> ratchet_run_thread W t r0;
             (case err of
                Some e \<Rightarrow> Some (Inl e, r1)
              | None \<Rightarrow> if set (waiters r1) \<subseteq> set (waiters r0) then done_waiting W ts True r1
                        else None)
           }
      else done_waiting W ts some_ready r)"

definition ratchet_start_threads_done_waiting :: "world \<Rightarrow> ratchet \<Rightarrow> bool lua_result" where
  "ratchet_start_threads_done_waiting W r = done_waiting W (w_order W (waiters r)) False r"

definition deadlock :: lval where
  "deadlock = LError (Some ''ratchet.loop_once()'') ''DEADLOCK'' ''Non-IO deadlock detected.'' []"

definition process_events :: "world \<Rightarrow> bool \<Rightarrow> ratchet \<Rightarrow> bool lua_result" where
  "process_events W nonblock r =
     (let (ret, active) = w_event_base_loop W r nonblock
      in do {
        (err, r1) \<leftarrow> dispatch W active r;
        Some (case err of
                Some e \<Rightarrow> Inl e
              | None \<Rightarrow> if ret < 0 then Inl (LStr ''libevent internal error.'')
                        else if ret > 0 then Inl deadlock
                        else Inr True, r1)
      })"

definition ratchet_loop_once :: "world \<Rightarrow> bool \<Rightarrow> ratchet \<Rightarrow> bool lua_result" where
  "ratchet_loop_once W nonblock r =
     do {
       (x1, r1) \<leftarrow> ratchet_start_threads_ready W r;
       (if x1 \<noteq> Inr False then Some (x1, r1)
        else do {
          (x2, r2) \<leftarrow> ratchet_start_threads_done_waiting W r1;
          if x2 \<noteq> Inr False then Some (x2, r2)
          else if threads r2 = [] then Some (Inr False, r2)
          else process_events W nonblock r2
        })
     }"

definition loop_body :: "world \<Rightarrow> ratchet \<Rightarrow> (ratchet + (lval option \<times> ratchet)) option" where
  "loop_body W r =
     (if break_flag r then Some (Inr (None, r\<lparr>break_flag := False\<rparr>))
      else do {
        (x, r1) \<leftarrow> ratchet_loop_once W False r;
        Some (case x of
                Inl e \<Rightarrow> Inr (Some e, r1)
              | Inr b \<Rightarrow> if b then Inl r1 else Inr (None, r1))
      })"

definition ratchet_loop :: "world \<Rightarrow> ratchet \<Rightarrow> outcome" where
  "ratchet_loop W r = loop (loop_body W) r"

definition ratchet_break :: "ratchet \<Rightarrow> ratchet" where
  "ratchet_break r = r\<lparr>break_flag := True\<rparr>"

definition ratchet_get_num_threads :: "ratchet \<Rightarrow> nat" where
  "ratchet_get_num_threads r = length (threads r)"

definition ratchet_get_space :: "tid \<Rightarrow> lval \<Rightarrow> ratchet \<Rightarrow> lval \<times> ratchet" where
  "ratchet_get_space t premade r =
     (if thread_space r t \<noteq> LNil then (thread_space r t, r)
      else let v = (if premade = LNil then LTable [] else premade)
           in (v, r\<lparr>thread_space := (thread_space r)(t := v)\<rparr>))"

section \<open>Functions of ratchet and ratchet.thread\<close>

text \<open>
  A function that needs the ratchet object first yields \<open>RATCHET_YIELD_GET\<close> and does its
  work when it is resumed with the object; the definitions below are that second part. A function
  that suspends the thread returns the values it yields.
\<close>

definition lua_newthread :: "lval list \<Rightarrow> ratchet \<Rightarrow> tid \<times> ratchet" where
  "lua_newthread s r =
     (next_tid r,
      set_coro (next_tid r) \<lparr>lstatus = LUA_OK, lstack = s\<rparr> (r\<lparr>next_tid := Suc (next_tid r)\<rparr>))"

definition ratchet_new :: "lval \<Rightarrow> lval \<Rightarrow> ratchet" where
  "ratchet_new f handler =
     (let (t, r) = lua_newthread [f] (setup_persistance_tables handler)
      in set_thread_ready t (set_thread_persist t r))"

definition ratchet_attach :: "lval list \<Rightarrow> ratchet \<Rightarrow> (lval + tid) \<times> ratchet" where
  "ratchet_attach vs r =
     (if vs = [] then (Inl (LStr ''value expected''), r)
      else let (t, r1) = lua_newthread vs r
           in (Inr t, set_thread_ready t (set_thread_persist t r1)))"

definition ratchet_block_on :: "lval list \<Rightarrow> lval list" where
  "ratchet_block_on vs = LLight RATCHET_YIELD_MULTIRW # vs"

definition ratchet_sigwait :: "(string \<Rightarrow> double option) \<Rightarrow> lval list \<Rightarrow> (lval + lval list) option" where
  "ratchet_sigwait tonum vs =
     do {
       sig \<leftarrow> get_signal tonum (arg vs 0) (- 1);
       Some (if sig = - 1 then Inl (LStr ''Invalid signal.'')
             else Inr [LLight RATCHET_YIELD_SIGNAL, LNum (of_long sig)])
     }"

definition finished :: "ratchet \<Rightarrow> lval \<Rightarrow> bool" where
  "finished r v =
     (case v of
        LThread c \<Rightarrow> (status r c = LUA_OK \<and> stack r c = []) \<or>
                     (status r c \<noteq> LUA_OK \<and> status r c \<noteq> LUA_YIELD)
      | _ \<Rightarrow> False)"

fun wait_table :: "ratchet \<Rightarrow> lval list \<Rightarrow> nat \<Rightarrow> lval list \<Rightarrow> lval + lval list" where
  "wait_table r [] i cs = Inr cs"
| "wait_table r (v # vs) i cs =
     (case v of
        LNil \<Rightarrow> Inr cs
      | LThread _ \<Rightarrow> wait_table r vs (Suc i) (if finished r v then cs else List.insert v cs)
      | LMain \<Rightarrow> wait_table r vs (Suc i) (List.insert v cs)
      | _ \<Rightarrow> Inl (LError None [] ''Table item %d is not a thread.'' [int i]))"

definition ratchet_wait_all ::
    "tid \<Rightarrow> lval list \<Rightarrow> ratchet \<Rightarrow> (lval + lval list) \<times> ratchet" where
  "ratchet_wait_all me vs r =
     (case sequence (arg vs 0) of
        None \<Rightarrow> (Inl (LStr ''table expected''), r)
      | Some items \<Rightarrow>
          (case wait_table r items 1 [] of
             Inl e \<Rightarrow> (Inl e, r)
           | Inr cs \<Rightarrow> (Inr [LLight RATCHET_YIELD_WAITALL],
                        r\<lparr>waiting_on := AList.update me cs (waiting_on r)\<rparr>)))"

definition ratchet_thread_space :: "tid \<Rightarrow> lval list \<Rightarrow> ratchet \<Rightarrow> lval \<times> ratchet" where
  "ratchet_thread_space me vs r = ratchet_get_space me (arg vs 0) r"

definition ratchet_running_thread :: "tid option \<Rightarrow> lval" where
  "ratchet_running_thread me = (case me of None \<Rightarrow> LNil | Some t \<Rightarrow> LThread t)"

definition ratchet_timer :: "tid option \<Rightarrow> lval list \<Rightarrow> lval + lval list" where
  "ratchet_timer me vs =
     (if me = None
      then Inl (LStr ''ratchet.thread.timer() cannot be called from main thread.'')
      else Inr (LLight RATCHET_YIELD_TIMEOUT # vs))"

definition ratchet_pause :: "tid option \<Rightarrow> lval + lval list" where
  "ratchet_pause me =
     (if me = None
      then Inl (LStr ''ratchet.thread.pause() cannot be called from main thread.'')
      else Inr [LLight RATCHET_YIELD_PAUSE])"

text \<open>
  The first value on the stack of the thread has to be the main thread. If it is not, the error is
  raised in that thread and not in the caller, as with \<open>fail_thread\<close>: the call does not return.
\<close>
definition ratchet_unpause :: "tid option \<Rightarrow> lval list \<Rightarrow> ratchet \<Rightarrow> outcome" where
  "ratchet_unpause me vs r =
     (case arg vs 0 of
        LThread t \<Rightarrow>
          if me = Some t then Some (Some (LStr ''Thread is not yielding, cannot unpause.''), r)
          else
            (case stack r t of
               LMain # _ \<Rightarrow>
                 let r1 = set_stack t [] r
                 in if status r t \<noteq> LUA_YIELD
                    then Some (Some (LStr ''Thread is not yielding, cannot unpause.''), r1)
                    else Some (None, set_thread_ready t (set_stack t (tl vs) r1))
             | _ \<Rightarrow> None)
      | _ \<Rightarrow> Some (Some (LStr ''thread expected''), r))"

text \<open>
  The part that \<open>kill\<close> and \<open>kill_all\<close> share. The argument is not looked at before it is used as a
  thread: anything else is undefined, and so is the thread that calls, whose stack would be emptied
  under the running function.
\<close>
definition kill_thread :: "tid \<Rightarrow> ratchet \<Rightarrow> ratchet" where
  "kill_thread t r =
     end_thread_persist t
       (if status r t = LUA_YIELD then end_all_waiting_thread_events t r else r)"

definition ratchet_kill :: "tid \<Rightarrow> lval \<Rightarrow> ratchet \<Rightarrow> ratchet option" where
  "ratchet_kill me v r =
     (case v of
        LThread t \<Rightarrow> if t = me then None else Some (kill_thread t r)
      | _ \<Rightarrow> None)"

fun kill_items :: "tid \<Rightarrow> lval list \<Rightarrow> ratchet \<Rightarrow> ratchet option" where
  "kill_items me [] r = Some r"
| "kill_items me (v # vs) r =
     (if v = LNil then Some r else do { r \<leftarrow> ratchet_kill me v r; kill_items me vs r })"

definition ratchet_kill_all :: "tid \<Rightarrow> lval list \<Rightarrow> ratchet \<Rightarrow> ratchet option" where
  "ratchet_kill_all me vs r = do { items \<leftarrow> sequence (arg vs 0); kill_items me items r }"

definition ratchet_alarm ::
    "(string \<Rightarrow> double option) \<Rightarrow> tid \<Rightarrow> lval list \<Rightarrow> ratchet \<Rightarrow> outcome" where
  "ratchet_alarm tonum me vs r =
     do {
       x \<leftarrow> gettimeval_arg tonum (arg vs 0);
       (case x of
          Inl e \<Rightarrow> Some (Some e, r)
        | Inr None \<Rightarrow> None
        | Inr (Some tv) \<Rightarrow>
            let r1 = end_alarm me r;
                (i, r2) = add_event EV_TIMER Alarm_Triggered me (Some tv) r1
            in Some (None,
                 r2\<lparr>alarm_events := (alarm_events r2)(me := Some i),
                    alarm_callbacks := (alarm_callbacks r2)(me := arg vs 1)\<rparr>))
     }"

end
