(* ===== verification/Scheduler_Inv.thy ===== *)
theory Scheduler_Inv
  imports Scheduler
begin

text \<open>
  The invariant of the scheduler and what it guarantees.

  \<open>sound me r\<close> relates the tables of a ratchet object, the pending events and the Lua threads
  while the thread \<open>me\<close> runs (\<open>None\<close>: no thread runs). The relation \<open>api\<close> is what
  running Lua code can do to the object: calls of the functions of \<open>ratchet.thread\<close>. Only
  \<open>unpause\<close> has a condition, the one of its documentation: the thread it wakes is in \<open>pause\<close>.
  \<open>good_world\<close> collects what the scheduler relies on: Lua code acts through \<open>api\<close>, and table
  traversal visits the keys.

  A thread whose \<open>block_on\<close> fails in \<open>get_fd\<close> is left suspended with events that it does not hold, and
  the first of them that fires ends it (\<open>adrift\<close>); a thread that is killed before it has started is left
  in \<open>ready\<close>.
\<close>

section \<open>Invariant\<close>

fun cleanup_ids :: "lval \<Rightarrow> nat set" where
  "cleanup_ids (LCleanup a b) = set_option a \<union> (\<Union>is \<in> set_option b. set is)"
| "cleanup_ids _ = {}"

definition held :: "lval list \<Rightarrow> nat set" where
  "held s = cleanup_ids (arg s 1)"

definition no_events :: "ratchet \<Rightarrow> tid \<Rightarrow> bool" where
  "no_events r t \<longleftrightarrow> (\<forall>e \<in> set (pending r). ev_cb e \<noteq> Alarm_Triggered \<longrightarrow> ev_thread e \<noteq> t)"

definition resumable :: "ratchet \<Rightarrow> tid \<Rightarrow> bool" where
  "resumable r t \<longleftrightarrow> status r t = LUA_YIELD \<or> status r t = LUA_OK \<and> stack r t \<noteq> []"

definition parked :: "lthread \<Rightarrow> event \<Rightarrow> bool" where
  "parked c e \<longleftrightarrow> lstatus c = LUA_YIELD \<and>
     (\<exists>v s. lstack c = LMain # v # s \<and> ev_id e \<in> cleanup_ids v \<and>
       (ev_cb e = Event_Triggered \<or> ev_cb e = Timeout_Triggered \<longrightarrow> cleanup_ids v = {ev_id e}) \<and>
       (ev_cb e = Multi_Event_Triggered \<longrightarrow> (\<exists>fds s'. s = LFds fds # s')))"

definition adrift :: "lthread \<Rightarrow> bool" where
  "adrift c \<longleftrightarrow> lstatus c \<noteq> LUA_OK \<and> (\<forall>s. lstack c \<noteq> LMain # s)"

definition ids_ok :: "ratchet \<Rightarrow> bool" where
  "ids_ok r \<longleftrightarrow> distinct (map ev_id (pending r)) \<and>
     (\<forall>e \<in> set (pending r). ev_id e < next_event r \<and> ev_thread e < next_tid r) \<and>
     (\<forall>t i. alarm_events r t = Some i \<longrightarrow> i < next_event r)"

definition owned_ok :: "ratchet \<Rightarrow> bool" where
  "owned_ok r \<longleftrightarrow>
     (\<forall>t. \<forall>i \<in> held (stack r t). i < next_event r \<and>
        (\<forall>e \<in> set (pending r). ev_id e = i \<longrightarrow> ev_thread e = t \<and> ev_cb e \<noteq> Alarm_Triggered)) \<and>
     (\<forall>t i. alarm_events r t = Some i \<longrightarrow>
        (\<forall>e \<in> set (pending r). ev_id e = i \<longrightarrow> ev_thread e = t \<and> ev_cb e = Alarm_Triggered))"

definition ready_ok :: "tid option \<Rightarrow> ratchet \<Rightarrow> bool" where
  "ready_ok me r \<longleftrightarrow> (\<forall>t \<in> set (ready r). me \<noteq> Some t \<and> t < next_tid r \<and>
     (t \<in> set (threads r) \<longrightarrow> resumable r t \<or> status r t = LUA_ERRRUN) \<and> no_events r t \<and> t \<notin> set (waiters r))"

definition waits_ok :: "tid option \<Rightarrow> ratchet \<Rightarrow> bool" where
  "waits_ok me r \<longleftrightarrow> distinct (waiters r) \<and>
     (\<forall>t \<in> set (waiters r). me \<noteq> Some t \<and> t < next_tid r \<and> status r t \<noteq> LUA_OK \<and> no_events r t)"

definition event_ok :: "tid option \<Rightarrow> ratchet \<Rightarrow> event \<Rightarrow> bool" where
  "event_ok me r e \<longleftrightarrow>
     (if ev_cb e = Alarm_Triggered
      then alarm_events r (ev_thread e) = Some (ev_id e) \<and>
           (me = Some (ev_thread e) \<or> status r (ev_thread e) \<noteq> LUA_OK)
      else me \<noteq> Some (ev_thread e) \<and> (parked (coros r (ev_thread e)) e \<or> adrift (coros r (ev_thread e))))"

definition sound :: "tid option \<Rightarrow> ratchet \<Rightarrow> bool" where
  "sound me r \<longleftrightarrow> ids_ok r \<and> owned_ok r \<and> ready_ok me r \<and> waits_ok me r \<and>
     (\<forall>e \<in> set (pending r). event_ok me r e) \<and> (\<forall>t. me = Some t \<longrightarrow> t < next_tid r)"

definition idle :: "ratchet \<Rightarrow> tid \<Rightarrow> bool" where
  "idle r t \<longleftrightarrow> t < next_tid r \<and> t \<notin> set (ready r) \<and> t \<notin> set (waiters r) \<and> no_events r t"

definition paused :: "ratchet \<Rightarrow> tid \<Rightarrow> bool" where
  "paused r t \<longleftrightarrow> t < next_tid r \<and> status r t = LUA_YIELD \<and> no_events r t \<and> t \<notin> set (waiters r)"

lemmas inv_parts = ids_ok_def owned_ok_def ready_ok_def waits_ok_def

section \<open>What Lua code does\<close>

definition plain :: "lval list \<Rightarrow> bool" where
  "plain vs \<longleftrightarrow> (\<forall>v \<in> set vs. cleanup_ids v = {})"

definition running :: "tid \<Rightarrow> ratchet \<Rightarrow> ratchet" where
  "running t r = set_coro t \<lparr>lstatus = LUA_OK, lstack = [LRatchet]\<rparr> r"

inductive api :: "(string \<Rightarrow> double option) \<Rightarrow> tid option \<Rightarrow> ratchet \<Rightarrow> ratchet \<Rightarrow> bool"
  for tonum me where
  api_done: "api tonum me r r"
| api_attach: "api tonum me r r1 \<Longrightarrow> me \<noteq> None \<Longrightarrow> plain vs \<Longrightarrow>
    ratchet_attach vs r1 = (x, r2) \<Longrightarrow> api tonum me r r2"
| api_unpause: "api tonum me r r1 \<Longrightarrow> plain vs \<Longrightarrow>
    (\<forall>t s. arg vs 0 = LThread t \<longrightarrow> me \<noteq> Some t \<longrightarrow> stack r1 t = LMain # s \<longrightarrow> paused r1 t) \<Longrightarrow>
    ratchet_unpause me vs r1 = Some (x, r2) \<Longrightarrow> api tonum me r r2"
| api_kill: "api tonum me r r1 \<Longrightarrow> me = Some t \<Longrightarrow> ratchet_kill t v r1 = Some r2 \<Longrightarrow> api tonum me r r2"
| api_alarm: "api tonum me r r1 \<Longrightarrow> me = Some t \<Longrightarrow>
    ratchet_alarm tonum t vs r1 = Some (x, r2) \<Longrightarrow> api tonum me r r2"
| api_space: "api tonum me r r1 \<Longrightarrow> ratchet_get_space t v r1 = (x, r2) \<Longrightarrow> api tonum me r r2"
| api_break: "api tonum me r r1 \<Longrightarrow> api tonum me r (ratchet_break r1)"

definition yields_or_ends :: "(string \<Rightarrow> double option) \<Rightarrow> tid \<Rightarrow> ratchet \<Rightarrow> lua_status \<Rightarrow> ratchet \<Rightarrow> bool"
  where "yields_or_ends tonum t r ret r' \<longleftrightarrow>
     (\<exists>r1. api tonum (Some t) (running t r) r1 \<and>
        ((\<exists>s. plain s \<and> r' = set_coro t \<lparr>lstatus = ret, lstack = s\<rparr> r1) \<or>
         (\<exists>vs ys r2. ret = LUA_YIELD \<and> ratchet_wait_all t vs r1 = (Inr ys, r2) \<and>
            r' = set_coro t \<lparr>lstatus = LUA_YIELD, lstack = ys\<rparr> r2)))"

definition acts :: "world \<Rightarrow> ratchet \<Rightarrow> ('a \<times> ratchet) option \<Rightarrow> bool" where
  "acts W r out \<longleftrightarrow> (\<forall>x r'. out = Some (x, r') \<longrightarrow> api (w_tonumber W) None r r')"

definition good_world :: "world \<Rightarrow> bool" where
  "good_world W \<longleftrightarrow>
     (\<forall>r t n ret r'. w_resume W r t n = Some (ret, r') \<longrightarrow> yields_or_ends (w_tonumber W) t r ret r') \<and>
     (\<forall>r t f. acts W r (w_pcall W r t f)) \<and>
     (\<forall>r h e t. acts W r (w_handler W r h e t)) \<and>
     (\<forall>r v. acts W r (w_get_fd W r v)) \<and>
     (\<forall>r v. acts W r (w_get_timeout W r v)) \<and>
     (\<forall>ts. set (w_order W ts) = set ts)"

lemma good_worldD:
  assumes "good_world W"
  shows "w_resume W r t n = Some (ret, r') \<Longrightarrow> yields_or_ends (w_tonumber W) t r ret r'"
    and "w_pcall W r t f = Some (x, r') \<Longrightarrow> api (w_tonumber W) None r r'"
    and "w_handler W r h e t = Some (x, r') \<Longrightarrow> api (w_tonumber W) None r r'"
    and "w_get_fd W r v = Some (y, r') \<Longrightarrow> api (w_tonumber W) None r r'"
    and "w_get_timeout W r v = Some (y, r') \<Longrightarrow> api (w_tonumber W) None r r'"
    and "set (w_order W ts) = set ts"
  using assms by (auto simp: good_world_def acts_def)

section \<open>Projections\<close>

lemma set_coro_simps [simp]:
  "pending (set_coro t c r) = pending r" "next_event (set_coro t c r) = next_event r"
  "coros (set_coro t c r) = (coros r)(t := c)" "next_tid (set_coro t c r) = next_tid r"
  "threads (set_coro t c r) = threads r" "ready (set_coro t c r) = ready r"
  "waiting_on (set_coro t c r) = waiting_on r" "alarm_events (set_coro t c r) = alarm_events r"
  "alarm_callbacks (set_coro t c r) = alarm_callbacks r"
  "error_handler (set_coro t c r) = error_handler r" "break_flag (set_coro t c r) = break_flag r"
  by (simp_all add: set_coro_def)

lemma set_stack_simps [simp]:
  "pending (set_stack t s r) = pending r" "next_event (set_stack t s r) = next_event r"
  "coros (set_stack t s r) = (coros r)(t := (coros r t)\<lparr>lstack := s\<rparr>)"
  "next_tid (set_stack t s r) = next_tid r"
  "threads (set_stack t s r) = threads r" "ready (set_stack t s r) = ready r"
  "waiting_on (set_stack t s r) = waiting_on r" "alarm_events (set_stack t s r) = alarm_events r"
  "alarm_callbacks (set_stack t s r) = alarm_callbacks r"
  "error_handler (set_stack t s r) = error_handler r" "break_flag (set_stack t s r) = break_flag r"
  by (simp_all add: set_stack_def)

lemma event_del_simps [simp]:
  "pending (event_del i r) = filter (\<lambda>e. ev_id e \<noteq> i) (pending r)"
  "next_event (event_del i r) = next_event r" "coros (event_del i r) = coros r"
  "next_tid (event_del i r) = next_tid r" "threads (event_del i r) = threads r"
  "ready (event_del i r) = ready r" "waiting_on (event_del i r) = waiting_on r"
  "alarm_events (event_del i r) = alarm_events r"
  "alarm_callbacks (event_del i r) = alarm_callbacks r"
  "error_handler (event_del i r) = error_handler r" "break_flag (event_del i r) = break_flag r"
  by (simp_all add: event_del_def)

lemma fold_event_del:
  "fold event_del is r = r\<lparr>pending := filter (\<lambda>e. ev_id e \<notin> set is) (pending r)\<rparr>"
proof (induction "is" arbitrary: r)
  case (Cons i "is")
  then show ?case
    by (simp add: event_del_def conj_commute)
qed simp

lemma end_alarm_eq:
  "end_alarm t r =
     r\<lparr>pending := filter (\<lambda>e. ev_id e \<notin> set_option (alarm_events r t)) (pending r)\<rparr>"
  by (cases "alarm_events r t") (simp_all add: end_alarm_def event_del_def)

lemma end_events_eq:
  "end_all_waiting_thread_events t r =
     r\<lparr>pending := filter (\<lambda>e. ev_id e \<notin> held (stack r t)) (pending r)\<rparr>"
proof (cases "arg (stack r t) 1")
  case (LCleanup a b)
  then show ?thesis
    by (cases a; cases b)
      (simp_all add: end_all_waiting_thread_events_def held_def fold_event_del event_del_def conj_commute)
qed (simp_all add: end_all_waiting_thread_events_def held_def)

lemma end_thread_persist_simps [simp]:
  "pending (end_thread_persist t r) =
     filter (\<lambda>e. ev_id e \<notin> set_option (alarm_events r t)) (pending r)"
  "next_event (end_thread_persist t r) = next_event r"
  "coros (end_thread_persist t r) = (coros r)(t := (coros r t)\<lparr>lstack := []\<rparr>)"
  "next_tid (end_thread_persist t r) = next_tid r"
  "threads (end_thread_persist t r) = removeAll t (threads r)"
  "ready (end_thread_persist t r) = ready r"
  "waiting_on (end_thread_persist t r) =
     map (\<lambda>(w, cs). (w, removeAll (LThread t) cs)) (waiting_on r)"
  "waiters (end_thread_persist t r) = waiters r"
  "alarm_events (end_thread_persist t r) = alarm_events r"
  "error_handler (end_thread_persist t r) = error_handler r"
  by (simp_all add: end_thread_persist_def end_alarm_eq Let_def comp_def split_def)

section \<open>Changes that keep the invariant\<close>

lemma inv_cong:
  assumes "pending r' = pending r" "next_event r' = next_event r" "coros r' = coros r"
    "next_tid r' = next_tid r" "threads r' = threads r" "ready r' = ready r" "waiters r' = waiters r"
    "alarm_events r' = alarm_events r"
  shows "sound me r' = sound me r"
  using assms by (simp add: sound_def inv_parts no_events_def resumable_def event_ok_def)

lemma inv_drop:
  assumes "sound me r"
  shows "sound me (r\<lparr>pending := filter P (pending r)\<rparr>)"
  using assms unfolding sound_def inv_parts no_events_def resumable_def event_ok_def
  by (auto simp: distinct_map_filter)

lemma inv_threads: "sound me r \<Longrightarrow> set ts \<subseteq> set (threads r) \<Longrightarrow> sound me (r\<lparr>threads := ts\<rparr>)"
  unfolding sound_def inv_parts no_events_def resumable_def event_ok_def by auto

lemma inv_event_del: "sound me r \<Longrightarrow> sound me (event_del i r)"
  unfolding event_del_def by (rule inv_drop)

lemma inv_end_events: "sound me r \<Longrightarrow> sound me (end_all_waiting_thread_events t r)"
  unfolding end_events_eq by (rule inv_drop)

lemma inv_set_coro:
  assumes "sound me r" "no_events r t \<or> adrift c" "held (lstack c) \<subseteq> held (stack r t)"
    and "t \<in> set (ready r) \<Longrightarrow> t \<in> set (threads r) \<Longrightarrow> lstatus c \<noteq> LUA_OK \<or> lstack c \<noteq> []"
    and "t \<in> set (waiters r) \<Longrightarrow> lstatus c \<noteq> LUA_OK"
    and "me = Some t \<or> lstatus c \<noteq> LUA_OK \<or> (\<forall>e \<in> set (pending r). ev_thread e \<noteq> t)"
  shows "sound me (set_coro t c r)"
proof -
  have "event_ok me (set_coro t c r) e" if "e \<in> set (pending r)" for e
    using assms that by (auto simp: sound_def event_ok_def no_events_def)
  moreover have "ids_ok (set_coro t c r)" "owned_ok (set_coro t c r)"
    using assms by (auto simp: sound_def ids_ok_def owned_ok_def)
  moreover have "ready_ok me (set_coro t c r)"
    using assms by (cases "lstatus c") (auto simp: sound_def ready_ok_def resumable_def no_events_def)
  moreover have "waits_ok me (set_coro t c r)"
    using assms by (auto simp: sound_def waits_ok_def no_events_def)
  ultimately show ?thesis
    using assms(1) by (simp add: sound_def)
qed

lemma inv_run: "sound None r \<Longrightarrow> idle r t \<Longrightarrow> sound (Some t) r"
  unfolding sound_def inv_parts idle_def event_ok_def no_events_def by auto

lemma inv_running: "sound None r \<Longrightarrow> idle r t \<Longrightarrow> sound (Some t) (running t r)"
  unfolding running_def
  by (rule inv_set_coro [OF inv_run]) (auto simp: idle_def held_def arg_def)

lemma inv_suspend: "sound (Some t) r \<Longrightarrow> status r t = LUA_YIELD \<Longrightarrow> sound None r"
  unfolding sound_def inv_parts event_ok_def by auto

lemma inv_me:
  assumes "sound (Some t) r"
  shows "no_events r t \<and> t \<notin> set (ready r) \<and> t \<notin> set (waiters r)"
  using assms unfolding sound_def inv_parts event_ok_def no_events_def by auto

lemma inv_idle: "sound (Some t) r \<Longrightarrow> idle r t"
  using inv_me [of t r] by (simp add: idle_def sound_def)

lemma event_ok_other: "event_ok (Some t) r e \<Longrightarrow> ev_thread e \<noteq> t \<Longrightarrow> event_ok None r e"
  by (auto simp: event_ok_def split: if_splits)

lemma inv_forget:
  "sound (Some t) r \<Longrightarrow> (\<And>e. e \<in> set (pending r) \<Longrightarrow> ev_thread e \<noteq> t) \<Longrightarrow> sound None r"
  unfolding sound_def ready_ok_def waits_ok_def by (auto intro!: event_ok_other [of t])

lemma end_thread_eq:
  "end_thread_persist t r =
     (set_coro t ((coros r t)\<lparr>lstack := []\<rparr>)
       (r\<lparr>threads := removeAll t (threads r),
          pending := filter (\<lambda>e. ev_id e \<notin> set_option (alarm_events r t)) (pending r),
          waiting_on := map (\<lambda>(w, cs). (w, removeAll (LThread t) cs)) (waiting_on r)\<rparr>))"
  by (simp add: end_thread_persist_def end_alarm_eq set_stack_def set_coro_def Let_def)

text \<open>What is left of the events of a thread that is ended: no alarm, and other events only if it was
  suspended.\<close>

lemma end_thread_events:
  assumes "sound me r" "e \<in> set (pending (end_thread_persist t r))" "ev_thread e = t"
  shows "ev_cb e \<noteq> Alarm_Triggered \<and> me \<noteq> Some t \<and> status r t \<noteq> LUA_OK"
proof -
  have e: "e \<in> set (pending r)" "alarm_events r t \<noteq> Some (ev_id e)" using assms(2) by auto
  with assms(1,3) show ?thesis
    by (auto simp: sound_def event_ok_def parked_def adrift_def split: if_splits)
qed

lemma inv_end_thread:
  assumes "sound me r"
  shows "sound me (end_thread_persist t r)"
proof -
  let ?r = "r\<lparr>threads := removeAll t (threads r),
          pending := filter (\<lambda>e. ev_id e \<notin> set_option (alarm_events r t)) (pending r),
          waiting_on := map (\<lambda>(w, cs). (w, removeAll (LThread t) cs)) (waiting_on r)\<rparr>"
  have "sound me (r\<lparr>threads := removeAll t (threads r)\<rparr>)"
    using assms by (rule inv_threads) auto
  from inv_drop [OF this, of "\<lambda>e. ev_id e \<notin> set_option (alarm_events r t)"]
  have s: "sound me ?r"
    by (rule inv_cong [THEN iffD2, rotated -1]) (simp_all add: comp_def split_def)
  have ev: "ev_cb e \<noteq> Alarm_Triggered \<and> me \<noteq> Some t \<and> status r t \<noteq> LUA_OK"
    if "e \<in> set (pending ?r)" "ev_thread e = t" for e
    using that by (intro end_thread_events [OF assms]) simp_all
  have "no_events ?r t \<or> adrift ((coros r t)\<lparr>lstack := []\<rparr>)"
    using ev by (auto simp: no_events_def adrift_def)
  moreover have "t \<in> set (waiters ?r) \<Longrightarrow> status r t \<noteq> LUA_OK"
    using s by (auto simp: sound_def waits_ok_def)
  ultimately show ?thesis
    unfolding end_thread_eq using ev by (intro inv_set_coro [OF s]) (auto simp: held_def arg_def)
qed

lemma inv_stop:
  assumes "sound (Some t) r"
  shows "sound None (end_thread_persist t r)"
  using inv_end_thread [OF assms] end_thread_events [OF assms] by (blast intro: inv_forget)

lemma parked_held: "parked c e \<Longrightarrow> ev_id e \<in> held (lstack c)"
  by (auto simp: parked_def held_def arg_def)

lemma inv_parked:
  assumes "sound me r" "e \<in> set (pending r)" "ev_cb e \<noteq> Alarm_Triggered" "stack r (ev_thread e) = LMain # s"
  shows "me \<noteq> Some (ev_thread e) \<and> parked (coros r (ev_thread e)) e"
  using assms by (auto simp: sound_def event_ok_def adrift_def)

lemma inv_kill_events:
  assumes "sound me r" "stack r t = LMain # s"
  shows "no_events (end_all_waiting_thread_events t r) t"
proof -
  have "ev_id e \<in> held (stack r t)"
    if "e \<in> set (pending r)" "ev_cb e \<noteq> Alarm_Triggered" "ev_thread e = t" for e
    using inv_parked [OF assms(1) that(1,2)] assms(2) that(3) parked_held by blast
  then show ?thesis
    by (auto simp: no_events_def end_events_eq)
qed

lemma inv_kill_thread: "sound me r \<Longrightarrow> sound me (kill_thread t r)"
  by (simp add: kill_thread_def inv_end_thread inv_end_events)

lemma inv_kill: "sound me r \<Longrightarrow> ratchet_kill t v r = Some r' \<Longrightarrow> sound me r'"
  by (auto simp: ratchet_kill_def inv_kill_thread split: lval.splits if_splits)

section \<open>Functions of ratchet.thread\<close>

lemma plain_held [simp]: "plain vs \<Longrightarrow> held vs = {}"
  by (simp add: plain_def held_def arg_def)

lemma plain_tl: "plain vs \<Longrightarrow> plain (tl vs)"
  by (cases vs) (simp_all add: plain_def)

lemma inv_set_ready:
  assumes "sound me r" "me \<noteq> Some t" "t < next_tid r" "resumable r t" "no_events r t"
    "t \<notin> set (waiters r)"
  shows "sound me (set_thread_ready t r)"
  using assms unfolding sound_def inv_parts set_thread_ready_def event_ok_def no_events_def resumable_def
  by auto

lemma inv_persist:
  assumes "sound me r" "t \<in> set (ready r) \<Longrightarrow> resumable r t"
  shows "sound me (set_thread_persist t r)"
  using assms unfolding sound_def inv_parts set_thread_persist_def event_ok_def no_events_def resumable_def
  by auto

lemma inv_attach:
  assumes i: "sound me r" and p: "plain vs" and a: "ratchet_attach vs r = (x, r')"
  shows "sound me r' \<and> next_tid r \<le> next_tid r'"
proof (cases "vs = []")
  case False
  let ?n = "next_tid r"
  let ?r1 = "r\<lparr>next_tid := Suc ?n\<rparr>"
  let ?r2 = "set_coro ?n \<lparr>lstatus = LUA_OK, lstack = vs\<rparr> ?r1"
  have e: "e \<in> set (pending r) \<Longrightarrow> ev_thread e \<noteq> ?n" for e
    using i by (auto simp: sound_def ids_ok_def)
  have n: "?n \<notin> set (ready r)" "?n \<notin> set (waiters r)" "me \<noteq> Some ?n"
    using i by (auto simp: sound_def ready_ok_def waits_ok_def)
  have "sound me ?r1"
    using i by (auto simp: sound_def inv_parts event_ok_def no_events_def resumable_def less_Suc_eq)
  then have "sound me ?r2"
    using e n p by (intro inv_set_coro) (auto simp: no_events_def)
  then have "sound me (set_thread_persist ?n ?r2)"
    by (rule inv_persist) (use n in simp)
  then have "sound me (set_thread_ready ?n (set_thread_persist ?n ?r2))"
    using e n False by (intro inv_set_ready) (auto simp: resumable_def no_events_def set_thread_persist_def)
  then show ?thesis
    using a False by (auto simp: ratchet_attach_def lua_newthread_def set_thread_ready_def set_thread_persist_def)
qed (use assms in \<open>auto simp: ratchet_attach_def\<close>)

lemma inv_unpause:
  assumes i: "sound me r" and p: "plain vs"
    and t: "\<forall>t s. arg vs 0 = LThread t \<longrightarrow> me \<noteq> Some t \<longrightarrow> stack r t = LMain # s \<longrightarrow> paused r t"
    and u: "ratchet_unpause me vs r = Some (x, r')"
  shows "sound me r' \<and> next_tid r' = next_tid r"
proof (cases "\<exists>t s. arg vs 0 = LThread t \<and> me \<noteq> Some t \<and> stack r t = LMain # s")
  case True
  then obtain t s where t1: "arg vs 0 = LThread t" and s: "stack r t = LMain # s" and m: "me \<noteq> Some t" by blast
  with t have t2: "me \<noteq> Some t" "paused r t" by auto
  then have y: "t < next_tid r" "status r t = LUA_YIELD" and n: "no_events r t" "t \<notin> set (waiters r)"
    by (simp_all add: paused_def)
  let ?c = "(coros r t)\<lparr>lstack := tl vs\<rparr>"
  have "sound me (set_coro t ?c r)"
    using i n p y by (intro inv_set_coro) (auto simp: plain_tl)
  then have "sound me (set_thread_ready t (set_coro t ?c r))"
    using t2 y n by (intro inv_set_ready) (auto simp: resumable_def no_events_def)
  then show ?thesis
    using u t1 s y m
    by (auto simp: ratchet_unpause_def set_stack_def set_coro_def set_thread_ready_def)
next
  case False
  with i u show ?thesis
    by (auto simp: ratchet_unpause_def split: lval.splits list.splits if_splits)
qed

lemma inv_new_alarm:
  assumes i: "sound (Some t) r" and none: "\<And>e. \<not> (e \<in> set (pending r) \<and> ev_thread e = t)"
  shows "sound (Some t) (r\<lparr>pending := pending r @ [\<lparr>ev_id = next_event r, ev_kind = EV_TIMER,
      ev_cb = Alarm_Triggered, ev_thread = t, ev_tv = tv\<rparr>], next_event := Suc (next_event r),
      alarm_events := (alarm_events r)(t := Some (next_event r)), alarm_callbacks := cbs\<rparr>)"
    (is "sound _ ?r")
proof -
  have n: "e \<in> set (pending r) \<Longrightarrow> ev_id e < next_event r \<and> ev_thread e < next_tid r \<and> ev_thread e \<noteq> t" for e
    using i none by (auto simp: sound_def ids_ok_def)
  have al: "i < next_event r" if "alarm_events r u = Some i" for u i
    using i that by (simp add: sound_def ids_ok_def)
  have "distinct (map ev_id (pending r))"
    using i by (simp add: sound_def ids_ok_def)
  then have "ids_ok ?r"
    using i n al by (auto simp: sound_def ids_ok_def intro: less_SucI dest!: n)
  moreover have "owned_ok ?r"
    unfolding owned_ok_def
  proof (intro conjI allI ballI impI)
    fix u i assume h: "i \<in> held (stack ?r u)"
    then have b: "i < next_event r"
      and o: "\<And>e. e \<in> set (pending r) \<Longrightarrow> ev_id e = i \<Longrightarrow> ev_thread e = u \<and> ev_cb e \<noteq> Alarm_Triggered"
      using i by (auto simp: sound_def owned_ok_def)
    show "i < next_event ?r"
      using b by simp
    fix e assume "e \<in> set (pending ?r)" "ev_id e = i"
    then have "e \<in> set (pending r)"
      using b by auto
    with o \<open>ev_id e = i\<close> show "ev_thread e = u" "ev_cb e \<noteq> Alarm_Triggered"
      by auto
  next
    fix u i e assume h: "alarm_events ?r u = Some i" "e \<in> set (pending ?r)" "ev_id e = i"
    have "ev_thread e = u \<and> ev_cb e = Alarm_Triggered"
    proof (cases "e \<in> set (pending r)")
      case True
      with h n [OF True] have "alarm_events r u = Some i"
        by (auto split: if_splits)
      with True h(3) i show ?thesis
        by (simp add: sound_def owned_ok_def)
    next
      case False
      with h(2) have e: "ev_thread e = t" "ev_cb e = Alarm_Triggered" "ev_id e = next_event r"
        by auto
      have "u = t"
        using h(1,3) e(3) al [of u i] by (auto split: if_splits)
      with e show ?thesis by simp
    qed
    then show "ev_thread e = u" "ev_cb e = Alarm_Triggered"
      by simp_all
  qed
  moreover have "ready_ok (Some t) ?r" "waits_ok (Some t) ?r"
    using i by (auto simp: sound_def ready_ok_def waits_ok_def no_events_def resumable_def)
  moreover have "\<forall>e \<in> set (pending r). event_ok (Some t) ?r e"
    using i n by (auto simp: sound_def event_ok_def)
  then have "\<forall>e \<in> set (pending ?r). event_ok (Some t) ?r e"
    by (simp add: event_ok_def)
  moreover have "t < next_tid ?r"
    using i by (simp add: sound_def)
  ultimately show ?thesis
    unfolding sound_def by blast
qed

lemma inv_alarm:
  assumes i: "sound (Some t) r" and a: "ratchet_alarm tonum t vs r = Some (x, r')"
  shows "sound (Some t) r' \<and> next_tid r' = next_tid r"
proof (cases "\<exists>tv. gettimeval_arg tonum (arg vs 0) = Some (Inr (Some tv))")
  case True
  then obtain tv where tv: "gettimeval_arg tonum (arg vs 0) = Some (Inr (Some tv))" by blast
  let ?r1 = "end_alarm t r"
  have i1: "sound (Some t) ?r1"
    unfolding end_alarm_eq using i by (rule inv_drop)
  have none: "\<not> (e \<in> set (pending ?r1) \<and> ev_thread e = t)" for e
  proof
    assume e: "e \<in> set (pending ?r1) \<and> ev_thread e = t"
    with i1 have "alarm_events ?r1 t = Some (ev_id e)"
      by (auto simp: sound_def event_ok_def split: if_splits)
    with e show False by (auto simp: end_alarm_eq)
  qed
  have "r' = ?r1\<lparr>pending := pending ?r1 @ [\<lparr>ev_id = next_event ?r1, ev_kind = EV_TIMER,
      ev_cb = Alarm_Triggered, ev_thread = t, ev_tv = Some tv\<rparr>], next_event := Suc (next_event ?r1),
      alarm_events := (alarm_events ?r1)(t := Some (next_event ?r1)),
      alarm_callbacks := (alarm_callbacks ?r1)(t := arg vs 1)\<rparr>"
    using a tv by (auto simp: ratchet_alarm_def add_event_def event_assign_def event_add_def Let_def)
  moreover have "next_tid ?r1 = next_tid r"
    by (simp add: end_alarm_eq)
  ultimately show ?thesis
    using inv_new_alarm [OF i1 none] by simp
next
  case False
  from a obtain y where y: "gettimeval_arg tonum (arg vs 0) = Some y"
    by (auto simp: ratchet_alarm_def bind_eq_Some_conv)
  with i a False show ?thesis
    by (cases y; cases "projr y") (auto simp: ratchet_alarm_def)
qed

lemma inv_api:
  assumes "api tonum me r r'" "sound me r"
  shows "sound me r'"
  using assms
proof (induction rule: api.induct)
  case (api_attach r r1 vs x r2)
  then show ?case using inv_attach by blast
next
  case (api_unpause r r1 vs x r2)
  then show ?case using inv_unpause by blast
next
  case (api_kill r r1 t v r2)
  then show ?case using inv_kill by blast
next
  case (api_alarm r r1 t vs x r2)
  then show ?case using inv_alarm by blast
next
  case (api_space r r1 t v x r2)
  have "sound me r2 = sound me r1"
    using api_space.hyps(2) by (intro inv_cong) (auto simp: ratchet_get_space_def Let_def split: if_splits)
  with api_space show ?case by simp
next
  case (api_break r r1)
  have "sound me (ratchet_break r1) = sound me r1"
    by (rule inv_cong) (simp_all add: ratchet_break_def)
  with api_break show ?case by simp
qed simp

text \<open>What Lua code cannot do while it runs outside of a ratchet thread: add or remove events, change
  a status or the set of waiting threads, or touch a thread that is not paused.\<close>

lemma api_main:
  assumes "api tonum None r r'"
  shows "pending r' = pending r \<and> next_event r' = next_event r \<and> next_tid r' = next_tid r \<and>
    waiting_on r' = waiting_on r \<and> (\<forall>t. status r' t = status r t) \<and>
    (\<forall>t. (\<forall>s. stack r t \<noteq> LMain # s) \<longrightarrow> coros r' t = coros r t \<and> (t \<in> set (ready r') \<longleftrightarrow> t \<in> set (ready r)))"
  using assms
proof (induction rule: api.induct)
  case (api_unpause r r1 vs x r2)
  then show ?case
    by (auto simp: ratchet_unpause_def Let_def set_thread_ready_def split: lval.splits list.splits if_splits)
next
  case (api_space r r1 t v x r2)
  then show ?case
    by (auto simp: ratchet_get_space_def Let_def split: if_splits)
qed (simp_all add: ratchet_break_def)

section \<open>Waiting for other threads\<close>

lemma inv_add_waiter:
  assumes "sound None r" "t < next_tid r" "status r t = LUA_YIELD" "no_events r t" "t \<notin> set (ready r)"
  shows "sound None (r\<lparr>waiting_on := AList.update t cs (waiting_on r)\<rparr>)" (is "sound None ?r")
proof -
  have w: "set (waiters ?r) = insert t (set (waiters r))"
    by (auto simp: update_keys)
  have d: "distinct (waiters ?r)"
    using assms(1) by (simp add: sound_def waits_ok_def distinct_update)
  have "waits_ok None ?r"
    using assms d unfolding waits_ok_def w by (simp add: sound_def waits_ok_def no_events_def)
  moreover have "ready_ok None ?r"
    using assms unfolding ready_ok_def w by (auto simp: sound_def ready_ok_def no_events_def resumable_def)
  moreover have "event_ok None ?r = event_ok None r"
    by (simp add: fun_eq_iff event_ok_def)
  moreover have "ids_ok ?r" "owned_ok ?r"
    using assms(1) by (simp_all add: sound_def ids_ok_def owned_ok_def)
  ultimately show ?thesis
    using assms(1) by (simp add: sound_def)
qed

definition suspended :: "ratchet \<Rightarrow> tid \<Rightarrow> bool" where
  "suspended r t \<longleftrightarrow> sound None r \<and> t < next_tid r \<and> t \<notin> set (ready r) \<and> no_events r t \<and>
     status r t = LUA_YIELD"

lemma resumed:
  assumes y: "yields_or_ends tonum t r ret r'" and i: "sound None r" "idle r t"
  shows "status r' t = ret \<and> held (stack r' t) = {} \<and>
    (sound (Some t) r' \<or> suspended r' t \<and> stack r' t = [LLight RATCHET_YIELD_WAITALL])"
proof -
  from y obtain r1 where a: "api tonum (Some t) (running t r) r1"
    and c: "(\<exists>s. plain s \<and> r' = set_coro t \<lparr>lstatus = ret, lstack = s\<rparr> r1) \<or>
         (\<exists>vs ys r2. ret = LUA_YIELD \<and> ratchet_wait_all t vs r1 = (Inr ys, r2) \<and>
            r' = set_coro t \<lparr>lstatus = LUA_YIELD, lstack = ys\<rparr> r2)"
    unfolding yields_or_ends_def by blast
  from inv_api [OF a inv_running [OF i]] have i1: "sound (Some t) r1" .
  note m = inv_me [OF i1]
  have s1: "sound (Some t) (set_coro t c r1)" if "held (lstack c) = {}" for c
    using i1 m that by (intro inv_set_coro) auto
  from c show ?thesis
  proof (elim disjE exE conjE)
    fix s assume "plain s" "r' = set_coro t \<lparr>lstatus = ret, lstack = s\<rparr> r1"
    with s1 [of "\<lparr>lstatus = ret, lstack = s\<rparr>"] show ?thesis by simp
  next
    fix vs ys r2
    assume h: "ret = LUA_YIELD" "ratchet_wait_all t vs r1 = (Inr ys, r2)"
      "r' = set_coro t \<lparr>lstatus = LUA_YIELD, lstack = ys\<rparr> r2"
    then obtain cs where ys: "ys = [LLight RATCHET_YIELD_WAITALL]"
      and r2: "r2 = r1\<lparr>waiting_on := AList.update t cs (waiting_on r1)\<rparr>"
      by (auto simp: ratchet_wait_all_def split: option.splits sum.splits)
    let ?r = "set_coro t \<lparr>lstatus = LUA_YIELD, lstack = ys\<rparr> r1"
    have "sound None ?r"
      using s1 [of "\<lparr>lstatus = LUA_YIELD, lstack = ys\<rparr>"] ys
      by (intro inv_suspend [of t]) (simp_all add: held_def arg_def)
    then have "sound None (?r\<lparr>waiting_on := AList.update t cs (waiting_on ?r)\<rparr>)"
      using i1 m by (intro inv_add_waiter) (simp_all add: sound_def no_events_def)
    moreover have "?r\<lparr>waiting_on := AList.update t cs (waiting_on ?r)\<rparr> = r'"
      using h(3) r2 by (simp add: set_coro_def)
    ultimately show ?thesis
      using h(1) m i1 ys r2 h(3)
      by (simp add: suspended_def sound_def [of "Some t"] held_def arg_def no_events_def)
  qed
qed

section \<open>Waiting for events\<close>

text \<open>
  A thread is \<open>aside\<close> while the scheduler sets up what it waits for: suspended, in no table, and
  without the main thread on its stack, so that neither an event nor \<open>unpause\<close> resumes it.
  \<open>own t ids cbs r\<close> says which events it has so far.
\<close>

definition aside :: "ratchet \<Rightarrow> tid \<Rightarrow> bool" where
  "aside r t \<longleftrightarrow> sound None r \<and> t < next_tid r \<and> status r t = LUA_YIELD \<and> adrift (coros r t) \<and> t \<notin> set (ready r) \<and> t \<notin> set (waiters r)"

definition own :: "tid \<Rightarrow> nat set \<Rightarrow> callback set \<Rightarrow> ratchet \<Rightarrow> bool" where
  "own t ids cbs r \<longleftrightarrow> aside r t \<and>
     (\<forall>e \<in> set (pending r). ev_thread e = t \<and> ev_cb e \<noteq> Alarm_Triggered \<longrightarrow> ev_id e \<in> ids \<and> ev_cb e \<in> cbs) \<and>
     (\<forall>i \<in> ids. i < next_event r \<and>
        (\<forall>e \<in> set (pending r). ev_id e = i \<longrightarrow> ev_thread e = t \<and> ev_cb e \<noteq> Alarm_Triggered))"

lemma own_sound: "own t ids cbs r \<Longrightarrow> sound None r"
  by (simp add: own_def aside_def)

lemma own_start: "aside r t \<Longrightarrow> no_events r t \<Longrightarrow> own t {} cbs r"
  by (auto simp: own_def no_events_def)

lemma own_api:
  assumes "own t ids cbs r" "api tonum None r r'"
  shows "own t ids cbs r'"
proof -
  have s: "sound None r'"
    using assms by (intro inv_api [OF assms(2)]) (rule own_sound)
  have "\<forall>s. stack r t \<noteq> LMain # s"
    using assms(1) by (simp add: own_def aside_def adrift_def)
  with api_main [OF assms(2)] assms(1) s show ?thesis
    by (auto simp: own_def aside_def)
qed

lemma own_stack:
  assumes "own t ids cbs r" "held s = {}" "\<forall>s'. s \<noteq> LMain # s'"
  shows "own t ids cbs (set_stack t s r)"
proof -
  have a: "adrift ((coros r t)\<lparr>lstack := s\<rparr>)"
    using assms by (simp add: own_def aside_def adrift_def)
  have "sound None (set_coro t ((coros r t)\<lparr>lstack := s\<rparr>) r)"
    using assms a by (intro inv_set_coro) (auto simp: own_def aside_def adrift_def)
  with a assms(1) show ?thesis
    by (simp add: own_def aside_def set_stack_def)
qed

text \<open>Taking a number for a new event, and handing the event to libevent.\<close>

lemma inv_next_event: "sound me r \<Longrightarrow> sound me (r\<lparr>next_event := Suc (next_event r)\<rparr>)"
  unfolding sound_def inv_parts event_ok_def no_events_def resumable_def by (auto intro: less_SucI)

lemma own_next:
  assumes "own t ids cbs r"
  shows "own t (insert (next_event r) ids) cbs (r\<lparr>next_event := Suc (next_event r)\<rparr>)"
proof -
  have "ev_id e \<noteq> next_event r" if "e \<in> set (pending r)" for e
    using own_sound [OF assms] that by (auto simp: sound_def ids_ok_def)
  with assms inv_next_event [of None r] show ?thesis
    by (auto simp: own_def aside_def intro: less_SucI)
qed

lemma inv_queue_event:
  assumes "sound None r" "ev_id e < next_event r" "\<forall>e' \<in> set (pending r). ev_id e' \<noteq> ev_id e"
    and "\<forall>u. alarm_events r u \<noteq> Some (ev_id e)" "\<forall>u. ev_id e \<notin> held (stack r u)"
    and "ev_cb e \<noteq> Alarm_Triggered" "aside r (ev_thread e)"
  shows "sound None (r\<lparr>pending := pending r @ [e]\<rparr>)" (is "sound None ?r")
proof -
  have "ids_ok ?r" "owned_ok ?r"
    using assms by (auto simp: sound_def ids_ok_def owned_ok_def aside_def)
  moreover have "ready_ok None ?r" "waits_ok None ?r"
    using assms by (auto simp: sound_def ready_ok_def waits_ok_def aside_def no_events_def resumable_def)
  moreover have "\<forall>e' \<in> set (pending r). event_ok None ?r e'"
    using assms(1) by (auto simp: sound_def event_ok_def)
  moreover have "event_ok None ?r e"
    using assms(6,7) by (simp add: event_ok_def aside_def)
  ultimately show ?thesis
    by (simp add: sound_def)
qed

lemma own_event:
  assumes o: "own t ids cbs r" and e: "ev_cb e \<in> cbs" "ev_cb e \<noteq> Alarm_Triggered" "ev_thread e = t" "ev_id e = next_event r"
  shows "own t (insert (next_event r) ids) cbs (r\<lparr>next_event := Suc (next_event r), pending := pending r @ [e]\<rparr>)"
proof -
  let ?r = "r\<lparr>next_event := Suc (next_event r)\<rparr>"
  note n = own_next [OF o] and s = own_sound [OF o]
  have new: "\<forall>e' \<in> set (pending ?r). ev_id e' \<noteq> ev_id e" "\<forall>u. alarm_events ?r u \<noteq> Some (ev_id e)"
    "\<forall>u. ev_id e \<notin> held (stack ?r u)"
    using s e(4) by (auto simp: sound_def ids_ok_def owned_ok_def)
  have "aside ?r (ev_thread e)" using n e(3) by (simp add: own_def)
  then have "sound None (?r\<lparr>pending := pending ?r @ [e]\<rparr>)"
    using own_sound [OF n] new e by (intro inv_queue_event) simp_all
  then show ?thesis
    using n e by (auto simp: own_def aside_def)
qed

lemma own_add:
  assumes "own t ids cbs r" "cb \<in> cbs" "cb \<noteq> Alarm_Triggered" "add_event k cb t tv r = (i, r')"
  shows "own t (insert i ids) cbs r'"
proof -
  let ?e = "\<lparr>ev_id = next_event r, ev_kind = k, ev_cb = cb, ev_thread = t, ev_tv = tv\<rparr>"
  have "i = next_event r" "r' = r\<lparr>next_event := Suc (next_event r), pending := pending r @ [?e]\<rparr>"
    using assms(4) by (auto simp: add_event_def event_assign_def event_add_def)
  with own_event [of t ids cbs r ?e] assms show ?thesis by simp
qed

text \<open>When the cleanup table holds all events of the thread, the thread is parked by putting the main
  thread below it.\<close>

definition prepared :: "tid \<Rightarrow> ratchet \<Rightarrow> bool" where
  "prepared t r \<longleftrightarrow> (\<exists>v s cbs. stack r t = v # s \<and> own t (cleanup_ids v) cbs r \<and>
     (Event_Triggered \<in> cbs \<or> Timeout_Triggered \<in> cbs \<longrightarrow> (\<exists>i. cleanup_ids v \<subseteq> {i})) \<and>
     (Multi_Event_Triggered \<in> cbs \<longrightarrow> (\<exists>fds s'. s = LFds fds # s')))"

lemma inv_park:
  assumes "prepared t r"
  shows "sound None (set_stack t (LMain # stack r t) r)" (is "sound None ?r")
proof -
  obtain v s cbs where st: "stack r t = v # s" and o: "own t (cleanup_ids v) cbs r"
    and one: "Event_Triggered \<in> cbs \<or> Timeout_Triggered \<in> cbs \<Longrightarrow> \<exists>i. cleanup_ids v \<subseteq> {i}"
    and fds: "Multi_Event_Triggered \<in> cbs \<Longrightarrow> \<exists>fds s'. s = LFds fds # s'"
    using assms unfolding prepared_def by blast
  have a: "sound None r" "status r t = LUA_YIELD" "t < next_tid r" "t \<notin> set (ready r)" "t \<notin> set (waiters r)"
    using o by (simp_all add: own_def aside_def adrift_def)
  have h: "held (stack ?r u) = (if u = t then cleanup_ids v else held (stack r u))" for u
    by (simp add: st held_def arg_def)
  have "owned_ok ?r"
    using a(1) o unfolding owned_ok_def h by (auto simp: sound_def owned_ok_def own_def)
  moreover have "ids_ok ?r" "ready_ok None ?r" "waits_ok None ?r"
    using a by (auto simp: sound_def ids_ok_def ready_ok_def waits_ok_def no_events_def resumable_def)
  moreover have "event_ok None ?r e" if e: "e \<in> set (pending r)" for e
  proof (cases "ev_thread e = t \<and> ev_cb e \<noteq> Alarm_Triggered")
    case True
    with o e have "ev_id e \<in> cleanup_ids v" "ev_cb e \<in> cbs" by (auto simp: own_def)
    moreover have "cleanup_ids v = {ev_id e}" if "ev_cb e = Event_Triggered \<or> ev_cb e = Timeout_Triggered"
    proof -
      from one calculation(2) that obtain i where "cleanup_ids v \<subseteq> {i}" by metis
      with calculation(1) show ?thesis by auto
    qed
    ultimately have "parked (coros ?r t) e" using fds a(2) st by (auto simp: parked_def)
    with True show ?thesis by (simp add: event_ok_def)
  next
    case False
    with a(1,2) e show ?thesis by (auto simp: sound_def event_ok_def)
  qed
  ultimately show ?thesis
    using a by (simp add: sound_def)
qed

definition waits_properly :: "tid \<Rightarrow> outcome \<Rightarrow> bool" where
  "waits_properly t out \<longleftrightarrow> (\<forall>x r'. out = Some (x, r') \<longrightarrow> (if x = None then prepared t r' else sound None r'))"

lemma get_fd_keeps:
  assumes "good_world W" "own t ids cbs r" "get_fd_from_object W v r = Some (x, r')"
  shows "own t ids cbs r'"
proof (cases "w_has_get_fd W r v")
  case True
  with assms(3) obtain y r1 where "w_get_fd W r v = Some (y, r1)"
    and "(case y of Inl e \<Rightarrow> Some (Inl e, r1)
      | Inr fd \<Rightarrow> do { i \<leftarrow> lua_tointeger (w_tonumber W) fd; Some (Inr (int32 i), r1) }) = Some (x, r')"
    by (auto simp: get_fd_from_object_def bind_eq_Some_conv)
  then have "w_get_fd W r v = Some (y, r1)" "r' = r1"
    by (cases y; auto simp: bind_eq_Some_conv)+
  with own_api [OF assms(2)] good_worldD(4) [OF assms(1)] show ?thesis by blast
qed (use assms in \<open>simp add: get_fd_from_object_def\<close>)

lemma get_timeout_keeps:
  assumes "good_world W" "own t ids cbs r" "get_timeout_from_object W v r = Some (x, r')"
  shows "own t ids cbs r'"
proof (cases "w_has_get_timeout W r v")
  case True
  then obtain y r1 where "w_get_timeout W r v = Some (y, r1)" "r' = r1"
    using assms(3) by (auto simp: get_timeout_from_object_def bind_eq_Some_conv)
  with own_api [OF assms(2)] good_worldD(5) [OF assms(1)] show ?thesis by blast
qed (use assms in \<open>simp add: get_timeout_from_object_def\<close>)

lemma held_single [simp]: "held [v] = {}"
  by (simp add: held_def arg_def)

lemma prepared_one:
  assumes "own t {} {cb} r" "cb = Event_Triggered \<or> cb = Timeout_Triggered" "add_event k cb t tv r = (i, r')"
  shows "prepared t (set_stack t [LCleanup (Some i) None] r')"
proof -
  have "own t {i} {cb} (set_stack t [LCleanup (Some i) None] r')"
    using own_add [OF assms(1) _ _ assms(3)] assms(2) by (intro own_stack) auto
  then show ?thesis
    unfolding prepared_def using assms(2)
    by (intro exI [of _ "LCleanup (Some i) None"] exI [of _ "[]"] exI [of _ "{cb}"]) auto
qed

lemma waits_rules:
  "waits_properly t None"
  "prepared t r \<Longrightarrow> waits_properly t (Some (None, r))"
  "sound None r \<Longrightarrow> waits_properly t (Some (Some e, r))"
  by (simp_all add: waits_properly_def)

lemma waits_bind:
  "(\<And>a. m = Some a \<Longrightarrow> waits_properly t (f a)) \<Longrightarrow> waits_properly t (m \<bind> f)"
  by (cases m) (simp_all add: waits_properly_def)

lemma wait_for_io_prepares:
  assumes W: "good_world W" and o: "own t {} {Event_Triggered} r"
  shows "waits_properly t (wait_for_io kind W t vs r)"
proof -
  note fd = get_fd_keeps [OF W o] and tm = get_timeout_keeps [OF W]
  have one: "prepared t (set_stack t [LCleanup (Some i) None] r2)" if "own t {} {Event_Triggered} r1"
    "add_event k Event_Triggered t tv r1 = (i, r2)" for k tv i r1 r2
    using prepared_one [OF that(1) _ that(2)] by simp
  have err: "sound None (set_stack t [LCleanup None None] r')" if "own t {} {Event_Triggered} r'" for r'
    using own_sound [OF own_stack [OF that]] by simp
  show ?thesis
    unfolding wait_for_io_def Let_def
    by (auto intro!: waits_bind waits_rules split: sum.split prod.split dest!: fd)
      (meson own_sound err one tm)+
qed

lemma wait_for_timeout_prepares:
  assumes "own t {} {Timeout_Triggered} r"
  shows "waits_properly t (ratchet_wait_for_timeout W t vs r)"
  unfolding ratchet_wait_for_timeout_def Let_def
  using own_sound [OF assms] prepared_one [OF assms]
  by (auto intro!: waits_bind waits_rules split: sum.split prod.split option.split)

lemma prepared_signal:
  assumes "own t (set is) {Signal_Triggered} r"
  shows "prepared t (set_stack t [LCleanup None (Some is)] r)"
proof -
  have "own t (set is) {Signal_Triggered} (set_stack t [LCleanup None (Some is)] r)"
    by (rule own_stack [OF assms]) simp_all
  then show ?thesis
    unfolding prepared_def
    by (intro exI [of _ "LCleanup None (Some is)"] exI [of _ "[]"] exI [of _ "{Signal_Triggered}"]) simp
qed

lemma wait_for_signal_prepares:
  assumes o: "own t {} {Signal_Triggered} r"
  shows "waits_properly t (ratchet_wait_for_signal W t vs r)"
proof -
  have o1: "own t {i} {Signal_Triggered} r1" if "add_event k Signal_Triggered t tv r = (i, r1)" for k tv i r1
    using own_add [OF o _ _ that] by simp
  have o2: "own t {i, j} {Signal_Triggered} r2" if "add_event k Signal_Triggered t tv r = (i, r1)"
    "add_event k' Signal_Triggered t tv' r1 = (j, r2)" for k k' tv tv' i j r1 r2
    using own_add [OF o1 [OF that(1)] _ _ that(2)] by (simp add: insert_commute)
  show ?thesis
    unfolding ratchet_wait_for_signal_def Let_def
    using own_sound [OF o]
    by (auto intro!: waits_bind waits_rules prepared_signal split: sum.split prod.split option.split)
      (meson o1 o2)+
qed

lemma multi_events_keep:
  assumes W: "good_world W" and c: "c \<noteq> LMain" and
    "own t (insert n (set is)) {Multi_Event_Triggered} r" "multi_events W kind t c vs fds is r = Some (err, fds', is', r')"
  shows "own t (insert n (set is')) {Multi_Event_Triggered} r'"
  using assms(3,4)
proof (induction vs arbitrary: fds "is" r)
  case (Cons v vs)
  from Cons.prems(2) obtain x r1 where x: "get_fd_from_object W v r = Some (x, r1)"
    by (auto simp: bind_eq_Some_conv)
  have o1: "own t (insert n (set is)) {Multi_Event_Triggered} r1"
    using get_fd_keeps [OF W Cons.prems(1) x] .
  show ?case
  proof (cases x)
    case (Inl e)
    with Cons.prems(2) x o1 show ?thesis by auto
  next
    case (Inr fd)
    obtain i r2 where a: "add_event (kind fd) Multi_Event_Triggered t None r1 = (i, r2)" by force
    let ?fds = "AList.update fd v fds"
    let ?r = "set_stack t [c, LFds ?fds, LEvents (is @ [i])] r2"
    have "own t (insert n (set (is @ [i]))) {Multi_Event_Triggered} r2"
      using own_add [OF o1 _ _ a] by (simp add: insert_commute)
    then have "own t (insert n (set (is @ [i]))) {Multi_Event_Triggered} ?r"
      by (rule own_stack) (simp_all add: held_def arg_def c)
    moreover have "multi_events W kind t c vs ?fds (is @ [i]) ?r = Some (err, fds', is', r')"
      using Cons.prems(2) x Inr a by (simp add: Let_def)
    ultimately show ?thesis by (rule Cons.IH)
  qed
qed simp

lemma prepared_multi:
  assumes "own t (insert n (set is)) {Multi_Event_Triggered} r"
  shows "prepared t (set_stack t [LCleanup (Some n) (Some is), LFds fds] r)"
proof -
  have "own t (insert n (set is)) {Multi_Event_Triggered} (set_stack t [LCleanup (Some n) (Some is), LFds fds] r)"
    by (rule own_stack [OF assms]) (simp_all add: held_def arg_def)
  then show ?thesis
    unfolding prepared_def
    by (intro exI [of _ "LCleanup (Some n) (Some is)"] exI [of _ "[LFds fds]"] exI [of _ "{Multi_Event_Triggered}"]) simp
qed

lemma wait_for_multi_prepares:
  assumes W: "good_world W" and o: "own t {} {Multi_Event_Triggered} r"
  shows "waits_properly t (ratchet_wait_for_multi W t vs r)"
proof -
  let ?n = "next_event r" and ?c = "LCleanup (Some (next_event r)) None"
  let ?e = "\<lparr>ev_id = ?n, ev_kind = EV_TIMER, ev_cb = Multi_Event_Triggered, ev_thread = t, ev_tv = None\<rparr>"
  define start where "start use_tv = set_stack t [?c, LFds [], LEvents []]
    (case use_tv of None \<Rightarrow> r\<lparr>next_event := Suc ?n\<rparr> | Some tv \<Rightarrow> event_add ?e (Some tv) (r\<lparr>next_event := Suc ?n\<rparr>))" for use_tv
  have st: "own t (insert ?n (set [])) {Multi_Event_Triggered} (start use_tv)" for use_tv
    unfolding start_def
    by (rule own_stack, cases use_tv)
      (use own_next [OF o] own_event [OF o, of "?e\<lparr>ev_tv := use_tv\<rparr>"] in \<open>simp_all add: event_add_def held_def arg_def\<close>)
  have keep: "own t (insert ?n (set is')) {Multi_Event_Triggered} r2"
    if "own t (insert ?n (set is)) {Multi_Event_Triggered} r1" "multi_events W kind t ?c vs fds is r1 = Some (err, fds', is', r2)"
    for kind vs fds "is" r1 err fds' is' r2
    using multi_events_keep [OF W _ that] by simp
  have body: "waits_properly t (do {
      (err, fds, is, r) \<leftarrow> multi_events W EV_READ t ?c reads [] [] (start use_tv);
      if err \<noteq> None then Some (err, r)
      else do {
        (err, fds, is, r) \<leftarrow> multi_events W EV_WRITE t ?c writes fds is r;
        if err \<noteq> None then Some (err, r)
        else Some (None, set_stack t [LCleanup (Some ?n) (Some is), LFds fds] r)
      }
    })" for reads writes use_tv
    by (auto intro!: waits_bind waits_rules prepared_multi)
      (meson own_sound keep keep [OF st])+
  have "waits_properly t (case x of Inl e \<Rightarrow> Some (Some e, r) | Inr use_tv \<Rightarrow> F use_tv)"
    if "\<And>use_tv. waits_properly t (F use_tv)" for x :: "lval + timeval option" and F
    using that own_sound [OF o] by (cases x) (simp_all add: waits_rules)
  note step = waits_bind [OF this]
  show ?thesis
    unfolding ratchet_wait_for_multi_def event_assign_def
    by (cases "sequence (arg vs 0)"; cases "if arg vs 1 = LNil then Some [] else sequence (arg vs 1)")
      (simp_all only: prod.case option.case Let_def event.select_convs waits_rules own_sound [OF o],
        intro step body [unfolded start_def])
qed

lemma wait_method_prepares:
  assumes "good_world W" "aside r t" "no_events r t" "wait_method y = Some f"
  shows "waits_properly t (f W t vs r)"
  using assms(4) own_start [OF assms(2,3)] wait_for_io_prepares [OF assms(1)] wait_for_timeout_prepares
    wait_for_signal_prepares wait_for_multi_prepares [OF assms(1)]
  by (auto simp: wait_method_def ratchet_wait_for_write_def ratchet_wait_for_read_def split: if_splits)

section \<open>Running threads\<close>

lemma held_butlast: "held s = {} \<Longrightarrow> held (butlast s) = {}"
  by (auto simp: held_def arg_def nth_butlast split: if_splits)

lemma suspended_set_stack:
  assumes "suspended r t" "held s = {}"
  shows "suspended (set_stack t s r) t"
proof -
  have "sound None (set_coro t ((coros r t)\<lparr>lstack := s\<rparr>) r)"
    using assms by (intro inv_set_coro) (auto simp: suspended_def)
  with assms show ?thesis
    by (simp add: suspended_def no_events_def set_stack_def)
qed

lemma inv_yield_thread:
  assumes W: "good_world W" and su: "suspended r t"
    and nw: "\<And>y vs. stack r t = LLight y # vs \<Longrightarrow> wait_method y \<noteq> None \<Longrightarrow> t \<notin> set (waiters r)"
    and y: "ratchet_yield_thread W t r = Some (x, r')"
  shows "sound None r'"
proof (cases "\<exists>y vs. stack r t = LLight y # vs")
  case True
  then obtain y vs where s: "stack r t = LLight y # vs" by blast
  note susp = suspended_set_stack [OF su]
  show ?thesis
  proof (cases "wait_method y")
    case None
    have "suspended (set_stack t [LMain, LCleanup None None] r) t"
      by (rule susp) (simp add: held_def arg_def)
    moreover have "r' = set_stack t [LMain, LCleanup None None] r"
      using y s None by (simp add: ratchet_yield_thread_def set_stack_def set_coro_def)
    ultimately show ?thesis
      by (simp add: suspended_def)
  next
    case (Some f)
    let ?r0 = "set_stack t [] r"
    have s0: "suspended ?r0 t"
      by (rule susp) (simp add: held_def arg_def)
    have "aside ?r0 t" "no_events ?r0 t"
      using s0 nw [OF s] Some by (simp_all add: suspended_def aside_def adrift_def)
    note wait = wait_method_prepares [OF W this Some]
    obtain e r1 where f: "f W t vs ?r0 = Some (e, r1)"
      and r': "r' = (case e of Some _ \<Rightarrow> r1 | None \<Rightarrow> set_stack t (LMain # stack r1 t) r1)"
      using y s Some by (auto simp: ratchet_yield_thread_def bind_eq_Some_conv split: option.splits)
    with wait [of vs] inv_park [of t r1] show ?thesis
      by (cases e) (auto simp: waits_properly_def)
  qed
next
  case False
  with y su show ?thesis
    by (auto simp: ratchet_yield_thread_def suspended_def split: list.splits lval.splits)
qed

lemma good_world_handler:
  assumes "good_world W" "sound None r" "handle_thread_error W e t r = Some (x, r')"
  shows "sound None r'"
proof (cases "error_handler r = LNil")
  case False
  with assms(3) have "api (w_tonumber W) None r r'"
    by (intro good_worldD(3) [OF assms(1)]) (simp add: handle_thread_error_def)
  then show ?thesis
    using assms(2) by (rule inv_api)
qed (use assms in \<open>simp add: handle_thread_error_def\<close>)

lemma inv_run_body:
  assumes W: "good_world W" and i: "sound None r" "idle r t" and b: "run_body W t r = Some out"
  shows "case out of Inl r' \<Rightarrow> sound None r' \<and> idle r' t | Inr (x, r') \<Rightarrow> sound None r'"
proof -
  from b obtain n ret r1 where w: "nargs r t = Some n" "w_resume W r t n = Some (ret, r1)"
    by (auto simp: run_body_def bind_eq_Some_conv)
  from good_worldD(1) [OF W this(2)] have y: "yields_or_ends (w_tonumber W) t r ret r1" .
  note res = resumed [OF y i]
  have s1: "sound (Some t) (set_stack t s r1)" if "sound (Some t) r1" "held s = {}" for s
    unfolding set_stack_def using that inv_me [OF that(1)] by (intro inv_set_coro) auto
  show ?thesis
  proof (cases ret)
    case LUA_OK
    then have "out = Inr (None, end_thread_persist t r1)"
      using b w by (auto simp: run_body_def bind_eq_Some_conv)
    moreover have "sound (Some t) r1"
      using res LUA_OK by (auto simp: suspended_def)
    ultimately show ?thesis
      by (simp add: inv_stop)
  next
    case LUA_ERRRUN
    let ?r2 = "set_stack t (butlast (stack r1 t)) r1"
    let ?r4 = "end_thread_persist t (end_all_waiting_thread_events t ?r2)"
    obtain x r' where o: "out = Inr (x, r')" "handle_thread_error W (last (stack r1 t)) t ?r4 = Some (x, r')"
      using b w LUA_ERRRUN by (auto simp: run_body_def bind_eq_Some_conv Let_def split: if_splits)
    have "sound (Some t) r1"
      using res LUA_ERRRUN by (auto simp: suspended_def)
    moreover have "held (butlast (stack r1 t)) = {}"
      using res by (simp add: held_butlast)
    ultimately have "sound (Some t) (end_all_waiting_thread_events t ?r2)"
      using s1 inv_end_events by blast
    then have "sound None ?r4"
      by (rule inv_stop)
    with o good_world_handler [OF W] show ?thesis by auto
  next
    case LUA_YIELD
    show ?thesis
    proof (cases "arg (stack r1 t) 0 = LLight RATCHET_YIELD_GET")
      case True
      then have it: "sound (Some t) r1"
        using res by (auto simp: arg_def)
      then have it': "sound (Some t) (set_stack t [LRatchet] r1)"
        by (rule s1) (simp add: held_def arg_def)
      have "out = Inl (set_stack t [LRatchet] r1)"
        using b w True LUA_YIELD by (auto simp: run_body_def bind_eq_Some_conv)
      then show ?thesis
        using inv_suspend [OF it'] inv_idle [OF it'] res LUA_YIELD by simp
    next
      case False
      then obtain x r' where o: "out = Inr (x, r')" "ratchet_yield_thread W t r1 = Some (x, r')"
        using b w LUA_YIELD by (auto simp: run_body_def bind_eq_Some_conv)
      have su: "suspended r1 t"
        using res LUA_YIELD inv_suspend [of t r1] inv_idle [of t r1]
        by (auto simp: suspended_def idle_def)
      have "t \<notin> set (waiters r1)" if "stack r1 t = LLight y # vs" "wait_method y \<noteq> None" for y vs
        using res that inv_me [of t r1] by (auto simp: wait_method_def)
      with inv_yield_thread [OF W su _ o(2)] o(1) show ?thesis by auto
    qed
  qed
qed

lemma inv_run_thread:
  assumes W: "good_world W" and i: "sound None r" "idle r t"
    and run: "ratchet_run_thread W t r = Some (x, r')"
  shows "sound None r'"
proof -
  have "runs (run_body W t) r (x, r')"
    using run by (simp add: ratchet_run_thread_def loop_runs)
  then show ?thesis
    using i
  proof (induction r "(x, r')" rule: runs.induct)
    case (runs_next s s')
    then show ?case using inv_run_body [OF W, of s t "Inl s'"] by auto
  next
    case (runs_done s)
    then show ?case using inv_run_body [OF W, of s t "Inr (x, r')"] by auto
  qed
qed

lemma inv_alarm_thread:
  assumes W: "good_world W" and i: "sound None r" "status r t \<noteq> LUA_OK" "stack r t = LMain # s"
    and a: "ratchet_alarm_thread W t r = Some (x, r')"
  shows "sound None r'"
proof -
  let ?r1 = "if status r t = LUA_YIELD then end_all_waiting_thread_events t r else r"
  let ?r2 = "set_stack t [] ?r1"
  have "no_events r t" if "status r t \<noteq> LUA_YIELD"
    using inv_parked [OF i(1)] i(3) that by (auto simp: no_events_def parked_def)
  then have n1: "no_events ?r1 t"
    using inv_kill_events [OF i(1,3)] by simp
  have s1: "sound None ?r1" "status ?r1 t \<noteq> LUA_OK"
    using i(1,2) inv_end_events [OF i(1), of t] by (simp_all add: end_events_eq)
  have "sound None ?r2"
    unfolding set_stack_def using n1 s1
    by (intro inv_set_coro) (auto simp: held_def arg_def)
  moreover obtain err e r3 where
    r3: "(if alarm_callbacks ?r2 t \<noteq> LNil then w_pcall W ?r2 t (alarm_callbacks ?r2 t)
         else Some (None, ?r2)) = Some (err, r3)"
    and h: "handle_thread_error W e t (end_thread_persist t r3) = Some (x, r')"
    using a unfolding ratchet_alarm_thread_def Let_def by (auto simp: bind_eq_Some_conv)
  have api: "api (w_tonumber W) None ?r2 r3"
  proof (cases "alarm_callbacks ?r2 t = LNil")
    case True
    with r3 show ?thesis by (auto intro: api_done)
  next
    case False
    with r3 show ?thesis by (intro good_worldD(2) [OF W]) auto
  qed
  ultimately have "sound None r3"
    using inv_api by blast
  then have "sound None (end_thread_persist t r3)"
    by (rule inv_end_thread)
  with h good_world_handler [OF W] show ?thesis by blast
qed

section \<open>Events\<close>

definition wake_values :: "event \<Rightarrow> bool \<Rightarrow> lval list \<Rightarrow> lval list" where
  "wake_values e timeout s =
     (case ev_cb e of
        Timeout_Triggered \<Rightarrow> []
      | Multi_Event_Triggered \<Rightarrow>
          [if timeout then LBool False
           else case arg s 2 of
                  LFds fds \<Rightarrow> (case map_of fds (event_fd e) of None \<Rightarrow> LNil | Some v \<Rightarrow> v)
                | _ \<Rightarrow> LNil]
      | _ \<Rightarrow> [LBool (\<not> timeout)])"

definition woken :: "event \<Rightarrow> bool \<Rightarrow> ratchet \<Rightarrow> ratchet" where
  "woken e timeout r =
     set_stack (ev_thread e) (wake_values e timeout (stack r (ev_thread e)))
       (r\<lparr>pending := filter (\<lambda>e'. ev_thread e' \<noteq> ev_thread e \<or> ev_cb e' = Alarm_Triggered) (pending r)\<rparr>)"

lemma own_events:
  assumes i: "sound None r" and e: "e \<in> set (pending r)" and st: "stack r t = LMain # s"
  shows "ev_id e \<in> held (stack r t) \<longleftrightarrow> ev_thread e = t \<and> ev_cb e \<noteq> Alarm_Triggered"
proof
  assume "ev_id e \<in> held (stack r t)"
  with i e show "ev_thread e = t \<and> ev_cb e \<noteq> Alarm_Triggered"
    by (auto simp: sound_def owned_ok_def)
next
  assume "ev_thread e = t \<and> ev_cb e \<noteq> Alarm_Triggered"
  with inv_parked [OF i e, of s] st parked_held [of "coros r t" e] show "ev_id e \<in> held (stack r t)"
    by auto
qed

lemma end_events_own:
  assumes i: "sound None r" and e: "e \<in> set (pending r)" "ev_cb e \<noteq> Alarm_Triggered" and t: "t = ev_thread e"
    and st: "stack r t = LMain # s"
  shows "end_all_waiting_thread_events t (event_del (ev_id e) r) =
     r\<lparr>pending := filter (\<lambda>e'. ev_thread e' \<noteq> t \<or> ev_cb e' = Alarm_Triggered) (pending r)\<rparr>"
proof -
  have "ev_id e \<in> held (stack r t)"
    using own_events [OF i e(1) st] e(2) t by simp
  then have "(ev_id e' \<noteq> ev_id e \<and> ev_id e' \<notin> held (stack r t)) =
      (ev_thread e' \<noteq> t \<or> ev_cb e' = Alarm_Triggered)" if "e' \<in> set (pending r)" for e'
    using own_events [OF i that st] by metis
  then show ?thesis
    by (simp add: end_events_eq event_del_def cong: filter_cong)
qed

lemma single_event_own:
  assumes i: "sound None r" and e: "e \<in> set (pending r)" and t: "t = ev_thread e" and st: "stack r t = LMain # s"
    and cb: "ev_cb e = Event_Triggered \<or> ev_cb e = Timeout_Triggered"
  shows "event_del (ev_id e) r =
     r\<lparr>pending := filter (\<lambda>e'. ev_thread e' \<noteq> t \<or> ev_cb e' = Alarm_Triggered) (pending r)\<rparr>"
proof -
  have "held (stack r t) = {ev_id e}"
    using inv_parked [OF i e, of s] st cb t by (auto simp: parked_def held_def arg_def)
  then have "(ev_id e' \<noteq> ev_id e) = (ev_thread e' \<noteq> t \<or> ev_cb e' = Alarm_Triggered)"
    if "e' \<in> set (pending r)" for e'
    using own_events [OF i that st] by auto
  then show ?thesis
    by (simp add: event_del_def cong: filter_cong)
qed

lemma woken_idle:
  assumes i: "sound None r" and e: "e \<in> set (pending r)" "ev_cb e \<noteq> Alarm_Triggered"
    and main: "stack r (ev_thread e) = LMain # s0"
  shows "sound None (woken e timeout r) \<and> idle (woken e timeout r) (ev_thread e) \<and>
    status (woken e timeout r) (ev_thread e) = LUA_YIELD"
proof -
  let ?t = "ev_thread e"
  let ?r = "r\<lparr>pending := filter (\<lambda>e'. ev_thread e' \<noteq> ?t \<or> ev_cb e' = Alarm_Triggered) (pending r)\<rparr>"
  have p: "parked (coros r ?t) e"
    using inv_parked [OF i e main] by simp
  have "held (wake_values e timeout s) = {}" for s
    by (simp add: wake_values_def held_def arg_def split: callback.splits)
  moreover have "sound None ?r"
    using i by (rule inv_drop)
  moreover have "no_events ?r ?t"
    by (auto simp: no_events_def)
  ultimately have "sound None (woken e timeout r)"
    unfolding woken_def set_stack_def using p by (intro inv_set_coro) (auto simp: parked_def)
  moreover have "?t < next_tid r" "?t \<notin> set (ready r)" "?t \<notin> set (waiters r)"
    using i e by (auto simp: sound_def ids_ok_def ready_ok_def waits_ok_def no_events_def)
  ultimately show ?thesis
    using p by (auto simp: woken_def idle_def no_events_def parked_def)
qed

lemma fire_runs:
  assumes i: "sound None r" and e: "e \<in> set (pending r)" "ev_cb e \<noteq> Alarm_Triggered"
    and main: "stack r (ev_thread e) = LMain # s0"
  shows "fire W e timeout (event_del (ev_id e) r) = ratchet_run_thread W (ev_thread e) (woken e timeout r)"
proof -
  obtain v s where st: "stack r (ev_thread e) = LMain # v # s"
    and m: "ev_cb e = Multi_Event_Triggered \<Longrightarrow> \<exists>fds s'. s = LFds fds # s'"
    using inv_parked [OF i e main] by (auto simp: parked_def)
  note own = end_events_own [OF i e refl main] single_event_own [OF i e(1) refl main]
  show ?thesis
  proof (cases "ev_cb e")
    case Event_Triggered
    with st own(2) show ?thesis
      by (simp add: fire_def event_triggered_def with_main_def woken_def wake_values_def)
  next
    case Signal_Triggered
    with st own(1) show ?thesis
      by (simp add: fire_def signal_triggered_def with_main_def woken_def wake_values_def)
  next
    case Timeout_Triggered
    with st own(2) show ?thesis
      by (simp add: fire_def timeout_triggered_def with_main_def woken_def wake_values_def)
  next
    case Multi_Event_Triggered
    with m obtain fds s' where "s = LFds fds # s'" by blast
    with st own(1) Multi_Event_Triggered show ?thesis
      by (simp add: fire_def multi_event_triggered_def with_main_def woken_def wake_values_def arg_def)
  qed (use e in simp)
qed

lemma with_main_adrift:
  "\<forall>s. stack r t \<noteq> LMain # s \<Longrightarrow> with_main f t r = Some (x, r') \<Longrightarrow>
   r' = fail_thread t internal_error r \<and> x = Some internal_error"
  by (auto simp: with_main_def split: list.splits lval.splits)

lemma fire_adrift:
  assumes "\<forall>s. stack r (ev_thread e) \<noteq> LMain # s" "fire W e timeout r = Some (x, r')"
  shows "r' = fail_thread (ev_thread e) internal_error r \<and> x = Some internal_error"
  using assms(2) with_main_adrift [OF assms(1)]
  by (cases "ev_cb e")
    (simp_all add: fire_def event_triggered_def signal_triggered_def timeout_triggered_def alarm_triggered_def
      multi_event_triggered_def)

lemma inv_fail:
  assumes "sound None r" "\<forall>s. stack r t \<noteq> LMain # s"
  shows "sound None (fail_thread t internal_error r)"
proof -
  have "held (stack r t @ [internal_error]) \<subseteq> held (stack r t)"
    by (cases "stack r t"; cases "tl (stack r t)") (auto simp: held_def arg_def internal_error_def)
  moreover have "\<forall>s. stack r t @ [internal_error] \<noteq> LMain # s"
    using assms(2) by (cases "stack r t") (auto simp: internal_error_def)
  ultimately show ?thesis
    unfolding fail_thread_def by (intro inv_set_coro [OF assms(1)]) (auto simp: adrift_def)
qed

lemma inv_fire:
  assumes W: "good_world W" and i: "sound None r" and e: "e \<in> set (pending r)"
    and f: "fire W e timeout (event_del (ev_id e) r) = Some (x, r')"
  shows "sound None r'"
proof -
  let ?r = "event_del (ev_id e) r"
  have s: "sound None ?r"
    using i by (rule inv_event_del)
  consider (adrift) "\<forall>s. stack ?r (ev_thread e) \<noteq> LMain # s"
    | (alarm) s' where "stack r (ev_thread e) = LMain # s'" "ev_cb e = Alarm_Triggered"
    | (wake) s' where "stack r (ev_thread e) = LMain # s'" "ev_cb e \<noteq> Alarm_Triggered"
    by auto
  then show ?thesis
  proof cases
    case adrift
    with s fire_adrift [OF adrift f] inv_fail show ?thesis by simp
  next
    case alarm
    then have "status ?r (ev_thread e) \<noteq> LUA_OK"
      using i e by (auto simp: sound_def event_ok_def)
    moreover have "ratchet_alarm_thread W (ev_thread e) ?r = Some (x, r')"
      using f alarm by (simp add: fire_def alarm_triggered_def with_main_def)
    ultimately show ?thesis
      using inv_alarm_thread [OF W s] alarm(1) by simp
  next
    case wake
    with f have "ratchet_run_thread W (ev_thread e) (woken e timeout r) = Some (x, r')"
      by (simp add: fire_runs [OF i e])
    with inv_run_thread [OF W] woken_idle [OF i e wake(2,1)] show ?thesis by blast
  qed
qed

lemma inv_dispatch:
  assumes W: "good_world W"
  shows "sound None r \<Longrightarrow> dispatch W active r = Some (x, r') \<Longrightarrow> sound None r'"
proof (induction active arbitrary: r)
  case (Cons a active)
  obtain i timeout where a: "a = (i, timeout)" by force
  show ?case
  proof (cases "find (\<lambda>e. ev_id e = i) (pending r)")
    case None
    with Cons a show ?thesis by simp
  next
    case (Some e)
    then have e: "e \<in> set (pending r)" "ev_id e = i"
      by (auto simp: find_Some_iff)
    obtain err r1 where f: "fire W e timeout (event_del (ev_id e) r) = Some (err, r1)"
      and c: "(if err \<noteq> None then Some (err, r1) else dispatch W active r1) = Some (x, r')"
      using Cons.prems(2) Some a e(2) by (auto simp: bind_eq_Some_conv)
    have "sound None r1"
      using f by (rule inv_fire [OF W Cons.prems(1) e(1)])
    with Cons.IH c show ?thesis
      by (auto split: if_splits)
  qed
qed simp

section \<open>The loop\<close>

lemma inv_unready:
  assumes "sound None r" "t \<in> set (ready r)"
  shows "sound None (r\<lparr>ready := removeAll t (ready r)\<rparr>) \<and> idle (r\<lparr>ready := removeAll t (ready r)\<rparr>) t"
  using assms unfolding sound_def inv_parts no_events_def resumable_def event_ok_def idle_def
  by auto

lemma inv_unwait:
  assumes i: "sound None r" and t: "t \<in> set (waiters r)"
  defines "r' \<equiv> r\<lparr>waiting_on := AList.delete t (waiting_on r)\<rparr>"
  shows "sound None r' \<and> idle r' t"
proof -
  have w: "set (waiters r') = set (waiters r) - {t}"
    by (auto simp: r'_def delete_keys)
  have "distinct (waiters r')"
    using i by (simp add: r'_def sound_def waits_ok_def distinct_delete)
  with i w have "waits_ok None r'"
    unfolding waits_ok_def by (auto simp: r'_def sound_def waits_ok_def no_events_def simp del: set_map)
  moreover have "ready_ok None r'"
    using i unfolding ready_ok_def w by (auto simp: r'_def sound_def ready_ok_def no_events_def resumable_def)
  moreover have "event_ok None r' = event_ok None r"
    by (simp add: fun_eq_iff event_ok_def r'_def)
  moreover have "ids_ok r'" "owned_ok r'"
    using i by (simp_all add: sound_def ids_ok_def owned_ok_def r'_def)
  ultimately have "sound None r'"
    using i by (simp add: sound_def r'_def)
  moreover have "t \<notin> set (ready r)" "t < next_tid r" "no_events r t"
    using i t by (auto simp: sound_def ready_ok_def waits_ok_def)
  ultimately show ?thesis
    unfolding idle_def w by (simp add: r'_def no_events_def resumable_def)
qed

lemma inv_ready_body:
  assumes W: "good_world W" and i: "sound None (snd s)" and b: "ready_body W s = Some out"
  shows "case out of Inl s' \<Rightarrow> sound None (snd s')
    | Inr (x, r') \<Rightarrow> sound None r' \<and> (\<forall>b. x = Inr b \<longrightarrow> ready r' = [])"
proof (cases "w_order W (ready (snd s))")
  case Nil
  then have "ready (snd s) = []"
    using good_worldD(6) [OF W, of "ready (snd s)"] by simp
  with Nil i b show ?thesis
    by (auto simp: ready_body_def split: prod.splits)
next
  case (Cons t ts)
  then have "t \<in> set (ready (snd s))"
    using good_worldD(6) [OF W, of "ready (snd s)"] by auto
  note un = inv_unready [OF i this]
  obtain err r1 where run: "ratchet_run_thread W t ((snd s)\<lparr>ready := removeAll t (ready (snd s))\<rparr>) = Some (err, r1)"
    and out: "out = (case err of Some e \<Rightarrow> Inr (Inl e, r1) | None \<Rightarrow> Inl (True, r1))"
    using b Cons by (auto simp: ready_body_def bind_eq_Some_conv split: prod.splits)
  have "sound None r1"
    using inv_run_thread [OF W _ _ run] un by blast
  then show ?thesis
    unfolding out by (simp split: option.splits)
qed

lemma inv_start_ready:
  assumes W: "good_world W" and i: "sound None r" and s: "ratchet_start_threads_ready W r = Some (x, r')"
  shows "sound None r' \<and> (\<forall>b. x = Inr b \<longrightarrow> ready r' = [])"
proof -
  let ?Q = "\<lambda>(x, r'). sound None r' \<and> (\<forall>b :: bool. x = Inr b \<longrightarrow> ready r' = [])"
  have "?Q (x, r')"
  proof (rule loop_invariant [where I = "\<lambda>s. sound None (snd s)" and Q = ?Q])
    show "loop (ready_body W) (False, r) = Some (x, r')"
      using s by (simp add: ratchet_start_threads_ready_def)
    show "sound None (snd (False, r))"
      using i by simp
    fix s s' assume "sound None (snd s)" "ready_body W s = Some (Inl s')"
    from inv_ready_body [OF W this] show "sound None (snd s')" by simp
  next
    fix s q assume "sound None (snd s)" "ready_body W s = Some (Inr q)"
    from inv_ready_body [OF W this] show "?Q q" by simp
  qed
  then show ?thesis by simp
qed

lemma inv_done_waiting:
  assumes W: "good_world W"
  shows "sound None r \<Longrightarrow> done_waiting W ts b r = Some (x, r') \<Longrightarrow> sound None r'"
proof (induction ts arbitrary: b r)
  case (Cons t ts)
  show ?case
  proof (cases "map_of (waiting_on r) t = Some []")
    case True
    then have t: "t \<in> set (waiters r)"
      by (metis domI dom_map_of_conv_image_fst list.set_map)
    let ?r0 = "r\<lparr>waiting_on := AList.delete t (waiting_on r)\<rparr>"
    obtain err r1 where run: "ratchet_run_thread W t ?r0 = Some (err, r1)"
      and c: "(case err of Some e \<Rightarrow> Some (Inl e, r1)
        | None \<Rightarrow> if set (waiters r1) \<subseteq> set (waiters ?r0) then done_waiting W ts True r1 else None) = Some (x, r')"
      using Cons.prems(2) True by (auto simp: Let_def bind_eq_Some_conv)
    have "sound None r1"
      using inv_run_thread [OF W _ _ run] inv_unwait [OF Cons.prems(1) t] by blast
    with Cons.IH c show ?thesis
      by (auto split: option.splits if_splits)
  next
    case False
    with Cons show ?thesis by simp
  qed
qed simp

lemma inv_process_events:
  assumes "good_world W" "sound None r" "process_events W nb r = Some (x, r')"
  shows "sound None r'"
  using assms inv_dispatch [OF assms(1,2)]
  by (auto simp: process_events_def Let_def bind_eq_Some_conv split: prod.splits)

lemma inv_loop_once:
  assumes W: "good_world W" and i: "sound None r" and l: "ratchet_loop_once W nb r = Some (x, r')"
  shows "sound None r'"
proof -
  obtain x1 r1 where s1: "ratchet_start_threads_ready W r = Some (x1, r1)"
    and c1: "(if x1 \<noteq> Inr False then Some (x1, r1)
        else do {
          (x2, r2) \<leftarrow> ratchet_start_threads_done_waiting W r1;
          if x2 \<noteq> Inr False then Some (x2, r2)
          else if threads r2 = [] then Some (Inr False, r2)
          else process_events W nb r2
        }) = Some (x, r')"
    using l unfolding ratchet_loop_once_def by (auto simp: bind_eq_Some_conv)
  have i1: "sound None r1"
    using inv_start_ready [OF W i s1] by simp
  show ?thesis
  proof (cases "x1 = Inr False")
    case True
    with c1 obtain x2 r2 where s2: "ratchet_start_threads_done_waiting W r1 = Some (x2, r2)"
      and c2: "(if x2 \<noteq> Inr False then Some (x2, r2)
          else if threads r2 = [] then Some (Inr False, r2)
          else process_events W nb r2) = Some (x, r')"
      by (auto simp: bind_eq_Some_conv)
    have "sound None r2"
      using inv_done_waiting [OF W i1] s2 by (auto simp: ratchet_start_threads_done_waiting_def)
    with c2 inv_process_events [OF W] show ?thesis
      by (auto split: if_splits)
  next
    case False
    with c1 i1 show ?thesis by simp
  qed
qed

lemma inv_new: "plain [f] \<Longrightarrow> sound None (ratchet_new f h)"
proof -
  assume "plain [f]"
  moreover have "sound None (setup_persistance_tables h)"
    by (simp add: sound_def inv_parts setup_persistance_tables_def no_thread_def held_def arg_def)
  moreover have "ratchet_attach [f] (setup_persistance_tables h) = (Inr 0, ratchet_new f h)"
    by (simp add: ratchet_attach_def ratchet_new_def lua_newthread_def setup_persistance_tables_def)
  ultimately show ?thesis
    using inv_attach by blast
qed

end
