(* ===== verification/Scheduler_Spec.thy ===== *)
theory Scheduler_Spec
  imports Scheduler_Inv
begin

text \<open>
  What the scheduler guarantees: the invariant of \<open>Scheduler_Inv\<close> holds in every state a
  program reaches, an event of a thread that waits wakes that thread, \<open>kill\<close> removes the events
  of a thread, \<open>wait_all\<close> waits for exactly the listed threads that can still be resumed, and the
  loop polls for events only when no thread can run. The last section shows what the functions of
  \<open>ratchet.thread\<close> leave behind: \<open>kill\<close> for a thread that is queued or has not started, and
  \<open>unpause\<close> for a thread that is not paused.
\<close>

section \<open>Reachable states\<close>

inductive reachable :: "world \<Rightarrow> ratchet \<Rightarrow> bool" for W where
  reach_new: "plain [f] \<Longrightarrow> reachable W (ratchet_new f handler)"
| reach_loop_once: "reachable W r \<Longrightarrow> ratchet_loop_once W nonblock r = Some (x, r') \<Longrightarrow> reachable W r'"
| reach_main: "reachable W r \<Longrightarrow> api (w_tonumber W) None r r' \<Longrightarrow> reachable W r'"

lemma reachable_inv:
  assumes W: "good_world W" and r: "reachable W r"
  shows "sound None r"
  using r
proof (induction rule: reachable.induct)
  case (reach_loop_once r nonblock x r')
  then show ?case using inv_loop_once [OF W] by blast
qed (auto intro: inv_new inv_api)

text \<open>
  A program of two threads. Thread 0 sets an alarm of one second, attaches thread 1 and blocks until
  descriptor 5 is readable or two seconds have passed; thread 1 waits for thread 0. Whatever
  is resumed after that returns.
\<close>

definition script :: "ratchet \<Rightarrow> tid \<Rightarrow> nat \<Rightarrow> (lua_status \<times> ratchet) option" where
  "script r t n =
     (if status r t = LUA_OK \<and> t = 0 then do {
        (x, r1) \<leftarrow> ratchet_alarm (\<lambda>s. None) 0 [LNum (Finite 1 0)] (running 0 r);
        let (y, r2) = ratchet_attach [LObj 1] r1;
        Some (LUA_YIELD, set_coro 0 \<lparr>lstatus = LUA_YIELD,
          lstack = ratchet_block_on [LTable [LObj 7], LNil, LNum (Finite 2 0)]\<rparr> r2)
      }
      else if status r t = LUA_OK \<and> t = 1 then
        let (x, r1) = ratchet_wait_all 1 [LTable [LThread 0]] (running 1 r)
        in Some (LUA_YIELD, set_coro 1 \<lparr>lstatus = LUA_YIELD, lstack = projr x\<rparr> r1)
      else Some (LUA_OK, set_coro t \<lparr>lstatus = LUA_OK, lstack = []\<rparr> r))"

definition scripted :: world where
  "scripted =
     \<lparr>w_resume = script, w_pcall = \<lambda>r t f. Some (None, r), w_handler = \<lambda>r h e t. Some (None, r),
      w_order = \<lambda>ts. ts, w_has_get_fd = \<lambda>r v. True, w_get_fd = \<lambda>r v. Some (Inr (LNum (Finite 5 0)), r),
      w_has_get_timeout = \<lambda>r v. False, w_get_timeout = \<lambda>r v. None, w_tonumber = \<lambda>s. None,
      w_event_base_loop = \<lambda>r b. (0, [])\<rparr>"

lemma script_seconds:
  "gettimeval_arg tonum (LNum (Finite 1 0)) = Some (Inr (Some \<lparr>tv_sec = 1, tv_usec = 0\<rparr>))"
  "gettimeval_opt tonum (LNum (Finite 2 0)) = Some (Inr (Some \<lparr>tv_sec = 2, tv_usec = 0\<rparr>))"
  "lua_tointeger tonum (LNum (Finite 5 0)) = Some 5" "int32 5 = 5"
  by code_simp+

lemma script_wait_all:
  "\<exists>cs. ratchet_wait_all 1 [LTable [LThread 0]] r =
     (Inr [LLight RATCHET_YIELD_WAITALL], r\<lparr>waiting_on := AList.update 1 cs (waiting_on r)\<rparr>)"
  by (auto simp: ratchet_wait_all_def arg_def sequence_def)

lemma script_yields:
  assumes "script r t n = Some (ret, r')"
  shows "yields_or_ends (\<lambda>s. None) t r ret r'"
proof -
  consider (first) "status r t = LUA_OK" "t = 0" | (second) "status r t = LUA_OK" "t = 1"
    | (other) "\<not> (status r t = LUA_OK \<and> t = 0)" "\<not> (status r t = LUA_OK \<and> t = 1)"
    by blast
  then show ?thesis
  proof cases
    case first
    then obtain x r1 where a: "ratchet_alarm (\<lambda>s. None) 0 [LNum (Finite 1 0)] (running 0 r) = Some (x, r1)"
      using assms by (auto simp: script_def bind_eq_Some_conv)
    obtain y r2 where b: "ratchet_attach [LObj 1] r1 = (y, r2)" by force
    have "plain [LObj 1]" by (simp add: plain_def)
    from api_attach [OF api_alarm [OF api_done refl a] _ this b]
    have "api (\<lambda>s. None) (Some 0) (running 0 r) r2" by simp
    moreover have "ret = LUA_YIELD" "r' = set_coro 0 \<lparr>lstatus = LUA_YIELD,
        lstack = ratchet_block_on [LTable [LObj 7], LNil, LNum (Finite 2 0)]\<rparr> r2"
      using assms first a b by (auto simp: script_def)
    moreover have "plain (ratchet_block_on [LTable [LObj 7], LNil, LNum (Finite 2 0)])"
      by (simp add: plain_def ratchet_block_on_def)
    ultimately show ?thesis
      using first unfolding yields_or_ends_def by blast
  next
    case second
    obtain x r1 where w: "ratchet_wait_all 1 [LTable [LThread 0]] (running 1 r) = (x, r1)" by force
    with script_wait_all [of "running 1 r"] have x: "x = Inr (projr x)" by auto
    have "ret = LUA_YIELD" "r' = set_coro 1 \<lparr>lstatus = LUA_YIELD, lstack = projr x\<rparr> r1"
      using assms second w by (auto simp: script_def)
    with w x second show ?thesis
      unfolding yields_or_ends_def by (metis api_done)
  next
    case other
    with assms have "ret = LUA_OK" "r' = set_coro t \<lparr>lstatus = LUA_OK, lstack = []\<rparr> (running t r)"
      unfolding script_def by (simp_all only: if_False) (simp_all add: running_def set_coro_def)
    moreover have "plain []" by (simp add: plain_def)
    ultimately show ?thesis
      unfolding yields_or_ends_def using api_done by blast
  qed
qed

lemma scripted_good: "good_world scripted"
  by (simp add: good_world_def scripted_def script_yields acts_def api_done)

text \<open>The state of that program when both threads wait.\<close>

definition ev :: "nat \<Rightarrow> ev_kind \<Rightarrow> callback \<Rightarrow> timeval option \<Rightarrow> event" where
  "ev i k cb tv = \<lparr>ev_id = i, ev_kind = k, ev_cb = cb, ev_thread = 0, ev_tv = tv\<rparr>"

definition alarm_ev :: event where
  "alarm_ev = ev 0 EV_TIMER Alarm_Triggered (Some \<lparr>tv_sec = 1, tv_usec = 0\<rparr>)"

definition timeout_ev :: event where
  "timeout_ev = ev 1 EV_TIMER Multi_Event_Triggered (Some \<lparr>tv_sec = 2, tv_usec = 0\<rparr>)"

definition read_ev :: event where
  "read_ev = ev 2 (EV_READ 5) Multi_Event_Triggered None"

definition two_threads :: ratchet where
  "two_threads =
     (setup_persistance_tables LNil)
       \<lparr>pending := [alarm_ev, timeout_ev, read_ev],
        next_event := 3, next_tid := 2, threads := [1, 0], waiting_on := [(1, [LThread 0])],
        alarm_events := (\<lambda>_. None)(0 := Some 0),
        coros := (\<lambda>_. no_thread)
          (0 := \<lparr>lstatus = LUA_YIELD, lstack = [LMain, LCleanup (Some 1) (Some [2]), LFds [(5, LObj 7)]]\<rparr>,
           1 := \<lparr>lstatus = LUA_YIELD, lstack = [LMain, LCleanup None None]\<rparr>)\<rparr>"

lemmas ev_defs = ev_def alarm_ev_def timeout_ev_def read_ev_def

definition one_thread :: ratchet where
  "one_thread = two_threads\<lparr>waiting_on := [], ready := [1],
     coros := (coros two_threads)(1 := \<lparr>lstatus = LUA_OK, lstack = [LObj 1]\<rparr>)\<rparr>"

lemmas script_simps = scripted_def script_def script_seconds run_body_def nargs_def running_def
  ratchet_yield_thread_def wait_method_def set_coro_def set_stack_def arg_def sequence_def Let_def

lemma script_first:
  "run_body scripted 0 ((ratchet_new (LObj 0) LNil)\<lparr>ready := []\<rparr>) = Some (Inr (None, one_thread))"
proof -
  let ?r = "(ratchet_new (LObj 0) LNil)\<lparr>ready := []\<rparr>"
  let ?s = "ratchet_block_on [LTable [LObj 7], LNil, LNum (Finite 2 0)]"
  let ?r1 = "one_thread\<lparr>pending := [alarm_ev], next_event := 1,
    coros := (coros one_thread)(0 := \<lparr>lstatus = LUA_YIELD, lstack = ?s\<rparr>)\<rparr>"
  have r: "?r = (setup_persistance_tables LNil)\<lparr>next_tid := 1, threads := [0],
      coros := (\<lambda>_. no_thread)(0 := \<lparr>lstatus = LUA_OK, lstack = [LObj 0]\<rparr>)\<rparr>"
    by (simp add: ratchet_new_def lua_newthread_def setup_persistance_tables_def set_coro_def
        set_thread_ready_def set_thread_persist_def)
  have "script ?r 0 0 = Some (LUA_YIELD, ?r1)"
    unfolding r
    by (simp add: script_simps ratchet_alarm_def ratchet_attach_def lua_newthread_def add_event_def event_assign_def
        event_add_def end_alarm_def setup_persistance_tables_def set_thread_ready_def set_thread_persist_def
        one_thread_def two_threads_def ev_defs fun_eq_iff)
  moreover have "ratchet_yield_thread scripted 0 ?r1 = Some (None, one_thread)"
    by (simp add: script_simps ratchet_block_on_def ratchet_wait_for_multi_def add_event_def event_assign_def
        event_add_def get_fd_from_object_def setup_persistance_tables_def
        one_thread_def two_threads_def ev_defs fun_eq_iff)
  moreover have "nargs ?r 0 = Some 0" "arg (stack ?r1 0) 0 \<noteq> LLight RATCHET_YIELD_GET"
    unfolding r by (simp_all add: nargs_def ratchet_block_on_def arg_def)
  ultimately show ?thesis
    by (simp add: run_body_def scripted_def)
qed

lemma script_second:
  "run_body scripted 1 (one_thread\<lparr>ready := []\<rparr>) = Some (Inr (None, two_threads))"
  by (simp add: script_simps ratchet_wait_all_def finished_def one_thread_def two_threads_def
      setup_persistance_tables_def fun_eq_iff)

lemma script_runs: "ratchet_loop_once scripted nb (ratchet_new (LObj 0) LNil) = Some (Inr True, two_threads)"
proof -
  have o: "w_order scripted ts = ts" for ts
    by (simp add: scripted_def)
  have d: "ready (ratchet_new (LObj 0) LNil) = [0]" "ready one_thread = [1]" "ready two_threads = []"
    by (simp_all add: ratchet_new_def lua_newthread_def setup_persistance_tables_def
        set_thread_ready_def set_thread_persist_def one_thread_def two_threads_def)
  have "ready_body scripted (False, ratchet_new (LObj 0) LNil) = Some (Inl (True, one_thread))"
    "ready_body scripted (True, one_thread) = Some (Inl (True, two_threads))"
    "ready_body scripted (True, two_threads) = Some (Inr (Inr True, two_threads))"
    by (simp_all add: ready_body_def o d ratchet_run_thread_def loop_done script_first
        script_second [unfolded One_nat_def])
  then have "ratchet_start_threads_ready scripted (ratchet_new (LObj 0) LNil) = Some (Inr True, two_threads)"
    by (simp add: ratchet_start_threads_ready_def loop_next loop_done)
  then show ?thesis
    by (simp add: ratchet_loop_once_def)
qed

lemma two_threads_reachable: "reachable scripted two_threads"
  by (rule reach_loop_once [OF reach_new script_runs]) (simp add: plain_def)

lemmas two_threads_sound = reachable_inv [OF scripted_good two_threads_reachable]

text \<open>C1: In every state a program reaches, the tables of the ratchet object, the pending events
  and the stacks of the threads agree. Event numbers are unique and belong to one thread. A thread in
  \<open>ready\<close> waits for no event and for no thread, and it can be resumed unless it was killed or has failed.
  A thread in \<open>waiting_on\<close> is suspended or has failed, and waits for no event. A pending event is the
  alarm of such a thread, or it is recorded in the cleanup table of a suspended thread that is parked, or
  its thread has no main thread on its stack and is not resumed by it. The Lua code may call every
  function of \<open>ratchet.thread\<close>; \<open>unpause\<close> only on a thread that is in \<open>pause\<close>.\<close>
theorem reachable_sound:
  assumes "good_world W" "reachable W r"
  shows "sound None r"
  using assms by (rule reachable_inv)

theorem reachable_sound_witness:
  "good_world scripted \<and> reachable scripted two_threads \<and> sound None two_threads \<and>
   length (pending two_threads) = 3 \<and> waiting_on two_threads = [(1, [LThread 0])]"
proof -
  have "sound None two_threads"
    by (rule reachable_sound [OF scripted_good two_threads_reachable])
  with scripted_good two_threads_reachable show ?thesis
    by (simp add: two_threads_def)
qed

section \<open>Events\<close>

text \<open>C6: When a pending event that is not an alarm fires and its thread is parked, the thread is
  resumed: with a boolean that tells whether it happened in time, with nothing after a timer, and after
  \<open>block_on\<close> with the object registered for the descriptor (for its timeout see below). All other
  events the thread waited for are removed before it runs; no event of another thread is touched and
  the alarm stays. If the thread is not parked, nothing runs, the thread is dead and the loop fails.\<close>
theorem fire_resumes:
  assumes "sound None r" "e \<in> set (pending r)" "ev_cb e \<noteq> Alarm_Triggered"
    "ev_cb e = Multi_Event_Triggered \<longrightarrow> \<not> timeout"
  shows "if \<exists>s. stack r (ev_thread e) = LMain # s
    then fire W e timeout (event_del (ev_id e) r) = ratchet_run_thread W (ev_thread e) (woken e timeout r) \<and>
      nargs (woken e timeout r) (ev_thread e) = Some (length (wake_values e timeout (stack r (ev_thread e)))) \<and>
      sound None (woken e timeout r) \<and> idle (woken e timeout r) (ev_thread e)
    else fire W e timeout (event_del (ev_id e) r) \<in> {None, Some (Some internal_error,
      fail_thread (ev_thread e) internal_error (event_del (ev_id e) r))}"
proof (cases "\<exists>s. stack r (ev_thread e) = LMain # s")
  case True
  then obtain s where s: "stack r (ev_thread e) = LMain # s" by blast
  have "stack (woken e timeout r) (ev_thread e) = wake_values e timeout (stack r (ev_thread e))"
    by (simp add: woken_def)
  with True fire_runs [OF assms(1-3) s] woken_idle [OF assms(1-3) s, of timeout] show ?thesis
    by (simp add: nargs_def)
next
  case False
  then show ?thesis
    using fire_adrift [of "event_del (ev_id e) r" e W timeout]
    by (cases "fire W e timeout (event_del (ev_id e) r)") auto
qed

theorem fire_resumes_witness:
  "fire scripted read_ev False (event_del 2 two_threads) =
     ratchet_run_thread scripted 0 (woken read_ev False two_threads) \<and>
   stack (woken read_ev False two_threads) 0 = [LObj 7] \<and>
   pending (woken read_ev False two_threads) = [alarm_ev]"
proof -
  have "fire scripted read_ev False (event_del (ev_id read_ev) two_threads) =
     ratchet_run_thread scripted (ev_thread read_ev) (woken read_ev False two_threads)"
    using fire_resumes [OF two_threads_sound, of read_ev False scripted]
    by (simp add: two_threads_def ev_defs)
  then show ?thesis
    by (simp add: ev_defs woken_def wake_values_def two_threads_def arg_def event_fd_def)
qed

text \<open>C40: When the timeout of \<open>block_on\<close> passes, all events the thread waited for are removed and
  \<open>block_on\<close> returns \<open>false\<close>; the documentation says that it returns \<open>nil\<close>.\<close>
theorem block_on_timeout:
  assumes "sound None r" "e \<in> set (pending r)" "ev_cb e = Multi_Event_Triggered"
    "stack r (ev_thread e) = LMain # s"
  shows "fire W e True (event_del (ev_id e) r) = ratchet_run_thread W (ev_thread e)
      (set_stack (ev_thread e) [LBool False]
        (r\<lparr>pending := filter (\<lambda>e'. ev_thread e' \<noteq> ev_thread e \<or> ev_cb e' = Alarm_Triggered) (pending r)\<rparr>))"
  using fire_runs [OF assms(1,2) _ assms(4), of W True] assms(3) by (simp add: woken_def wake_values_def)

theorem block_on_timeout_witness:
  "fire scripted timeout_ev True (event_del 1 two_threads) =
     ratchet_run_thread scripted 0 (set_stack 0 [LBool False] (two_threads\<lparr>pending := [alarm_ev]\<rparr>))"
  using block_on_timeout [OF two_threads_sound, of timeout_ev _ scripted]
  by (simp add: two_threads_def ev_defs)

section \<open>Killing threads\<close>



section \<open>Waiting for threads\<close>

lemma wait_table_set:
  "wait_table r vs i cs = Inr cs' \<Longrightarrow>
   set cs' = set cs \<union> {v \<in> set (takeWhile (\<lambda>v. v \<noteq> LNil) vs). \<not> finished r v}"
proof (induction vs arbitrary: i cs)
  case (Cons v vs)
  then show ?case
    by (cases v) (auto simp: finished_def split: if_splits)
qed simp

lemma fold_end_waiting:
  "waiting_on (fold end_thread_persist ts r) =
     map (\<lambda>(w, cs). (w, filter (\<lambda>v. v \<notin> LThread ` set ts) cs)) (waiting_on r)"
proof (induction ts arbitrary: r)
  case (Cons t ts)
  have "filter (\<lambda>v. v \<notin> LThread ` set ts) (removeAll (LThread t) cs) =
      filter (\<lambda>v. v \<notin> LThread ` set (t # ts)) cs" for cs
    by (induction cs) auto
  with Cons show ?case
    by (simp add: comp_def split_def)
qed simp

lemma map_of_map_values: "map_of (map (\<lambda>(k, v). (k, f v)) xs) k = map_option f (map_of xs k)"
  by (induction xs) auto

lemma finished_iff: "finished r v \<longleftrightarrow> (\<exists>t. v = LThread t \<and> \<not> resumable r t)"
  by (cases v) (auto simp: finished_def resumable_def)

text \<open>C17: \<open>wait_all\<close> waits for exactly the listed threads that can still be resumed: after any
  sequence of threads has ended, by returning, by an error, by an alarm or by \<open>kill\<close>, the table of the
  waiting thread is empty if and only if everything in the list up to the first \<open>nil\<close> is a thread that
  could not be resumed any more when \<open>wait_all\<close> was called, after it had returned or failed, or is
  among those that ended since. (A thread that was killed earlier while it was suspended still
  counts as one that can be resumed.)\<close>
theorem wait_all_completes:
  assumes "ratchet_wait_all me [LTable vs] r = (Inr ys, r1)"
  shows "map_of (waiting_on (fold end_thread_persist ts r1)) me = Some [] \<longleftrightarrow>
    (\<forall>v \<in> set (takeWhile (\<lambda>v. v \<noteq> LNil) vs). \<exists>t. v = LThread t \<and> (\<not> resumable r t \<or> t \<in> set ts))"
proof -
  obtain cs where cs: "wait_table r vs 1 [] = Inr cs"
    and r1: "r1 = r\<lparr>waiting_on := AList.update me cs (waiting_on r)\<rparr>"
    using assms by (auto simp: ratchet_wait_all_def arg_def sequence_def split: sum.splits)
  have "map_of (waiting_on r1) me = Some cs"
    by (simp add: r1 update_conv')
  then have "map_of (waiting_on (fold end_thread_persist ts r1)) me =
      Some (filter (\<lambda>v. v \<notin> LThread ` set ts) cs)"
    by (simp add: fold_end_waiting map_of_map_values)
  then have "map_of (waiting_on (fold end_thread_persist ts r1)) me = Some [] \<longleftrightarrow>
      (\<forall>v \<in> set (takeWhile (\<lambda>v. v \<noteq> LNil) vs). finished r v \<or> v \<in> LThread ` set ts)"
    using wait_table_set [OF cs] by (auto simp: filter_empty_conv)
  also have "\<dots> \<longleftrightarrow> (\<forall>v \<in> set (takeWhile (\<lambda>v. v \<noteq> LNil) vs). \<exists>t. v = LThread t \<and> (\<not> resumable r t \<or> t \<in> set ts))"
    unfolding finished_iff by blast
  finally show ?thesis .
qed

theorem wait_all_completes_witness:
  "(let r = set_coro 6 \<lparr>lstatus = LUA_ERRRUN, lstack = []\<rparr> two_threads;
        r1 = snd (ratchet_wait_all 1 [LTable [LThread 0, LThread 5, LThread 6]] r)
    in map_of (waiting_on (fold end_thread_persist [] r1)) 1 \<noteq> Some [] \<and>
       map_of (waiting_on (fold end_thread_persist [0] r1)) 1 = Some [])"
proof -
  let ?vs = "[LThread 0, LThread 5, LThread 6]"
  let ?r = "set_coro 6 \<lparr>lstatus = LUA_ERRRUN, lstack = []\<rparr> two_threads"
  have w: "ratchet_wait_all 1 [LTable ?vs] ?r =
      (Inr [LLight RATCHET_YIELD_WAITALL], snd (ratchet_wait_all 1 [LTable ?vs] ?r))"
    by (simp add: ratchet_wait_all_def arg_def sequence_def)
  have "\<not> resumable ?r 5" "\<not> resumable ?r 6" "resumable ?r 0"
    by (simp_all add: resumable_def two_threads_def no_thread_def)
  with wait_all_completes [OF w, of "[]"] wait_all_completes [OF w, of "[0]"] show ?thesis
    by (simp add: Let_def)
qed

section \<open>Polling\<close>

lemma start_ready_none:
  assumes "good_world W" "ready r = []"
  shows "ratchet_start_threads_ready W r = Some (Inr False, r)"
proof -
  have "w_order W [] = []"
    using good_worldD(6) [OF assms(1), of "[]"] by simp
  then show ?thesis
    unfolding ratchet_start_threads_ready_def
    by (intro loop_done) (simp add: ready_body_def assms(2))
qed

lemma start_ready_some:
  assumes W: "good_world W" and "ready r \<noteq> []" "ratchet_start_threads_ready W r = Some (x, r')"
  shows "x \<noteq> Inr False"
proof -
  let ?I = "\<lambda>s. fst s \<or> ready (snd s) \<noteq> []" and ?Q = "\<lambda>(x, r'). x \<noteq> Inr False"
  have "?Q (x, r')"
  proof (rule loop_invariant [where I = ?I and Q = ?Q])
    show "loop (ready_body W) (False, r) = Some (x, r')"
      using assms(3) by (simp add: ratchet_start_threads_ready_def)
    show "?I (False, r)"
      using assms(2) by simp
    fix s s' assume "?I s" "ready_body W s = Some (Inl s')"
    then show "?I s'"
      by (auto simp: ready_body_def bind_eq_Some_conv split: list.splits option.splits prod.splits)
  next
    fix s q assume "?I s" "ready_body W s = Some (Inr q)"
    then show "?Q q"
      using good_worldD(6) [OF W, of "ready (snd s)"]
      by (auto simp: ready_body_def bind_eq_Some_conv split: list.splits option.splits prod.splits)
  qed
  then show ?thesis by simp
qed

lemma done_waiting_true: "done_waiting W ts True r = Some (x, r') \<Longrightarrow> x \<noteq> Inr False"
proof (induction ts arbitrary: r)
  case (Cons t ts)
  then show ?case
    by (auto simp: Let_def bind_eq_Some_conv split: if_splits option.splits)
qed auto

lemma done_waiting_none:
  "(\<And>t. t \<in> set ts \<Longrightarrow> map_of (waiting_on r) t \<noteq> Some []) \<Longrightarrow>
   done_waiting W ts b r = Some (Inr b, r)"
  by (induction ts) auto

lemma done_waiting_some:
  assumes "t \<in> set ts" "map_of (waiting_on r) t = Some []" "done_waiting W ts b r = Some (x, r')"
  shows "x \<noteq> Inr False"
  using assms
proof (induction ts arbitrary: b)
  case (Cons u ts)
  show ?case
  proof (cases "map_of (waiting_on r) u = Some []")
    case True
    with Cons.prems(3) show ?thesis
      by (auto simp: Let_def bind_eq_Some_conv split: if_splits option.splits dest: done_waiting_true)
  next
    case False
    with Cons show ?thesis by auto
  qed
qed simp

text \<open>C18: The loop polls libevent only when nothing else can run: \<open>loop_once\<close> runs the threads in
  \<open>ready\<close> and returns if there is one; otherwise it resumes the threads whose awaited threads have
  all ended and returns if there is one; otherwise it returns \<open>false\<close> if no thread is left, and
  only otherwise it processes events, where a deadlock is reported when libevent has no event
  to wait for.\<close>
theorem loop_once_polls:
  assumes W: "good_world W"
  shows "ratchet_loop_once W nonblock r =
    (if ready r \<noteq> [] then ratchet_start_threads_ready W r
     else if \<exists>t. map_of (waiting_on r) t = Some [] then ratchet_start_threads_done_waiting W r
     else if threads r = [] then Some (Inr False, r)
     else process_events W nonblock r)"
proof -
  consider (ready) "ready r \<noteq> []" | (waiter) "ready r = []" "\<exists>t. map_of (waiting_on r) t = Some []"
    | (poll) "ready r = []" "\<nexists>t. map_of (waiting_on r) t = Some []" by blast
  then show ?thesis
  proof cases
    case ready
    show ?thesis
    proof (cases "ratchet_start_threads_ready W r")
      case (Some q)
      with start_ready_some [OF W ready, of "fst q" "snd q"] ready show ?thesis
        by (cases q) (simp add: ratchet_loop_once_def)
    qed (simp add: ratchet_loop_once_def ready)
  next
    case waiter
    then obtain t where t: "map_of (waiting_on r) t = Some []" by blast
    then have "t \<in> set (waiters r)"
      by (metis domI dom_map_of_conv_image_fst list.set_map)
    then have o: "t \<in> set (w_order W (waiters r))"
      using good_worldD(6) [OF W] by simp
    show ?thesis
    proof (cases "ratchet_start_threads_done_waiting W r")
      case None
      with waiter show ?thesis
        by (simp add: ratchet_loop_once_def start_ready_none [OF W])
    next
      case (Some q)
      moreover obtain x r' where q: "q = (x, r')" by force
      ultimately have "x \<noteq> Inr False"
        using done_waiting_some [OF o t] unfolding ratchet_start_threads_done_waiting_def by blast
      with Some waiter q show ?thesis
        by (simp add: ratchet_loop_once_def start_ready_none [OF W])
    qed
  next
    case poll
    then have "ratchet_start_threads_done_waiting W r = Some (Inr False, r)"
      unfolding ratchet_start_threads_done_waiting_def by (intro done_waiting_none) blast
    with poll show ?thesis
      by (simp add: ratchet_loop_once_def start_ready_none [OF W])
  qed
qed

theorem loop_once_polls_witness:
  "ratchet_loop_once scripted False two_threads = Some (Inr True, two_threads) \<and>
   ratchet_loop_once scripted False (ratchet_new (LObj 0) LNil) =
     ratchet_start_threads_ready scripted (ratchet_new (LObj 0) LNil) \<and>
   ratchet_loop_once scripted False (setup_persistance_tables LNil) =
     Some (Inr False, setup_persistance_tables LNil)"
proof -
  have "ready (ratchet_new (LObj 0) LNil) = [0]"
    by (simp add: ratchet_new_def lua_newthread_def setup_persistance_tables_def set_thread_ready_def
        set_thread_persist_def)
  then have "ratchet_loop_once scripted False (ratchet_new (LObj 0) LNil) =
      ratchet_start_threads_ready scripted (ratchet_new (LObj 0) LNil)"
    by (simp add: loop_once_polls [OF scripted_good])
  moreover have "ratchet_loop_once scripted False two_threads = Some (Inr True, two_threads)"
    by (simp add: loop_once_polls [OF scripted_good])
      (simp add: two_threads_def setup_persistance_tables_def process_events_def scripted_def)
  moreover have "ratchet_loop_once scripted False (setup_persistance_tables LNil) =
     Some (Inr False, setup_persistance_tables LNil)"
    by (simp add: loop_once_polls [OF scripted_good]) (simp add: setup_persistance_tables_def)
  ultimately show ?thesis by simp
qed

section \<open>What is left behind\<close>

text \<open>C39: A thread that \<open>kill\<close> has ended is not counted as a thread any more, but stays in \<open>ready\<close> or
  \<open>waiting_on\<close> if it was there. If it was suspended, it keeps the status of a suspended thread that is
  resumed with no values, and a later \<open>wait_all\<close> does not take it as finished. If it
  had not started, running it is undefined: \<open>lua_resume\<close> is called on an empty stack with -1 arguments.\<close>
theorem kill_leaves_queued:
  assumes "ratchet_kill me (LThread t) r = Some r'"
  shows "ready r' = ready r \<and> map fst (waiting_on r') = map fst (waiting_on r) \<and> t \<notin> set (threads r') \<and>
    (if status r t = LUA_YIELD then nargs r' t = Some 0 \<and> \<not> finished r' (LThread t)
     else ratchet_run_thread W t r' = None)"
proof -
  have r': "r' = kill_thread t r"
    using assms by (simp add: ratchet_kill_def split: if_splits)
  then have st: "status r' t = status r t" "stack r' t = []"
    by (simp_all add: kill_thread_def end_events_eq)
  then have "ratchet_run_thread W t r' = None" if "status r t \<noteq> LUA_YIELD"
    using that by (simp add: ratchet_run_thread_def loop.simps [of "run_body W t"] run_body_def nargs_def)
  then show ?thesis
    using st by (simp add: r' kill_thread_def end_events_eq nargs_def finished_def comp_def split_def)
qed

theorem kill_leaves_queued_witness:
  "(\<exists>r'. ratchet_kill 0 (LThread 1) two_threads = Some r' \<and> map fst (waiting_on r') = [1] \<and>
     threads r' = [0] \<and> nargs r' 1 = Some 0) \<and>
   (\<exists>r'. ratchet_kill 0 (LThread 1) one_thread = Some r' \<and> ready r' = [1] \<and>
     ratchet_run_thread scripted 1 r' = None)"
proof -
  have k: "ratchet_kill 0 (LThread 1) r = Some (kill_thread 1 r)" for r
    by (simp add: ratchet_kill_def)
  have s: "status two_threads 1 = LUA_YIELD" "status one_thread 1 = LUA_OK" "ready one_thread = [1]"
    "map fst (waiting_on two_threads) = [1]" "threads two_threads = [1, 0]"
    by (simp_all add: two_threads_def one_thread_def)
  have "threads (kill_thread 1 two_threads) = [0]"
    by (simp add: kill_thread_def end_events_eq s)
  with kill_leaves_queued [OF k, of two_threads scripted] kill_leaves_queued [OF k, of one_thread scripted] k s
  show ?thesis by auto
qed

text \<open>\<open>unpause\<close> takes every suspended thread that is parked, also one that waits for events: it becomes
  ready, its cleanup table is overwritten, and its events stay pending.\<close>

lemma unpause_waiting:
  assumes "status r t = LUA_YIELD" "stack r t = LMain # s" "me \<noteq> Some t"
  shows "\<exists>r'. ratchet_unpause me (LThread t # vs) r = Some (None, r') \<and> pending r' = pending r \<and>
    t \<in> set (ready r') \<and> stack r' t = vs"
  using assms by (simp add: ratchet_unpause_def arg_def set_thread_ready_def)

end
