(* ===== verification/Spec2Isabelle.thy ===== *)
theory Spec2Isabelle
  imports Dns_Crypto Dns_Roundtrip Dns_Show Dns_Iter_Spec Dns_Names Dns_Socket_Spec Scheduler_Spec
begin

text \<open>
  A verification library for ratchet, a network library for Lua written in C. This root theory
  imports every other theory and describes the whole.

  \<^bold>\<open>The program.\<close> A Lua program runs in coroutines. The scheduler (\<^verbatim>\<open>src/src/c/ratchet.c\<close>)
  resumes a coroutine when the descriptor, signal, timer or thread it waits for is ready; libevent
  delivers the events. Around it there are wrappers for sockets, child processes, TLS and ZeroMQ, and a
  DNS library (\<^verbatim>\<open>src/src/c/dns/libdns/dns.c\<close>) with a resolver that does not block. Inside the
  DNS library packets are at the bottom: names are encoded into and decoded from them, records are
  built from names and data, iterators visit the records. Tables (hosts, resolver configuration,
  hints) answer queries or say whom to ask, and sockets send a query and accept its answer.

  \<^bold>\<open>Conventions.\<close> Bytes and the unsigned values that are computed with are words of their width.
  Offsets and sizes are natural numbers; an assignment to an \<open>unsigned short\<close> is written \<open>u16\<close>, a
  difference of \<open>size_t\<close> that may wrap \<open>sz_sub\<close>. A buffer is the list of its bytes; an access without
  a guard in the source is a checked one in the model. The result \<open>None\<close> means undefined behaviour or a
  loop or call that does not return, so a theorem that a routine returns \<open>Some\<close> value states both memory safety
  and termination. Errors are values of \<open>dns_error\<close>. Loops whose end depends on the packet are
  \<open>loop\<close>, a \<open>partial_function\<close> of \<open>Prelude\<close>, with rules for total correctness (\<open>loop_total\<close>),
  invariants (\<open>loop_invariant\<close>) and divergence (\<open>loop_diverges\<close>). No fuel is used. The bounds that
  appear in the definitions are those of the source: 256-byte name buffers, 16 dictionary entries
  and addresses of a zone, 512-byte local answers, 768-byte first buffers of a socket, 65535-byte merged packets.

  \<^bold>\<open>The theories.\<close>
  \<^item> \<open>Prelude\<close>: machine types, buffers, \<open>loop\<close>, the collections of simplification rules.
  \<^item> \<open>Dns_Crypto\<close>: \<open>dns_k_tea\<close>, \<open>dns_k_permutor\<close> and \<open>dns_k_shuffle16\<close>. A permutor returns every
    number of its range once in a cycle; the shuffle is a bijection; the loop for the block size
    returns exactly for arguments up to \<open>2 ^ 31\<close>.
  \<^item> \<open>Dns_Text\<close>: \<open>dns_strlcpy\<close>, \<open>dns_strlcat\<close> and the \<open>dns__print\<close> helpers. The locale \<open>printer\<close> is the
    contract of a routine that prints at an offset of a bounded buffer; numbers are printed in the
    decimal notation given by \<open>decimal\<close>.
  \<^item> \<open>Dns_Packet\<close>, \<open>Dns_Name\<close>, \<open>Dns_Compress\<close>: the record \<open>dns_packet\<close> for \<open>struct dns_packet\<close>, the label
    routines, the compression dictionary, and the \<open>dns_d_\<close> routines. \<open>name_at\<close> and \<open>bad_at\<close> say,
    independently of the code, which offsets hold a name; \<open>dns_d_expand\<close> succeeds exactly where one
    is. \<open>dns_d_push\<close> returns in every packet whose dictionary holds names that end and keeps that so;
    the locale \<open>writer\<close> is its contract.
  \<^item> \<open>Dns_RR\<close>, \<open>Dns_Iter\<close>, \<open>Dns_Iter_Spec\<close>: parsing, skipping and sections of records; comparing,
    the three orders, \<open>dns_rr_grep\<close> and \<open>dns_rr_foreach\<close>. \<open>dns_p_study\<close> remembers the sections that
    the header counters give over the list of record offsets. The locale \<open>rr_order\<close> is what an
    iterator needs of an order; it gives that every matching record is visited once, in order.
  \<^item> \<open>Dns_Rdata\<close>, \<open>Dns_Writers\<close>, \<open>Dns_Roundtrip\<close>, \<open>Dns_Show\<close>: for every record type parsing, pushing,
    comparing and printing, and the table that dispatches to them. Pushing well-formed data of any type
    keeps the packet invariant and restores the end on failure. Data without names is parsed back
    as it was pushed, an MX record when the dictionary is empty; a printed text record reads back.
  \<^item> \<open>Dns_Push\<close>, \<open>Dns_Fit\<close>, \<open>Dns_Names\<close>: \<open>dns_p_push\<close>, \<open>dns_rr_copy\<close>, \<open>dns_p_merge\<close>, \<open>dns_d_cname\<close>,
    \<open>dns_rr_print\<close> and the tables of names. The locale \<open>sized_writer\<close> adds to \<open>writer\<close> when a push
    succeeds. Of \<open>dns_p_merge\<close> only the retries are covered: they end if every attempt returns.
  \<^item> \<open>Dns_Hosts\<close>, \<open>Dns_Hosts_Query\<close>: the hosts table. On a file without NUL bytes and without words
    above 254 bytes the parser is equal to splitting it into lines and words. A query is answered with
    one record for each matching entry or not at all; \<open>answer_to\<close> says, independently of the code, which
    entries match and with what data.
  \<^item> \<open>Dns_Resconf\<close>: the resolver configuration. Loading any file without words above 255 bytes leaves a
    well-formed configuration; \<open>dns_resconf_search\<close> gives exactly the names to try, in order.
  \<^item> \<open>Dns_Hints\<close>: the hints. From the configuration to the iterator: every configured name server is
    handed out once, in the configured order unless it asks for rotation.
  \<^item> \<open>Dns_Socket\<close>, \<open>Dns_Socket_Spec\<close>: the sockets. The system calls are the record \<open>net\<close>. One case of the
    switch of \<open>dns_so_check\<close> is one step; \<open>serves\<close> is the relation of everything that may happen
    between submission and answer. An accepted answer has the identifier and the question of its
    query; a TCP stream cut anywhere is put together to its message.
  \<^item> \<open>Double\<close>: the C type \<open>double\<close> as IEEE 754 binary64 numbers with rounding to nearest, \<open>modf\<close>, and
    the conversions from and to \<open>long\<close>, which are undefined out of range.
  \<^item> \<open>Misc\<close>: the helpers of \<^verbatim>\<open>src/src/c/misc.c\<close> and the values of Lua, whose numbers are doubles.
    Times are converted to within a microsecond.
  \<^item> \<open>Scheduler\<close>, \<open>Scheduler_Inv\<close>, \<open>Scheduler_Spec\<close>: the record \<open>ratchet\<close> with its tables, pending
    events and Lua threads, and the functions of \<^verbatim>\<open>ratchet.c\<close> that change them, without the
    hooks of the garbage collector and the registration of the module. What Lua code,
    libevent and waited-for objects do is the record \<open>world\<close>. \<open>reachable\<close> are the states of a running
    program whose Lua code calls the functions of \<open>ratchet.thread\<close> in any way, except that it calls
    \<open>unpause\<close> only on paused threads; in all of them the tables, events and stacks agree (\<open>sound\<close>).
    \<open>sound\<close> says of \<open>ready\<close> what is true: a thread that was killed or has failed may still be there.
    An event of a thread that is parked resumes that thread with the values of its wait; for one that
    is not, the loop fails. \<open>kill\<close> removes the events of a thread and its entries in the set of threads and
    in the lists of awaited threads, and nothing else. \<open>wait_all\<close> waits for exactly the listed threads
    that can still be resumed. The loop polls only when no thread is ready and none has finished waiting.

  \<^bold>\<open>What is an argument.\<close> Code that is not part of the sources: \<open>malloc\<close> and \<open>realloc\<close>, \<open>dns_random\<close>,
  \<open>inet_pton\<close> and \<open>inet_ntop\<close>, \<open>gethostname\<close>, the time, the socket calls, libevent and the Lua
  machine. Where a theorem relies on them, what they promise is a named hypothesis (\<open>mallocs\<close>,
  \<open>inet_ok\<close>, \<open>net_ok\<close>, \<open>streams\<close>, \<open>sinks\<close>, \<open>good_world\<close>), and a witness gives a concrete instance.
  Files are their bytes.

  \<^bold>\<open>What the code does not do.\<close> Some theorems show that a routine fails its purpose:
  \<open>dns_d_expand_cycle\<close> (a pointer back to an earlier label of the same name is followed for ever),
  \<open>dns_d_push_wrong_suffix\<close> (names that differ in the middle are compressed into one),
  \<open>dns_so_tcp_send_resumes_wrong\<close> (an interrupted query goes on at the wrong byte), \<open>kill_leaves_queued\<close>
  (a killed thread stays queued, and resuming one that had not started is undefined),
  \<open>block_on_timeout\<close> (\<open>false\<close> where the documentation says \<open>nil\<close>), \<open>powof_returns_iff\<close>, and the lemmas
  \<open>unpause_waiting\<close> (\<open>unpause\<close> takes a thread that waits for events and leaves them pending),
  \<open>foreach_cycle\<close> (records that compare in a cycle are visited for ever), \<open>set_closeonexec_no_effect\<close>,
  \<open>open_without_domain\<close> and \<open>full_table_overwrites\<close>.

  \<^bold>\<open>Not modelled.\<close> The resolver and the address lookup of \<^verbatim>\<open>dns.c\<close> (\<open>dns_res_exec\<close>, \<open>dns_ai_nextent\<close>):
  they are clients of the components above, and the library stops at these. The cache functions
  of \<^verbatim>\<open>dns.c\<close> are stubs without a state. The routines that only print to a stream, and the unit tests at the end of the file. The
  bindings of sockets, child processes, TLS, ZeroMQ, timers and the DNS library to Lua, and error
  objects, move values between the Lua stack and a library that is not part of the sources. The
  modules written in Lua (SMTP, HTTP, message bus, socket buffers) need a semantics of Lua.
\<close>

end
